(* ===== verification/Wruster_Prelude.thy ===== *)
theory Wruster_Prelude
  imports Main "HOL-Library.AList" "HOL-Library.Multiset"
begin

text \<open>
  The shared base of the development: the results of Rust computations (values, errors,
  panics, divergence), programs over a state and their sequencing, the \<^verbatim>\<open>std::io\<close>
  errors, and bytes.

  A Rust \<^verbatim>\<open>String\<close> or \<^verbatim>\<open>&[u8]\<close> is the list of its bytes, so that lengths, indices
  and slices count bytes as they do in the code.
\<close>

section \<open>Results, panics and divergence\<close>

type_synonym byte = char

datatype ('a, 'e) res = Ok 'a | Err 'e | Panic

text \<open>
  A program over a state: \<open>None\<close> is a run that never returns, \<open>Panic\<close> unwinds the
  thread, \<open>Err\<close> is the \<^verbatim>\<open>Err\<close> of a \<^verbatim>\<open>Result\<close>.
\<close>

type_synonym ('s, 'a, 'e) prog = "'s \<Rightarrow> (('a, 'e) res \<times> 's) option"

named_theorems prog_simps \<open>evaluation rules of the program combinators\<close>

definition ret :: "'a \<Rightarrow> ('s, 'a, 'e) prog" where
  "ret x = (\<lambda>s. Some (Ok x, s))"

definition fail :: "'e \<Rightarrow> ('s, 'a, 'e) prog" where
  "fail e = (\<lambda>s. Some (Err e, s))"

definition panic :: "('s, 'a, 'e) prog" where
  "panic = (\<lambda>s. Some (Panic, s))"

text \<open>Sequencing with the \<^verbatim>\<open>?\<close> operator: errors and panics end the run.\<close>

definition and_then :: "('s, 'a, 'e) prog \<Rightarrow> ('a \<Rightarrow> ('s, 'b, 'e) prog) \<Rightarrow> ('s, 'b, 'e) prog" where
  "and_then m f = (\<lambda>s. case m s of
       None \<Rightarrow> None
     | Some (r, s') \<Rightarrow> (case r of Ok x \<Rightarrow> f x s' | Err e \<Rightarrow> Some (Err e, s') | Panic \<Rightarrow> Some (Panic, s')))"

primrec res_map_err :: "('e \<Rightarrow> 'f) \<Rightarrow> ('a, 'e) res \<Rightarrow> ('a, 'f) res" where
  "res_map_err g (Ok x) = Ok x"
| "res_map_err g (Err e) = Err (g e)"
| "res_map_err g Panic = Panic"

definition map_err :: "('e \<Rightarrow> 'f) \<Rightarrow> ('s, 'a, 'e) prog \<Rightarrow> ('s, 'a, 'f) prog" where
  "map_err g m = (\<lambda>s. map_option (\<lambda>(r, s'). (res_map_err g r, s')) (m s))"

definition of_res :: "('a, 'e) res \<Rightarrow> ('s, 'a, 'e) prog" where
  "of_res r = (\<lambda>s. Some (r, s))"

lemma ret_apply [prog_simps, simp]: "ret x s = Some (Ok x, s)"
  by (simp add: ret_def)

lemma fail_apply [prog_simps, simp]: "fail e s = Some (Err e, s)"
  by (simp add: fail_def)

lemma panic_apply [prog_simps, simp]: "panic s = Some (Panic, s)"
  by (simp add: panic_def)

lemma of_res_apply [prog_simps, simp]: "of_res r s = Some (r, s)"
  by (simp add: of_res_def)

lemma and_then_None [prog_simps]: "m s = None \<Longrightarrow> and_then m f s = None"
  by (simp add: and_then_def)

lemma and_then_Ok [prog_simps]: "m s = Some (Ok x, s') \<Longrightarrow> and_then m f s = f x s'"
  by (simp add: and_then_def)

lemma and_then_Err [prog_simps]: "m s = Some (Err e, s') \<Longrightarrow> and_then m f s = Some (Err e, s')"
  by (simp add: and_then_def)

lemma and_then_Panic [prog_simps]: "m s = Some (Panic, s') \<Longrightarrow> and_then m f s = Some (Panic, s')"
  by (simp add: and_then_def)

lemma and_then_ret [simp]: "and_then (ret x) f s = f x s"
  by (simp add: and_then_def)

lemma and_then_OkD:
  assumes "and_then m f s = Some (Ok y, t)"
  obtains x s' where "m s = Some (Ok x, s')" "f x s' = Some (Ok y, t)"
  using assms by (auto simp: and_then_def split: option.splits prod.splits res.splits)

lemma map_err_Ok [prog_simps]: "m s = Some (Ok x, s') \<Longrightarrow> map_err g m s = Some (Ok x, s')"
  by (simp add: map_err_def)

lemma map_err_Err [prog_simps]: "m s = Some (Err e, s') \<Longrightarrow> map_err g m s = Some (Err (g e), s')"
  by (simp add: map_err_def)

lemma map_err_Panic [prog_simps]: "m s = Some (Panic, s') \<Longrightarrow> map_err g m s = Some (Panic, s')"
  by (simp add: map_err_def)

lemma map_err_None [prog_simps]: "m s = None \<Longrightarrow> map_err g m s = None"
  by (simp add: map_err_def)

section \<open>\<^verbatim>\<open>std::io::Error\<close>\<close>

datatype io_kind =
    NotFound | PermissionDenied | ConnectionReset | NotConnected | WouldBlock | TimedOut
  | Interrupted | WriteZero | UnexpectedEof | InvalidData | Other | Uncategorized

datatype io_error = IoError (io_kind: io_kind) (io_msg: string)

text \<open>\<^verbatim>\<open>io::Error::from(kind)\<close>: its message is the standard description of the kind.\<close>

primrec io_description :: "io_kind \<Rightarrow> string" where
  "io_description NotFound = ''entity not found''"
| "io_description PermissionDenied = ''permission denied''"
| "io_description ConnectionReset = ''connection reset''"
| "io_description NotConnected = ''not connected''"
| "io_description WouldBlock = ''operation would block''"
| "io_description TimedOut = ''timed out''"
| "io_description Interrupted = ''operation interrupted''"
| "io_description WriteZero = ''write zero''"
| "io_description UnexpectedEof = ''unexpected end of file''"
| "io_description InvalidData = ''invalid data''"
| "io_description Other = ''other error''"
| "io_description Uncategorized = ''uncategorized error''"

definition io_error_from :: "io_kind \<Rightarrow> io_error" where
  "io_error_from k = IoError k (io_description k)"

lemma io_kind_io_error_from [simp]: "io_kind (io_error_from k) = k"
  by (simp add: io_error_from_def)

section \<open>Bytes and strings\<close>

abbreviation CR :: byte where "CR \<equiv> CHR 0x0D"
abbreviation LF :: byte where "LF \<equiv> CHR 0x0A"
abbreviation SP :: byte where "SP \<equiv> CHR 0x20"
abbreviation HTAB :: byte where "HTAB \<equiv> CHR 0x09"
abbreviation crlf :: "byte list" where "crlf \<equiv> [CR, LF]"

definition code :: "byte \<Rightarrow> nat" where
  "code c = of_char c"

lemma code_less_256 [simp]: "code c < 256"
  by (simp add: code_def)

lemma code_diff_less_256 [simp]: "code c - n < 256"
  by (rule le_less_trans [OF diff_le_self code_less_256])

lemma code_inj [simp]: "code c = code d \<longleftrightarrow> c = d"
  by (simp add: code_def)

definition between :: "nat \<Rightarrow> byte \<Rightarrow> nat \<Rightarrow> bool" where
  "between lo c hi \<longleftrightarrow> lo \<le> code c \<and> code c \<le> hi"

definition is_ascii :: "byte \<Rightarrow> bool" where
  "is_ascii c \<longleftrightarrow> code c < 128"

definition is_upper_byte :: "byte \<Rightarrow> bool" where
  "is_upper_byte c \<longleftrightarrow> between 0x41 c 0x5A"

definition is_lower_byte :: "byte \<Rightarrow> bool" where
  "is_lower_byte c \<longleftrightarrow> between 0x61 c 0x7A"

definition is_digit_byte :: "byte \<Rightarrow> bool" where
  "is_digit_byte c \<longleftrightarrow> between 0x30 c 0x39"

text \<open>\<^verbatim>\<open>char::is_ascii_alphanumeric\<close>, \<^verbatim>\<open>char::to_ascii_uppercase\<close>.\<close>

definition is_ascii_alphanumeric :: "byte \<Rightarrow> bool" where
  "is_ascii_alphanumeric c \<longleftrightarrow> is_upper_byte c \<or> is_lower_byte c \<or> is_digit_byte c"

definition to_ascii_uppercase :: "byte \<Rightarrow> byte" where
  "to_ascii_uppercase c = (if is_lower_byte c then char_of (code c - 32) else c)"

definition to_ascii_lowercase :: "byte \<Rightarrow> byte" where
  "to_ascii_lowercase c = (if is_upper_byte c then char_of (code c + 32) else c)"

lemma code_char_of [simp]: "n < 256 \<Longrightarrow> code (char_of n) = n"
  by (simp add: code_def)

end
