(* ===== verification/Std_Strings.thy ===== *)
theory Std_Strings
  imports Wruster_Prelude
begin

text \<open>
  The functions of Rust's \<^verbatim>\<open>str\<close>, \<^verbatim>\<open>String\<close> and the integer parsers that the
  sources call, on the bytes of a string: \<^verbatim>\<open>String::push\<close> of a \<^verbatim>\<open>u8 as char\<close>,
  \<^verbatim>\<open>String::from_utf8_lossy\<close>, \<^verbatim>\<open>to_lowercase\<close>, \<^verbatim>\<open>trim_end\<close>,
  \<^verbatim>\<open>split(char)\<close>, \<^verbatim>\<open>to_string\<close> and \<^verbatim>\<open>parse\<close> of unsigned integers.
\<close>

section \<open>Latin-1 characters in UTF-8\<close>

text \<open>
  \<^verbatim>\<open>b as char\<close> of a byte is the code point with the byte's number; \<^verbatim>\<open>String::push\<close>
  appends its UTF-8 encoding, one byte below 0x80 and two bytes from there on.
\<close>

definition utf8_of_latin1 :: "byte \<Rightarrow> string" where
  "utf8_of_latin1 c =
     (if code c < 128 then [c]
      else [char_of (192 + code c div 64), char_of (128 + code c mod 64)])"

definition push :: "string \<Rightarrow> byte \<Rightarrow> string" where
  "push s c = s @ utf8_of_latin1 c"

lemma utf8_of_ascii [simp]: "is_ascii c \<Longrightarrow> utf8_of_latin1 c = [c]"
  by (simp add: utf8_of_latin1_def is_ascii_def)

lemma push_ascii [simp]: "is_ascii c \<Longrightarrow> push s c = s @ [c]"
  by (simp add: push_def)

section \<open>Lossy UTF-8 decoding\<close>

text \<open>
  \<open>utf8_valid_prefix\<close> is the inner loop of \<^verbatim>\<open>Utf8Chunks\<close> on one character: the
  number of bytes of the character at the head and whether it is well formed; an ill-formed
  one is the longest prefix that could still have begun a character.
\<close>

definition is_cont :: "byte \<Rightarrow> bool" where
  "is_cont c \<longleftrightarrow> between 0x80 c 0xBF"

definition second_ok :: "byte \<Rightarrow> byte \<Rightarrow> bool" where
  "second_ok c d \<longleftrightarrow>
     (if code c = 0xE0 then between 0xA0 d 0xBF
      else if code c = 0xED then between 0x80 d 0x9F
      else if code c = 0xF0 then between 0x90 d 0xBF
      else if code c = 0xF4 then between 0x80 d 0x8F
      else is_cont d)"

definition utf8_width :: "byte \<Rightarrow> nat" where
  "utf8_width c =
     (if code c < 0x80 then 1 else if between 0xC2 c 0xDF then 2
      else if between 0xE0 c 0xEF then 3 else if between 0xF0 c 0xF4 then 4 else 0)"

fun utf8_valid_prefix :: "byte list \<Rightarrow> bool \<times> nat" where
  "utf8_valid_prefix [] = (True, 0)"
| "utf8_valid_prefix (c # cs) =
     (let w = utf8_width c in
      if w = 0 then (False, 1) else if w = 1 then (True, 1)
      else (case cs of [] \<Rightarrow> (False, 1) | d # ds \<Rightarrow>
        if \<not> second_ok c d then (False, 1) else if w = 2 then (True, 2)
        else (case ds of [] \<Rightarrow> (False, 2) | e # es \<Rightarrow>
          if \<not> is_cont e then (False, 2) else if w = 3 then (True, 3)
          else (case es of [] \<Rightarrow> (False, 3) | f # _ \<Rightarrow>
            if \<not> is_cont f then (False, 3) else (True, 4)))))"

lemma utf8_valid_prefix_pos: "0 < snd (utf8_valid_prefix (c # cs))"
  by (auto simp: Let_def split: list.splits)

definition replacement :: string where
  "replacement = [CHR 0xEF, CHR 0xBF, CHR 0xBD]"

function from_utf8_lossy :: "byte list \<Rightarrow> string" where
  "from_utf8_lossy [] = []"
| "from_utf8_lossy (c # cs) =
     (case utf8_valid_prefix (c # cs) of (ok, n) \<Rightarrow>
        (if ok then take n (c # cs) else replacement) @ from_utf8_lossy (drop n (c # cs)))"
  by pat_completeness auto
termination
proof (relation "measure length")
  show "wf (measure length)" by simp
next
  fix c :: byte and cs ok n
  assume "(ok, n) = utf8_valid_prefix (c # cs)"
  then have "0 < n" using utf8_valid_prefix_pos [of c cs] by (metis snd_conv)
  then show "(drop n (c # cs), c # cs) \<in> measure length" by simp
qed

lemma from_utf8_lossy_ne: "s \<noteq> [] \<Longrightarrow> from_utf8_lossy s \<noteq> []"
proof (cases s)
  case (Cons c cs)
  obtain good n where "utf8_valid_prefix (c # cs) = (good, n)" by fastforce
  with utf8_valid_prefix_pos [of c cs] Cons show ?thesis
    by (simp add: replacement_def del: utf8_valid_prefix.simps)
qed simp

lemma from_utf8_lossy_ascii: "list_all is_ascii s \<Longrightarrow> from_utf8_lossy s = s"
  by (induction s) (auto simp: is_ascii_def utf8_width_def Let_def)

lemma from_utf8_lossy_ascii_prefix:
  "list_all is_ascii s \<Longrightarrow> from_utf8_lossy (s @ t) = s @ from_utf8_lossy t"
  by (induction s) (auto simp: is_ascii_def utf8_width_def Let_def)

section \<open>Case, whitespace, splitting\<close>

text \<open>
  \<^verbatim>\<open>str::to_lowercase\<close>, as far as a comparison with an ASCII word can tell: the only
  characters whose Unicode lower case is an ASCII character are the ASCII letters and the
  Kelvin sign U+212A. Every other character is left alone here; its lower case has a
  non-ASCII character too, so both sides of such a comparison stay different.
\<close>

fun to_lowercase :: "string \<Rightarrow> string" where
  "to_lowercase [] = []"
| "to_lowercase (c # cs) =
     (case cs of
        d # e # es \<Rightarrow>
          if [c, d, e] = [CHR 0xE2, CHR 0x84, CHR 0xAA] then CHR ''k'' # to_lowercase es
          else to_ascii_lowercase c # to_lowercase cs
      | _ \<Rightarrow> to_ascii_lowercase c # to_lowercase cs)"

text \<open>\<^verbatim>\<open>str::trim_end\<close> removes trailing Unicode white space; the list is reversed.\<close>

definition is_ascii_space :: "byte \<Rightarrow> bool" where
  "is_ascii_space c \<longleftrightarrow> between 9 c 13 \<or> c = SP"

definition is_space3 :: "byte \<Rightarrow> byte \<Rightarrow> byte \<Rightarrow> bool" where
  "is_space3 a b c \<longleftrightarrow>
     (code a, code b, code c) \<in> {(0xE1, 0x9A, 0x80), (0xE2, 0x80, 0xA8), (0xE2, 0x80, 0xA9),
        (0xE2, 0x80, 0xAF), (0xE2, 0x81, 0x9F), (0xE3, 0x80, 0x80)}
     \<or> code a = 0xE2 \<and> code b = 0x80 \<and> between 0x80 c 0x8A"

fun trim_rev :: "string \<Rightarrow> string" where
  "trim_rev [] = []"
| "trim_rev (c # cs) =
     (if is_ascii_space c then trim_rev cs
      else (case cs of
         [] \<Rightarrow> c # cs
       | b # bs \<Rightarrow>
           if code b = 0xC2 \<and> code c \<in> {0x85, 0xA0} then trim_rev bs
           else (case bs of [] \<Rightarrow> c # cs
                 | a # as \<Rightarrow> if is_space3 a b c then trim_rev as else c # cs)))"

definition trim_end :: "string \<Rightarrow> string" where
  "trim_end s = rev (trim_rev (rev s))"

text \<open>\<^verbatim>\<open>str::split(c)\<close>: always at least one part.\<close>

fun split_on :: "byte \<Rightarrow> string \<Rightarrow> string list" where
  "split_on d [] = [[]]"
| "split_on d (c # cs) =
     (if c = d then [] # split_on d cs
      else (case split_on d cs of [] \<Rightarrow> [[c]] | p # ps \<Rightarrow> (c # p) # ps))"

fun join_with :: "byte \<Rightarrow> string list \<Rightarrow> string" where
  "join_with d [] = []"
| "join_with d [p] = p"
| "join_with d (p # q # ps) = p @ d # join_with d (q # ps)"

lemma split_on_not_Nil [simp]: "split_on d s \<noteq> []"
  by (induction s) (auto split: list.splits)

lemma split_on_no_sep: "p \<in> set (split_on d s) \<Longrightarrow> d \<notin> set p"
  by (induction s arbitrary: p) (fastforce split: if_splits list.splits)+

lemma split_on_single: "d \<notin> set s \<Longrightarrow> split_on d s = [s]"
  by (induction s) auto

lemma split_on_append: "d \<notin> set p \<Longrightarrow> split_on d (p @ d # s) = p # split_on d s"
  by (induction p) auto

lemma split_on_join: "ps \<noteq> [] \<Longrightarrow> \<forall>p \<in> set ps. d \<notin> set p \<Longrightarrow> split_on d (join_with d ps) = ps"
  by (induction d ps rule: join_with.induct) (auto simp: split_on_single split_on_append)

lemma join_split_on [simp]: "join_with d (split_on d s) = s"
proof (induction s)
  case (Cons c cs)
  then show ?case
    by (cases "split_on d cs" rule: list.exhaust) (auto simp: neq_Nil_conv split: list.splits,
        (metis append_Cons join_with.simps(2,3) list.exhaust)+)
qed simp

section \<open>Unsigned decimal numbers\<close>

definition digit_char :: "nat \<Rightarrow> byte" where
  "digit_char d = char_of (48 + d)"

text \<open>\<^verbatim>\<open>to_string\<close> of an unsigned integer.\<close>

fun show_nat :: "nat \<Rightarrow> string" where
  "show_nat n = (if n < 10 then [digit_char n] else show_nat (n div 10) @ [digit_char (n mod 10)])"

declare show_nat.simps [simp del]

text \<open>
  \<^verbatim>\<open>str::parse\<close> into an unsigned type with the bound \<open>m\<close> (2 to the power of its
  width): an optional plus sign, then digits; the digit check precedes the overflow check.
\<close>

definition digit_val :: "byte \<Rightarrow> nat option" where
  "digit_val c = (if is_digit_byte c then Some (code c - 48) else None)"

datatype parse_int_error = IntEmpty | InvalidDigit | PosOverflow

primrec parse_int_error_msg :: "parse_int_error \<Rightarrow> string" where
  "parse_int_error_msg IntEmpty = ''cannot parse integer from empty string''"
| "parse_int_error_msg InvalidDigit = ''invalid digit found in string''"
| "parse_int_error_msg PosOverflow = ''number too large to fit in target type''"

fun parse_digits :: "nat \<Rightarrow> nat \<Rightarrow> string \<Rightarrow> (nat, parse_int_error) res" where
  "parse_digits m acc [] = Ok acc"
| "parse_digits m acc (c # cs) =
     (case digit_val c of
        None \<Rightarrow> Err InvalidDigit
      | Some d \<Rightarrow>
          if acc * 10 + d < m then parse_digits m (acc * 10 + d) cs
          else Err PosOverflow)"

definition parse_uint :: "nat \<Rightarrow> string \<Rightarrow> (nat, parse_int_error) res" where
  "parse_uint m s =
     (case s of
        [] \<Rightarrow> Err IntEmpty
      | c # cs \<Rightarrow>
          if c = CHR ''+'' then
            (if cs = [] then Err InvalidDigit else parse_digits m 0 cs)
          else parse_digits m 0 s)"

definition parse_usize :: "string \<Rightarrow> (nat, parse_int_error) res" where
  "parse_usize = parse_uint (2 ^ 64)"

definition parse_u8 :: "string \<Rightarrow> (nat, parse_int_error) res" where
  "parse_u8 = parse_uint 256"

lemma code_digit_char [simp]: "d < 10 \<Longrightarrow> code (digit_char d) = 48 + d"
  by (simp add: digit_char_def)

lemma digit_val_digit_char [simp]: "d < 10 \<Longrightarrow> digit_val (digit_char d) = Some d"
  by (simp add: digit_val_def is_digit_byte_def between_def)

lemma parse_digits_append:
  "parse_digits m acc s = Ok n \<Longrightarrow> parse_digits m acc (s @ t) = parse_digits m n t"
  by (induction m acc s rule: parse_digits.induct) (auto split: option.splits if_splits)

lemma parse_digits_show: "n < m \<Longrightarrow> parse_digits m 0 (show_nat n) = Ok n"
proof (induction n rule: show_nat.induct)
  case (1 n)
  show ?case
  proof (cases "n < 10")
    case True
    then show ?thesis using "1.prems" by (simp add: show_nat.simps [of n])
  next
    case False
    have "n div 10 < m" using "1.prems" div_le_dividend le_less_trans by blast
    with "1.IH" False have ih: "parse_digits m 0 (show_nat (n div 10)) = Ok (n div 10)" by simp
    have "parse_digits m 0 (show_nat n) = parse_digits m (n div 10) [digit_char (n mod 10)]"
      using False by (simp add: show_nat.simps [of n] parse_digits_append [OF ih])
    also have "\<dots> = Ok n" using "1.prems" by simp
    finally show ?thesis .
  qed
qed

lemma show_nat_digits: "c \<in> set (show_nat n) \<Longrightarrow> is_digit_byte c"
proof (induction n rule: show_nat.induct)
  case (1 n)
  then show ?case
    by (cases "n < 10") (auto simp: show_nat.simps [of n] is_digit_byte_def between_def)
qed

lemma show_nat_Nil [simp]: "show_nat n \<noteq> []"
  by (subst show_nat.simps) simp

lemma show_nat_no_plus: "show_nat n \<noteq> CHR ''+'' # cs"
  using show_nat_digits [of "CHR ''+''" n]
  by (auto simp: is_digit_byte_def between_def code_def)

lemma parse_uint_show [simp]: "n < m \<Longrightarrow> parse_uint m (show_nat n) = Ok n"
  using show_nat_no_plus [of n] show_nat_Nil [of n] parse_digits_show [of n m]
  by (auto simp: parse_uint_def simp del: parse_digits.simps split: list.split)

lemma parse_digits_bound: "parse_digits m acc s = Ok n \<Longrightarrow> acc < m \<Longrightarrow> n < m"
  by (induction m acc s rule: parse_digits.induct) (auto split: option.splits if_splits)

lemma parse_usize_bound: "parse_usize s = Ok n \<Longrightarrow> n < 2 ^ 64"
  by (auto simp: parse_usize_def parse_uint_def simp del: parse_digits.simps
      dest!: parse_digits_bound split: list.splits if_splits)

lemma show_nat_ascii: "list_all is_ascii (show_nat n)"
  by (auto simp: list_all_iff is_ascii_def is_digit_byte_def between_def dest!: show_nat_digits)

lemma show_nat_hundreds: "100 \<le> n \<Longrightarrow> n < 1000 \<Longrightarrow> length (show_nat n) = 3"
proof -
  assume n: "100 \<le> n" "n < 1000"
  then have d: "n div 10 div 10 < 10" "\<not> n div 10 < 10" "\<not> n < 10" by linarith+
  then show "length (show_nat n) = 3"
    by (simp add: show_nat.simps [of n] show_nat.simps [of "n div 10"] show_nat.simps [of "n div 10 div 10"])
qed

section \<open>Trimming ASCII text\<close>

lemma trim_end_space [simp]: "trim_end (s @ [SP]) = trim_end s"
  by (simp add: trim_end_def is_ascii_space_def)

lemma trim_end_stops:
  assumes "is_ascii c" and "\<not> is_ascii_space c"
  shows "trim_end (s @ [c]) = s @ [c]"
  using assms
  by (cases "rev s" rule: list.exhaust)
    (auto simp: trim_end_def is_ascii_def is_space3_def between_def split: list.splits)

lemma digit_no_space: "is_digit_byte c \<Longrightarrow> is_ascii c \<and> \<not> is_ascii_space c"
  by (auto simp: is_digit_byte_def is_ascii_def is_ascii_space_def between_def code_def)

lemma trim_end_show [simp]: "trim_end (show_nat n) = show_nat n"
proof -
  have "show_nat n = butlast (show_nat n) @ [last (show_nat n)]" by simp
  moreover have "is_digit_byte (last (show_nat n))" by (rule show_nat_digits [OF last_in_set]) simp
  ultimately show ?thesis using trim_end_stops digit_no_space by metis
qed

declare from_utf8_lossy.simps [simp del]

end
