(* ===== verification/Http_Types.thy ===== *)
theory Http_Types
  imports Std_Strings
begin

text \<open>
  The value types of \<^verbatim>\<open>wruster/src/http\<close>: the errors of \<^verbatim>\<open>errors.rs\<close>, the
  versions of \<^verbatim>\<open>version.rs\<close>, the status codes of \<^verbatim>\<open>status.rs\<close>, the methods and
  the character classes of \<^verbatim>\<open>mod.rs\<close>, with the round trips between values and text.
\<close>

section \<open>Errors\<close>

datatype http_error =
    Unknown string
  | ConnectionClosed
  | Timeout
  | InvalidRequest string

fun http_error_display :: "http_error \<Rightarrow> string" where
  "http_error_display (Unknown msg) = msg"
| "http_error_display ConnectionClosed = ''connection closed''"
| "http_error_display Timeout = ''operation timeout''"
| "http_error_display (InvalidRequest msg) = ''invalid request: '' @ msg"

definition http_error_from_io :: "io_error \<Rightarrow> http_error" where
  "http_error_from_io err =
     (case io_kind err of
        NotConnected \<Rightarrow> ConnectionClosed
      | TimedOut \<Rightarrow> Timeout
      | _ \<Rightarrow> Unknown (io_msg err))"

section \<open>Versions\<close>

datatype version = HTTP1_0 | HTTP1_1 | HTTP2

datatype parse_version_error = ParseVersionError string

definition version_from_str :: "string \<Rightarrow> (version, parse_version_error) res" where
  "version_from_str s =
     (if s = ''HTTP/1.0'' then Ok HTTP1_0
      else if s = ''HTTP/1.1'' then Ok HTTP1_1
      else if s = ''HTTP/2'' then Ok HTTP2
      else Err (ParseVersionError s))"

primrec version_to_string :: "version \<Rightarrow> string" where
  "version_to_string HTTP1_0 = ''HTTP/1.0''"
| "version_to_string HTTP1_1 = ''HTTP/1.1''"
| "version_to_string HTTP2 = ''HTTP/2''"

primrec parse_version_error_display :: "parse_version_error \<Rightarrow> string" where
  "parse_version_error_display (ParseVersionError s) = ''invalid version string '' @ s"

section \<open>Status codes\<close>

datatype status_code =
    Continue | SwitchingProtocols | OK | Created | Accepted | NonAuthoritativeInformation
  | NoContent | ResetContent | PartialContent | MultipleChoices | MovedPermanently | Found
  | SeeOther | NotModified | UseProxy | TemporaryRedirect | BadRequest | Unauthorized
  | PaymentRequired | Forbidden | NotFoundStatus | MethodNotAllowed | NotAcceptable
  | ProxyAuthenticationRequired | RequestTimeOut | Conflict | Gone | LengthRequired
  | PreconditionFailed | RequestEntityTooLarge | RequestURITooLarge | UnsupportedMediaType
  | RequestedRangeNotSatisfiable | ExpectationFailed | InternalServerError | NotImplemented
  | BadGateway | ServiceUnavailable | GatewayTimeOut | HTTPVersionNotSupported
  | ExtensionCode nat

primrec reason :: "status_code \<Rightarrow> string" where
  "reason Continue = ''Continue''"
| "reason SwitchingProtocols = ''Switching Protocols''"
| "reason OK = ''OK''"
| "reason Created = ''Created''"
| "reason Accepted = ''Accepted''"
| "reason NonAuthoritativeInformation = ''Non-Authoritative Information''"
| "reason NoContent = ''No Content''"
| "reason ResetContent = ''Reset Content''"
| "reason PartialContent = ''Partial Content''"
| "reason MultipleChoices = ''Multiple Choices''"
| "reason MovedPermanently = ''Moved Permanently''"
| "reason Found = ''Found''"
| "reason SeeOther = ''See Other''"
| "reason NotModified = ''Not Modified''"
| "reason UseProxy = ''Use Proxy''"
| "reason TemporaryRedirect = ''Temporary Redirect''"
| "reason BadRequest = ''Bad Request''"
| "reason Unauthorized = ''Unauthorized''"
| "reason PaymentRequired = ''Payment Required''"
| "reason Forbidden = ''Forbidden''"
| "reason NotFoundStatus = ''Not Found''"
| "reason MethodNotAllowed = ''Method Not Allowed''"
| "reason NotAcceptable = ''Not Acceptable''"
| "reason ProxyAuthenticationRequired = ''Proxy Authentication Required''"
| "reason RequestTimeOut = ''Request Time-out''"
| "reason Conflict = ''Conflict''"
| "reason Gone = ''Gone''"
| "reason LengthRequired = ''Length Required''"
| "reason PreconditionFailed = ''Precondition Failed''"
| "reason RequestEntityTooLarge = ''Request Entity Too Large''"
| "reason RequestURITooLarge = ''Request-URI Too Large''"
| "reason UnsupportedMediaType = ''Unsupported Media Type''"
| "reason RequestedRangeNotSatisfiable = ''Requested range not satisfiable''"
| "reason ExpectationFailed = ''Expectation Failed''"
| "reason InternalServerError = ''Internal Server Error''"
| "reason NotImplemented = ''Not Implemented''"
| "reason BadGateway = ''Bad Gateway''"
| "reason ServiceUnavailable = ''Service Unavailable''"
| "reason GatewayTimeOut = ''Gateway Time-out''"
| "reason HTTPVersionNotSupported = ''HTTP Version not supported''"
| "reason (ExtensionCode n) = ''Extension code''"

definition status_from_usize :: "nat \<Rightarrow> status_code" where
  "status_from_usize c =
     (if c = 100 then Continue
      else if c = 101 then SwitchingProtocols
      else if c = 200 then OK
      else if c = 201 then Created
      else if c = 202 then Accepted
      else if c = 203 then NonAuthoritativeInformation
      else if c = 204 then NoContent
      else if c = 205 then ResetContent
      else if c = 206 then PartialContent
      else if c = 300 then MultipleChoices
      else if c = 301 then MovedPermanently
      else if c = 302 then Found
      else if c = 303 then SeeOther
      else if c = 304 then NotModified
      else if c = 305 then UseProxy
      else if c = 307 then TemporaryRedirect
      else if c = 400 then BadRequest
      else if c = 401 then Unauthorized
      else if c = 402 then PaymentRequired
      else if c = 403 then Forbidden
      else if c = 404 then NotFoundStatus
      else if c = 405 then MethodNotAllowed
      else if c = 406 then NotAcceptable
      else if c = 407 then ProxyAuthenticationRequired
      else if c = 408 then RequestTimeOut
      else if c = 409 then Conflict
      else if c = 410 then Gone
      else if c = 411 then LengthRequired
      else if c = 412 then PreconditionFailed
      else if c = 413 then RequestEntityTooLarge
      else if c = 414 then RequestURITooLarge
      else if c = 415 then UnsupportedMediaType
      else if c = 416 then RequestedRangeNotSatisfiable
      else if c = 417 then ExpectationFailed
      else if c = 500 then InternalServerError
      else if c = 501 then NotImplemented
      else if c = 502 then BadGateway
      else if c = 503 then ServiceUnavailable
      else if c = 504 then GatewayTimeOut
      else if c = 505 then HTTPVersionNotSupported
      else ExtensionCode c)"

primrec usize_from_status :: "status_code \<Rightarrow> nat" where
  "usize_from_status Continue = 100"
| "usize_from_status SwitchingProtocols = 101"
| "usize_from_status OK = 200"
| "usize_from_status Created = 201"
| "usize_from_status Accepted = 202"
| "usize_from_status NonAuthoritativeInformation = 203"
| "usize_from_status NoContent = 204"
| "usize_from_status ResetContent = 205"
| "usize_from_status PartialContent = 206"
| "usize_from_status MultipleChoices = 300"
| "usize_from_status MovedPermanently = 301"
| "usize_from_status Found = 302"
| "usize_from_status SeeOther = 303"
| "usize_from_status NotModified = 304"
| "usize_from_status UseProxy = 305"
| "usize_from_status TemporaryRedirect = 307"
| "usize_from_status BadRequest = 400"
| "usize_from_status Unauthorized = 401"
| "usize_from_status PaymentRequired = 402"
| "usize_from_status Forbidden = 403"
| "usize_from_status NotFoundStatus = 404"
| "usize_from_status MethodNotAllowed = 405"
| "usize_from_status NotAcceptable = 406"
| "usize_from_status ProxyAuthenticationRequired = 407"
| "usize_from_status RequestTimeOut = 408"
| "usize_from_status Conflict = 409"
| "usize_from_status Gone = 410"
| "usize_from_status LengthRequired = 411"
| "usize_from_status PreconditionFailed = 412"
| "usize_from_status RequestEntityTooLarge = 413"
| "usize_from_status RequestURITooLarge = 414"
| "usize_from_status UnsupportedMediaType = 415"
| "usize_from_status RequestedRangeNotSatisfiable = 416"
| "usize_from_status ExpectationFailed = 417"
| "usize_from_status InternalServerError = 500"
| "usize_from_status NotImplemented = 501"
| "usize_from_status BadGateway = 502"
| "usize_from_status ServiceUnavailable = 503"
| "usize_from_status GatewayTimeOut = 504"
| "usize_from_status HTTPVersionNotSupported = 505"
| "usize_from_status (ExtensionCode n) = n"

definition status_display :: "status_code \<Rightarrow> string" where
  "status_display s = show_nat (usize_from_status s) @ SP # reason s"

definition string_from_status :: "status_code \<Rightarrow> string" where
  "string_from_status s = status_display s"

primrec status_clone :: "status_code \<Rightarrow> status_code" where
  "status_clone Continue = Continue"
| "status_clone SwitchingProtocols = SwitchingProtocols"
| "status_clone OK = OK"
| "status_clone Created = Created"
| "status_clone Accepted = Accepted"
| "status_clone NonAuthoritativeInformation = NonAuthoritativeInformation"
| "status_clone NoContent = NoContent"
| "status_clone ResetContent = ResetContent"
| "status_clone PartialContent = PartialContent"
| "status_clone MultipleChoices = MultipleChoices"
| "status_clone MovedPermanently = MovedPermanently"
| "status_clone Found = Found"
| "status_clone SeeOther = SeeOther"
| "status_clone NotModified = NotModified"
| "status_clone UseProxy = UseProxy"
| "status_clone TemporaryRedirect = TemporaryRedirect"
| "status_clone BadRequest = BadRequest"
| "status_clone Unauthorized = Unauthorized"
| "status_clone PaymentRequired = PaymentRequired"
| "status_clone Forbidden = Forbidden"
| "status_clone NotFoundStatus = NotFoundStatus"
| "status_clone MethodNotAllowed = MethodNotAllowed"
| "status_clone NotAcceptable = NotAcceptable"
| "status_clone ProxyAuthenticationRequired = ProxyAuthenticationRequired"
| "status_clone RequestTimeOut = RequestTimeOut"
| "status_clone Conflict = Conflict"
| "status_clone Gone = Gone"
| "status_clone LengthRequired = LengthRequired"
| "status_clone PreconditionFailed = PreconditionFailed"
| "status_clone RequestEntityTooLarge = RequestEntityTooLarge"
| "status_clone RequestURITooLarge = RequestURITooLarge"
| "status_clone UnsupportedMediaType = UnsupportedMediaType"
| "status_clone RequestedRangeNotSatisfiable = RequestedRangeNotSatisfiable"
| "status_clone ExpectationFailed = ExpectationFailed"
| "status_clone InternalServerError = InternalServerError"
| "status_clone NotImplemented = NotImplemented"
| "status_clone BadGateway = BadGateway"
| "status_clone ServiceUnavailable = ServiceUnavailable"
| "status_clone GatewayTimeOut = GatewayTimeOut"
| "status_clone HTTPVersionNotSupported = HTTPVersionNotSupported"
| "status_clone (ExtensionCode n) = ExtensionCode n"

lemma status_clone_id [simp]: "status_clone s = s"
  by (cases s) simp_all

section \<open>Methods\<close>

datatype http_method = GET | HEAD | POST | PUT | DELETE | CONNECT | OPTIONS | TRACE | PATCH

text \<open>\<^verbatim>\<open>method as usize\<close>: the discriminants of the enum, from \<^verbatim>\<open>GET = 0\<close>.\<close>

primrec method_index :: "http_method \<Rightarrow> nat" where
  "method_index GET = 0"
| "method_index HEAD = 1"
| "method_index POST = 2"
| "method_index PUT = 3"
| "method_index DELETE = 4"
| "method_index CONNECT = 5"
| "method_index OPTIONS = 6"
| "method_index TRACE = 7"
| "method_index PATCH = 8"

definition get_last :: http_method where
  "get_last = PATCH"

definition method_from_str :: "string \<Rightarrow> (http_method, string) res" where
  "method_from_str s =
     (if s = ''GET'' then Ok GET
      else if s = ''HEAD'' then Ok HEAD
      else if s = ''POST'' then Ok POST
      else if s = ''PUT'' then Ok PUT
      else if s = ''DELETE'' then Ok DELETE
      else if s = ''CONNECT'' then Ok CONNECT
      else if s = ''OPTIONS'' then Ok OPTIONS
      else if s = ''TRACE'' then Ok TRACE
      else if s = ''PATCH'' then Ok PATCH
      else Err ''invalid http method'')"

primrec method_to_string :: "http_method \<Rightarrow> string" where
  "method_to_string CONNECT = ''CONNECT''"
| "method_to_string DELETE = ''DELETE''"
| "method_to_string GET = ''GET''"
| "method_to_string HEAD = ''HEAD''"
| "method_to_string OPTIONS = ''OPTIONS''"
| "method_to_string PATCH = ''PATCH''"
| "method_to_string POST = ''POST''"
| "method_to_string PUT = ''PUT''"
| "method_to_string TRACE = ''TRACE''"

text \<open>\<^verbatim>\<open>impl PartialEq for HttpMethod\<close> compares the texts.\<close>

definition method_eq :: "http_method \<Rightarrow> http_method \<Rightarrow> bool" where
  "method_eq a b \<longleftrightarrow> method_to_string a = method_to_string b"

lemma method_roundtrip [simp]: "method_from_str (method_to_string m) = Ok m"
  by (cases m) (simp_all add: method_from_str_def)

lemma method_from_str_OkD: "method_from_str s = Ok m \<Longrightarrow> method_to_string m = s"
  by (auto simp: method_from_str_def split: if_splits)

lemma status_from_usize_inverse: "usize_from_status (status_from_usize c) = c"
  by (simp add: status_from_usize_def)

lemma method_index_bound [simp]: "method_index m < Suc (method_index get_last)"
  by (cases m) (simp_all add: get_last_def)

lemma method_index_inj [simp]: "method_index a = method_index b \<longleftrightarrow> a = b"
  by (cases a; cases b) simp_all

text \<open>The methods in the order of their discriminants; \<^verbatim>\<open>get_last\<close> is the last one.\<close>

instantiation http_method :: linorder
begin

definition less_eq_http_method :: "http_method \<Rightarrow> http_method \<Rightarrow> bool" where
  "less_eq_http_method a b \<longleftrightarrow> method_index a \<le> method_index b"

definition less_http_method :: "http_method \<Rightarrow> http_method \<Rightarrow> bool" where
  "less_http_method a b \<longleftrightarrow> method_index a < method_index b"

instance
  by standard (auto simp: less_eq_http_method_def less_http_method_def)

end

lemma method_le_get_last: "m \<le> get_last"
  using method_index_bound [of m] by (simp add: less_eq_http_method_def del: method_index_bound)

section \<open>Character classes\<close>

text \<open>
  \<^verbatim>\<open>impl MessageChar for char\<close>, on the characters \<^verbatim>\<open>line[i] as char\<close> of a header
  line, which have the number of their byte.
\<close>

definition token_symbols :: "byte list" where
  "token_symbols = ''!#$%&'' @ [CHR 0x27] @ ''*+-.^_'' @ [CHR 0x60] @ ''|~''"

definition is_valid_token_char :: "byte \<Rightarrow> bool" where
  "is_valid_token_char c \<longleftrightarrow>
     (if \<not> is_ascii c then False
      else if is_ascii_alphanumeric c then True
      else if c \<in> set token_symbols then True
      else False)"

definition is_valid_vchar :: "byte \<Rightarrow> bool" where
  "is_valid_vchar c \<longleftrightarrow>
     (if between 0x21 c 0x7E then True else if 0x80 \<le> code c then True else False)"

definition is_optional_white_space :: "byte \<Rightarrow> bool" where
  "is_optional_white_space c \<longleftrightarrow> c = SP \<or> c = HTAB"

definition is_valid_field_content :: "byte \<Rightarrow> bool" where
  "is_valid_field_content c \<longleftrightarrow> is_valid_vchar c \<or> is_optional_white_space c"

lemma token_char_ascii: "is_valid_token_char c \<Longrightarrow> is_ascii c"
  by (simp add: is_valid_token_char_def split: if_splits)

lemma token_char_simps [simp]:
  "\<not> is_valid_token_char CR" "\<not> is_valid_token_char LF" "\<not> is_valid_token_char SP"
  "\<not> is_valid_token_char HTAB" "\<not> is_valid_token_char (CHR '':'')"
  by (simp_all add: is_valid_token_char_def is_ascii_def is_ascii_alphanumeric_def
      is_upper_byte_def is_lower_byte_def is_digit_byte_def between_def token_symbols_def code_def)

lemma field_content_simps [simp]:
  "\<not> is_valid_field_content CR" "\<not> is_valid_field_content LF" "is_valid_field_content SP"
  by (simp_all add: is_valid_field_content_def is_valid_vchar_def is_optional_white_space_def
      between_def code_def)

section \<open>Properties\<close>

text \<open>
  A status survives the conversion from and to its number, and the hand-written clone is the
  identity: every number is kept, and a status is kept unless it is the extension variant of
  a number that has a name.
\<close>

theorem status_roundtrip:
  "usize_from_status (status_from_usize c) = c
   \<and> status_from_usize (usize_from_status s) =
       (case s of ExtensionCode n \<Rightarrow> status_from_usize n | _ \<Rightarrow> s)
   \<and> status_clone s = s"
  by (cases s) (simp_all add: status_from_usize_inverse status_from_usize_def)

text \<open>
  A method is parsed from exactly its own text, a version from exactly its own text, and the
  hand-written comparison of methods is equality.
\<close>

theorem tokens_roundtrip:
  "(method_from_str s = Ok m \<longleftrightarrow> s = method_to_string m)
   \<and> (version_from_str s = Ok v \<longleftrightarrow> s = version_to_string v)
   \<and> (method_eq a b \<longleftrightarrow> a = b)"
proof (intro conjI)
  show "method_from_str s = Ok m \<longleftrightarrow> s = method_to_string m"
    using method_from_str_OkD [of s m] by auto
  show "version_from_str s = Ok v \<longleftrightarrow> s = version_to_string v"
    by (cases v) (auto simp: version_from_str_def)
  show "method_eq a b \<longleftrightarrow> a = b"
    by (metis method_eq_def method_roundtrip res.inject(1))
qed

end
