(* ===== verification/Std_Io.thy ===== *)
theory Std_Io
  imports Wruster_Prelude
begin

text \<open>
  The part of \<^verbatim>\<open>std::io\<close> that the sources use: readers and writers as programs over
  their state, \<^verbatim>\<open>BufReader\<close> and \<^verbatim>\<open>read_until\<close>, \<^verbatim>\<open>Take\<close>, \<^verbatim>\<open>Cursor\<close>,
  \<^verbatim>\<open>Vec<u8>\<close> as a writer, \<^verbatim>\<open>write_all\<close>, \<^verbatim>\<open>io::copy\<close> and the copy
  through a \<^verbatim>\<open>BufWriter\<close>; then the interfaces of a byte source and of a byte sink, and
  what the loops do on every provider of them.

  A generic \<^verbatim>\<open>T: io::Read\<close> is a state type \<open>'s\<close> with a read function that a definition
  takes as its argument. The loops of the library need not end (a reader may be interrupted for
  ever), so they are partial functions: not returning is \<open>None\<close>.
\<close>

section \<open>Readers\<close>

text \<open>One \<^verbatim>\<open>read\<close> into a buffer of \<open>n\<close> bytes: the bytes read, none at the end.\<close>

type_synonym 's reader = "nat \<Rightarrow> ('s, byte list, io_error) prog"

text \<open>\<^verbatim>\<open>Cursor<Vec<u8>>\<close>: the bytes still to be read.\<close>

definition cursor_read :: "byte list reader" where
  "cursor_read n s = Some (Ok (take n s), drop n s)"

record 's bufreader =
  br_buf :: "byte list"
  br_src :: 's

definition bufreader_new :: "'s \<Rightarrow> 's bufreader" where
  "bufreader_new s = \<lparr>br_buf = [], br_src = s\<rparr>"

definition buf_capacity :: nat where
  "buf_capacity = 8192"

definition fill_buf :: "'s reader \<Rightarrow> ('s bufreader, byte list, io_error) prog" where
  "fill_buf rd b =
     (if br_buf b \<noteq> [] then Some (Ok (br_buf b), b)
      else (case rd buf_capacity (br_src b) of
              None \<Rightarrow> None
            | Some (r, s') \<Rightarrow>
                (case r of
                   Ok bs \<Rightarrow> Some (Ok bs, \<lparr>br_buf = bs, br_src = s'\<rparr>)
                 | Err e \<Rightarrow> Some (Err e, \<lparr>br_buf = [], br_src = s'\<rparr>)
                 | Panic \<Rightarrow> Some (Panic, \<lparr>br_buf = [], br_src = s'\<rparr>))))"

definition consume :: "nat \<Rightarrow> 's bufreader \<Rightarrow> 's bufreader" where
  "consume n b = b\<lparr>br_buf := drop n (br_buf b)\<rparr>"

text \<open>A read of at least the capacity bypasses an empty buffer.\<close>

definition bufreader_read :: "'s reader \<Rightarrow> 's bufreader reader" where
  "bufreader_read rd n b =
     (if br_buf b = [] \<and> buf_capacity \<le> n then
        (case rd n (br_src b) of None \<Rightarrow> None | Some (r, s') \<Rightarrow> Some (r, b\<lparr>br_src := s'\<rparr>))
      else and_then (fill_buf rd) (\<lambda>bs b'. Some (Ok (take n bs), consume n b')) b)"

fun index_of :: "byte \<Rightarrow> byte list \<Rightarrow> nat option" where
  "index_of d [] = None"
| "index_of d (c # cs) = (if c = d then Some 0 else map_option Suc (index_of d cs))"

text \<open>\<^verbatim>\<open>BufRead::read_until\<close>; an interrupted read is tried again.\<close>

partial_function (option) read_until ::
  "'s reader \<Rightarrow> byte \<Rightarrow> byte list \<Rightarrow> 's bufreader \<Rightarrow> ((byte list, io_error) res \<times> 's bufreader) option" where
  "read_until rd d acc b =
     (case fill_buf rd b of
        None \<Rightarrow> None
      | Some (r, b') \<Rightarrow>
          (case r of
             Ok available \<Rightarrow>
               (case index_of d available of
                  Some i \<Rightarrow> Some (Ok (acc @ take (Suc i) available), consume (Suc i) b')
                | None \<Rightarrow>
                    if available = [] then Some (Ok acc, b')
                    else read_until rd d (acc @ available) (consume (length available) b'))
           | Err e \<Rightarrow>
               if io_kind e = Interrupted then read_until rd d acc b' else Some (Err e, b')
           | Panic \<Rightarrow> Some (Panic, b')))"

text \<open>\<^verbatim>\<open>Take\<close>: at most the limit is read from the inner reader.\<close>

record 's take_reader =
  tk_inner :: 's
  tk_limit :: nat

definition take_read :: "'s reader \<Rightarrow> 's take_reader reader" where
  "take_read rd n t =
     (if tk_limit t = 0 then Some (Ok [], t)
      else (case rd (min n (tk_limit t)) (tk_inner t) of
              None \<Rightarrow> None
            | Some (r, s') \<Rightarrow>
                (case r of
                   Ok bs \<Rightarrow> Some (Ok bs, \<lparr>tk_inner = s', tk_limit = tk_limit t - length bs\<rparr>)
                 | Err e \<Rightarrow> Some (Err e, t\<lparr>tk_inner := s'\<rparr>)
                 | Panic \<Rightarrow> Some (Panic, t\<lparr>tk_inner := s'\<rparr>))))"

section \<open>Writers\<close>

text \<open>One \<^verbatim>\<open>write\<close>: the number of bytes taken from the front of the buffer.\<close>

type_synonym 's writer = "byte list \<Rightarrow> ('s, nat, io_error) prog"

definition vec_write :: "byte list writer" where
  "vec_write bs s = Some (Ok (length bs), s @ bs)"

definition sink_write :: "unit writer" where
  "sink_write bs u = Some (Ok (length bs), u)"

definition write_zero_error :: io_error where
  "write_zero_error = IoError WriteZero ''failed to write whole buffer''"

partial_function (option) write_all ::
  "'s writer \<Rightarrow> byte list \<Rightarrow> 's \<Rightarrow> ((unit, io_error) res \<times> 's) option" where
  "write_all wr bs s =
     (if bs = [] then Some (Ok (), s)
      else (case wr bs s of
              None \<Rightarrow> None
            | Some (r, s') \<Rightarrow>
                (case r of
                   Ok n \<Rightarrow> if n = 0 then Some (Err write_zero_error, s') else write_all wr (drop n bs) s'
                 | Err e \<Rightarrow> if io_kind e = Interrupted then write_all wr bs s' else Some (Err e, s')
                 | Panic \<Rightarrow> Some (Panic, s'))))"

text \<open>\<^verbatim>\<open>io::copy\<close> through a buffer of 8 KiB; the result is the number of bytes copied.\<close>

partial_function (option) copy_loop ::
  "'r reader \<Rightarrow> 'w writer \<Rightarrow> nat \<Rightarrow> 'r \<times> 'w \<Rightarrow> ((nat, io_error) res \<times> ('r \<times> 'w)) option" where
  "copy_loop rd wr n st =
     (case rd buf_capacity (fst st) of
        None \<Rightarrow> None
      | Some (r, s') \<Rightarrow>
          (case r of
             Ok bs \<Rightarrow>
               if bs = [] then Some (Ok n, (s', snd st))
               else (case write_all wr bs (snd st) of
                       None \<Rightarrow> None
                     | Some (q, w') \<Rightarrow>
                         (case q of
                            Ok u \<Rightarrow> copy_loop rd wr (n + length bs) (s', w')
                          | Err e \<Rightarrow> Some (Err e, (s', w'))
                          | Panic \<Rightarrow> Some (Panic, (s', w'))))
           | Err e \<Rightarrow>
               if io_kind e = Interrupted then copy_loop rd wr n (s', snd st)
               else Some (Err e, (s', snd st))
           | Panic \<Rightarrow> Some (Panic, (s', snd st))))"

definition io_copy :: "'r reader \<Rightarrow> 'w writer \<Rightarrow> ('r \<times> 'w, nat, io_error) prog" where
  "io_copy rd wr = copy_loop rd wr 0"

text \<open>
  \<^verbatim>\<open>BufWriter::flush_buf\<close>: write the buffer; the bytes not written stay in it.
\<close>

definition write_buffered_error :: io_error where
  "write_buffered_error = IoError WriteZero ''failed to write the buffered data''"

partial_function (option) flush_buf ::
  "'w writer \<Rightarrow> byte list \<Rightarrow> 'w \<Rightarrow> ((unit, io_error) res \<times> byte list \<times> 'w) option" where
  "flush_buf wr buf w =
     (if buf = [] then Some (Ok (), [], w)
      else (case wr buf w of
              None \<Rightarrow> None
            | Some (r, w') \<Rightarrow>
                (case r of
                   Ok n \<Rightarrow> if n = 0 then Some (Err write_buffered_error, buf, w')
                           else flush_buf wr (drop n buf) w'
                 | Err e \<Rightarrow> if io_kind e = Interrupted then flush_buf wr buf w' else Some (Err e, buf, w')
                 | Panic \<Rightarrow> Some (Panic, buf, w'))))"

text \<open>
  \<^verbatim>\<open>io::copy\<close> into a \<^verbatim>\<open>BufWriter\<close> reads straight into its buffer while 8 KiB are
  free and flushes it otherwise; the bytes still buffered at the end are returned.
\<close>

partial_function (option) copy_buffered ::
  "'r reader \<Rightarrow> 'w writer \<Rightarrow> nat \<Rightarrow> nat \<Rightarrow> byte list \<Rightarrow> 'r \<Rightarrow> 'w
    \<Rightarrow> ((nat, io_error) res \<times> byte list \<times> 'r \<times> 'w) option" where
  "copy_buffered rd wr cap n buf r w =
     (if buf_capacity \<le> cap - length buf then
        (case rd (cap - length buf) r of
           None \<Rightarrow> None
         | Some (a, r') \<Rightarrow>
             (case a of
                Ok bs \<Rightarrow>
                  if bs = [] then Some (Ok n, buf, r', w)
                  else copy_buffered rd wr cap (n + length bs) (buf @ bs) r' w
              | Err e \<Rightarrow>
                  if io_kind e = Interrupted then copy_buffered rd wr cap n buf r' w
                  else Some (Err e, buf, r', w)
              | Panic \<Rightarrow> Some (Panic, buf, r', w)))
      else (case flush_buf wr buf w of
              None \<Rightarrow> None
            | Some (q, buf', w') \<Rightarrow>
                (case q of
                   Ok u \<Rightarrow> copy_buffered rd wr cap n buf' r w'
                 | Err e \<Rightarrow> Some (Err e, buf', r, w')
                 | Panic \<Rightarrow> Some (Panic, buf', r, w'))))"

text \<open>
  The copy through a new \<^verbatim>\<open>BufWriter::with_capacity\<close> that is dropped afterwards: the
  drop flushes what is left and ignores the result.
\<close>

definition copy_through_bufwriter ::
  "'r reader \<Rightarrow> 'w writer \<Rightarrow> nat \<Rightarrow> ('r \<times> 'w, nat, io_error) prog" where
  "copy_through_bufwriter rd wr cap st =
     (case copy_buffered rd wr cap 0 [] (fst st) (snd st) of
        None \<Rightarrow> None
      | Some (a, buf, r, w) \<Rightarrow>
          (if a = Panic then Some (a, (r, w))
           else (case flush_buf wr buf w of
                   None \<Rightarrow> None
                 | Some (_, _, w') \<Rightarrow> Some (a, (r, w')))))"

section \<open>Searching a list\<close>

lemma index_of_None: "index_of d xs = None \<longleftrightarrow> d \<notin> set xs"
  by (induction xs) auto

lemma index_of_notin [simp]: "d \<notin> set xs \<Longrightarrow> index_of d xs = None"
  by (simp add: index_of_None)

lemma index_of_SomeD:
  "index_of d xs = Some i \<Longrightarrow> xs = take i xs @ d # drop (Suc i) xs \<and> d \<notin> set (take i xs) \<and> i < length xs"
  by (induction xs arbitrary: i) (auto split: if_splits)

lemma first_split_unique:
  "u @ d # v = p @ d # q \<Longrightarrow> d \<notin> set u \<Longrightarrow> d \<notin> set p \<Longrightarrow> u = p \<and> v = q"
proof (induction u arbitrary: p)
  case Nil
  then show ?case by (cases p) auto
next
  case (Cons c u)
  then show ?case by (cases p) auto
qed

lemma no_sep_prefix:
  "u @ v = p @ d # q \<Longrightarrow> d \<notin> set u \<Longrightarrow> \<exists>p'. p = u @ p' \<and> v = p' @ d # q"
proof (induction u arbitrary: p)
  case (Cons c u)
  then show ?case by (cases p) auto
qed simp

text \<open>The bytes a buffered reader has still to deliver.\<close>

definition br_content :: "('s \<Rightarrow> byte list) \<Rightarrow> 's bufreader \<Rightarrow> byte list" where
  "br_content content b = br_buf b @ content (br_src b)"

lemma br_content_new [simp]: "br_content content (bufreader_new s) = content s"
  by (simp add: br_content_def bufreader_new_def)

lemma br_src_new [simp]: "br_src (bufreader_new s) = s"
  by (simp add: bufreader_new_def)

lemma br_src_consume [simp]: "br_src (consume n b) = br_src b"
  by (simp add: consume_def)

lemma br_content_consume [simp]:
  "n \<le> length (br_buf b) \<Longrightarrow> br_content content (consume n b) = drop n (br_content content b)"
  by (simp add: consume_def br_content_def)

section \<open>Byte sources\<close>

text \<open>
  A byte source has a content still to be delivered: a read into a non-empty buffer delivers a
  non-empty piece from its front, or is interrupted, finitely often in a row.
\<close>

locale byte_source =
  fixes rd :: "'s reader" and content :: "'s \<Rightarrow> byte list" and ok :: "'s \<Rightarrow> bool"
    and retries :: "'s \<Rightarrow> nat"
  assumes read_data: "ok s \<Longrightarrow> 0 < n \<Longrightarrow> content s \<noteq> [] \<Longrightarrow>
     (\<exists>bs s'. rd n s = Some (Ok bs, s') \<and> bs \<noteq> [] \<and> length bs \<le> n \<and> content s = bs @ content s' \<and> ok s')
     \<or> (\<exists>e s'. rd n s = Some (Err e, s') \<and> io_kind e = Interrupted \<and> content s' = content s
           \<and> retries s' < retries s \<and> ok s')"
begin

lemma fill_buf_data:
  assumes "ok (br_src b)" and "br_content content b \<noteq> []"
  shows "(\<exists>bs b'. fill_buf rd b = Some (Ok bs, b') \<and> bs \<noteq> [] \<and> br_buf b' = bs
            \<and> br_content content b' = br_content content b \<and> ok (br_src b'))
      \<or> (\<exists>e b'. fill_buf rd b = Some (Err e, b') \<and> io_kind e = Interrupted
            \<and> br_content content b' = br_content content b
            \<and> retries (br_src b') < retries (br_src b) \<and> ok (br_src b'))"
proof (cases "br_buf b = []")
  case False
  then show ?thesis using assms by (auto simp: fill_buf_def)
next
  case True
  then have "content (br_src b) \<noteq> []" using assms(2) by (simp add: br_content_def)
  from read_data [OF assms(1) _ this, of buf_capacity] True show ?thesis
    by (auto simp: fill_buf_def br_content_def buf_capacity_def)
qed

lemmas progress_induct =
  wf_induct_rule [OF wf_measures [of "[\<lambda>b. length (br_content content b), \<lambda>b. retries (br_src b)]"]]

text \<open>\<^verbatim>\<open>read_until\<close> delivers the bytes up to the first delimiter, however they arrive.\<close>

lemma read_until_found:
  assumes "ok (br_src b)" and "br_content content b = pre @ d # post" and "d \<notin> set pre"
  shows "\<exists>b'. read_until rd d acc b = Some (Ok (acc @ pre @ [d]), b')
    \<and> br_content content b' = post \<and> ok (br_src b')"
  using assms
proof (induction b arbitrary: pre acc rule: progress_induct)
  case (1 b)
  have ne: "br_content content b \<noteq> []" using "1.prems"(2) by simp
  consider (data) bs b' where "fill_buf rd b = Some (Ok bs, b')" "bs \<noteq> []" "br_buf b' = bs"
      "br_content content b' = br_content content b" "ok (br_src b')"
    | (intr) e b' where "fill_buf rd b = Some (Err e, b')" "io_kind e = Interrupted"
      "br_content content b' = br_content content b" "retries (br_src b') < retries (br_src b)"
      "ok (br_src b')"
    using fill_buf_data [OF "1.prems"(1) ne] by blast
  then show ?case
  proof cases
    case data
    have eq: "bs @ content (br_src b') = pre @ d # post"
      using data(3,4) "1.prems"(2) by (simp add: br_content_def)
    show ?thesis
    proof (cases "index_of d bs")
      case (Some i)
      from index_of_SomeD [OF Some] have i: "bs = take i bs @ d # drop (Suc i) bs"
        "d \<notin> set (take i bs)" "i < length bs" by auto
      have "take i bs @ d # (drop (Suc i) bs @ content (br_src b')) = pre @ d # post"
        using eq i(1) by (metis append_Cons append_assoc)
      from first_split_unique [OF this i(2) "1.prems"(3)]
      have pp: "pre = take i bs" "post = drop (Suc i) bs @ content (br_src b')" by auto
      have "take (Suc i) bs = take i bs @ [d]"
        using i by (metis take_Suc_conv_app_nth nth_append_length length_take min.absorb4)
      with Some data i(3) pp show ?thesis
        by (subst read_until.simps) (simp add: br_content_def consume_def)
    next
      case None
      then have "d \<notin> set bs" by (simp add: index_of_None)
      from no_sep_prefix [OF eq this] obtain pre' where
        pp: "pre = bs @ pre'" "content (br_src b') = pre' @ d # post" by auto
      let ?b = "consume (length bs) b'"
      have c: "br_content content ?b = pre' @ d # post"
        using data(3) pp(2) by (simp add: br_content_def consume_def)
      have "(?b, b) \<in> measures [\<lambda>b. length (br_content content b), \<lambda>b. retries (br_src b)]"
        using c "1.prems"(2) pp(1) data(2) by simp
      from "1.IH" [OF this _ c, of "acc @ bs"] show ?thesis
        using None data pp(1) "1.prems"(3)
        by (subst read_until.simps) simp
    qed
  next
    case intr
    have "(b', b) \<in> measures [\<lambda>b. length (br_content content b), \<lambda>b. retries (br_src b)]"
      using intr by simp
    from "1.IH" [OF this intr(5) _ "1.prems"(3), of acc] show ?thesis
      using intr "1.prems"(2) by (subst read_until.simps) simp
  qed
qed

end

text \<open>A source that also has an end: reading past it delivers nothing.\<close>

locale eof_source = byte_source rd content ok retries
  for rd :: "'s reader" and content and ok and retries +
  assumes read_eof: "ok s \<Longrightarrow> content s = [] \<Longrightarrow>
     (\<exists>s'. rd n s = Some (Ok [], s') \<and> content s' = [] \<and> ok s')"
begin

lemma fill_buf_eof:
  assumes "ok (br_src b)" and "br_content content b = []"
  shows "\<exists>b'. fill_buf rd b = Some (Ok [], b') \<and> br_content content b' = [] \<and> ok (br_src b')"
  using assms read_eof [of "br_src b" buf_capacity]
  by (auto simp: fill_buf_def br_content_def)

lemma read_until_eof:
  assumes "ok (br_src b)" and "d \<notin> set (br_content content b)"
  shows "\<exists>b'. read_until rd d acc b = Some (Ok (acc @ br_content content b), b')
    \<and> br_content content b' = [] \<and> ok (br_src b')"
  using assms
proof (induction b arbitrary: acc rule: progress_induct)
  case (1 b)
  show ?case
  proof (cases "br_content content b = []")
    case True
    from fill_buf_eof [OF "1.prems"(1) True] True show ?thesis
      by (subst read_until.simps) auto
  next
    case ne: False
    consider (data) bs b' where "fill_buf rd b = Some (Ok bs, b')" "bs \<noteq> []" "br_buf b' = bs"
        "br_content content b' = br_content content b" "ok (br_src b')"
      | (intr) e b' where "fill_buf rd b = Some (Err e, b')" "io_kind e = Interrupted"
        "br_content content b' = br_content content b" "retries (br_src b') < retries (br_src b)"
        "ok (br_src b')"
      using fill_buf_data [OF "1.prems"(1) ne] by blast
    then show ?thesis
    proof cases
      case data
      let ?b = "consume (length bs) b'"
      define rest where "rest = content (br_src b')"
      have c: "br_content content b = bs @ rest" and c': "br_content content ?b = rest"
        using data(3,4) by (simp_all add: br_content_def consume_def rest_def)
      have nd: "index_of d bs = None" "d \<notin> set rest" using c "1.prems"(2) by auto
      have "(?b, b) \<in> measures [\<lambda>b. length (br_content content b), \<lambda>b. retries (br_src b)]"
        using c c' data(2) by simp
      from "1.IH" [OF this, of "acc @ bs", unfolded c'] show ?thesis
        using data(1,2,5) nd unfolding c by (subst read_until.simps) simp
    next
      case intr
      have "(b', b) \<in> measures [\<lambda>b. length (br_content content b), \<lambda>b. retries (br_src b)]"
        using intr by simp
      from "1.IH" [OF this intr(5), of acc] show ?thesis
        using intr "1.prems"(2) by (subst read_until.simps) simp
    qed
  qed
qed

end

interpretation cursor: eof_source cursor_read "\<lambda>s. s" "\<lambda>_. True" "\<lambda>_. 0"
  by unfold_locales (auto simp: cursor_read_def)

section \<open>Sources over sources\<close>

context byte_source
begin

text \<open>A buffered reader and a limited reader over a byte source are byte sources again.\<close>

lemma buffered_source:
  "byte_source (bufreader_read rd) (br_content content) (\<lambda>b. ok (br_src b)) (\<lambda>b. retries (br_src b))"
proof
  fix b :: "'s bufreader" and n :: nat
  assume b: "ok (br_src b)" "0 < n" "br_content content b \<noteq> []"
  show "(\<exists>bs b'. bufreader_read rd n b = Some (Ok bs, b') \<and> bs \<noteq> [] \<and> length bs \<le> n
          \<and> br_content content b = bs @ br_content content b' \<and> ok (br_src b'))
     \<or> (\<exists>e b'. bufreader_read rd n b = Some (Err e, b') \<and> io_kind e = Interrupted
          \<and> br_content content b' = br_content content b
          \<and> retries (br_src b') < retries (br_src b) \<and> ok (br_src b'))"
  proof (cases "br_buf b = [] \<and> buf_capacity \<le> n")
    case True
    then have "content (br_src b) \<noteq> []" using b(3) by (simp add: br_content_def)
    from read_data [OF b(1,2) this] True show ?thesis
      by (auto simp: bufreader_read_def br_content_def)
  next
    case False
    then have read: "bufreader_read rd n b =
        and_then (fill_buf rd) (\<lambda>bs b'. Some (Ok (take n bs), consume n b')) b"
      by (auto simp: bufreader_read_def)
    from fill_buf_data [OF b(1,3)] show ?thesis
    proof (elim disjE exE conjE)
      fix bs b' assume h: "fill_buf rd b = Some (Ok bs, b')" "bs \<noteq> []" "br_buf b' = bs"
        "br_content content b' = br_content content b" "ok (br_src b')"
      have "br_content content b = take n bs @ br_content content (consume n b')"
        using h(3,4) by (simp add: br_content_def consume_def flip: append_assoc)
      then show ?thesis using h b(2) by (auto simp: read and_then_def)
    qed (auto simp: read and_then_def)
  qed
qed

lemma take_source:
  "eof_source (take_read rd) (\<lambda>t. take (tk_limit t) (content (tk_inner t)))
     (\<lambda>t. ok (tk_inner t) \<and> tk_limit t \<le> length (content (tk_inner t))
        \<and> drop (tk_limit t) (content (tk_inner t)) = rest) (\<lambda>t. retries (tk_inner t))"
proof
  fix t :: "'s take_reader" and n :: nat
  assume t: "ok (tk_inner t) \<and> tk_limit t \<le> length (content (tk_inner t))
      \<and> drop (tk_limit t) (content (tk_inner t)) = rest" "0 < n"
    "take (tk_limit t) (content (tk_inner t)) \<noteq> []"
  then have lim: "0 < tk_limit t" "0 < min n (tk_limit t)" and ne: "content (tk_inner t) \<noteq> []" by auto
  from read_data [OF conjunct1 [OF t(1)] lim(2) ne]
  show "(\<exists>bs t'. take_read rd n t = Some (Ok bs, t') \<and> bs \<noteq> [] \<and> length bs \<le> n
          \<and> take (tk_limit t) (content (tk_inner t)) = bs @ take (tk_limit t') (content (tk_inner t'))
          \<and> ok (tk_inner t') \<and> tk_limit t' \<le> length (content (tk_inner t'))
          \<and> drop (tk_limit t') (content (tk_inner t')) = rest)
     \<or> (\<exists>e t'. take_read rd n t = Some (Err e, t') \<and> io_kind e = Interrupted
          \<and> take (tk_limit t') (content (tk_inner t')) = take (tk_limit t) (content (tk_inner t))
          \<and> retries (tk_inner t') < retries (tk_inner t)
          \<and> ok (tk_inner t') \<and> tk_limit t' \<le> length (content (tk_inner t'))
          \<and> drop (tk_limit t') (content (tk_inner t')) = rest)"
    using lim t(1) by (elim disjE exE conjE) (auto simp: take_read_def)
next
  fix t :: "'s take_reader" and n :: nat
  assume "ok (tk_inner t) \<and> tk_limit t \<le> length (content (tk_inner t))
      \<and> drop (tk_limit t) (content (tk_inner t)) = rest"
    "take (tk_limit t) (content (tk_inner t)) = []"
  then show "\<exists>t'. take_read rd n t = Some (Ok [], t') \<and> take (tk_limit t') (content (tk_inner t')) = []
      \<and> ok (tk_inner t') \<and> tk_limit t' \<le> length (content (tk_inner t'))
      \<and> drop (tk_limit t') (content (tk_inner t')) = rest"
    by (auto simp: take_read_def)
qed

end

context eof_source
begin

text \<open>A limit that is no less than the content changes nothing.\<close>

lemma wide_take_source:
  "eof_source (take_read rd) (\<lambda>t. content (tk_inner t))
     (\<lambda>t. ok (tk_inner t) \<and> length (content (tk_inner t)) \<le> tk_limit t) (\<lambda>t. retries (tk_inner t))"
proof
  fix t :: "'s take_reader" and n :: nat
  assume t: "ok (tk_inner t) \<and> length (content (tk_inner t)) \<le> tk_limit t" "0 < n"
    "content (tk_inner t) \<noteq> []"
  then have lim: "0 < tk_limit t" "0 < min n (tk_limit t)" by (cases "tk_limit t"; simp)+
  from read_data [OF conjunct1 [OF t(1)] lim(2) t(3)]
  show "(\<exists>bs t'. take_read rd n t = Some (Ok bs, t') \<and> bs \<noteq> [] \<and> length bs \<le> n
          \<and> content (tk_inner t) = bs @ content (tk_inner t')
          \<and> ok (tk_inner t') \<and> length (content (tk_inner t')) \<le> tk_limit t')
     \<or> (\<exists>e t'. take_read rd n t = Some (Err e, t') \<and> io_kind e = Interrupted
          \<and> content (tk_inner t') = content (tk_inner t) \<and> retries (tk_inner t') < retries (tk_inner t)
          \<and> ok (tk_inner t') \<and> length (content (tk_inner t')) \<le> tk_limit t')"
    using lim t(1) by (elim disjE exE conjE) (auto simp: take_read_def)
next
  fix t :: "'s take_reader" and n :: nat
  assume t: "ok (tk_inner t) \<and> length (content (tk_inner t)) \<le> tk_limit t" "content (tk_inner t) = []"
  show "\<exists>t'. take_read rd n t = Some (Ok [], t') \<and> content (tk_inner t') = []
      \<and> ok (tk_inner t') \<and> length (content (tk_inner t')) \<le> tk_limit t'"
    using read_eof [of "tk_inner t" "min n (tk_limit t)"] t by (auto simp: take_read_def)
qed

lemma buffered_eof_source:
  "eof_source (bufreader_read rd) (br_content content) (\<lambda>b. ok (br_src b)) (\<lambda>b. retries (br_src b))"
proof (intro eof_source.intro buffered_source eof_source_axioms.intro)
  fix b :: "'s bufreader" and n :: nat
  assume b: "ok (br_src b)" "br_content content b = []"
  then have "content (br_src b) = []" "br_buf b = []" by (simp_all add: br_content_def)
  with b read_eof [OF b(1), of n] fill_buf_eof [OF b]
  show "\<exists>b'. bufreader_read rd n b = Some (Ok [], b') \<and> br_content content b' = [] \<and> ok (br_src b')"
    by (auto simp: bufreader_read_def br_content_def consume_def and_then_def)
qed

end

section \<open>Byte sinks\<close>

text \<open>
  A byte sink takes a non-empty piece from the front of what it is given, or is interrupted,
  finitely often in a row. \<open>appended w bs w'\<close> says what the sink has to show for the bytes
  \<open>bs\<close> it took: for a vector, that they are its new end; for \<^verbatim>\<open>io::sink()\<close>, nothing.
\<close>

locale byte_sink =
  fixes wr :: "'w writer" and appended :: "'w \<Rightarrow> byte list \<Rightarrow> 'w \<Rightarrow> bool"
    and wok :: "'w \<Rightarrow> bool" and wretries :: "'w \<Rightarrow> nat"
  assumes appended_Nil: "appended w [] w"
    and appended_trans: "appended w xs w1 \<Longrightarrow> appended w1 ys w2 \<Longrightarrow> appended w (xs @ ys) w2"
    and write_data: "wok w \<Longrightarrow> bs \<noteq> [] \<Longrightarrow>
     (\<exists>n w'. wr bs w = Some (Ok n, w') \<and> 0 < n \<and> n \<le> length bs
         \<and> appended w (take n bs) w' \<and> wok w')
     \<or> (\<exists>e w'. wr bs w = Some (Err e, w') \<and> io_kind e = Interrupted \<and> appended w [] w'
         \<and> wretries w' < wretries w \<and> wok w')"
begin

text \<open>\<^verbatim>\<open>write_all\<close> and \<^verbatim>\<open>flush_buf\<close> deliver every byte, in order.\<close>

lemma write_all_ok:
  assumes "wok w"
  shows "\<exists>w'. write_all wr bs w = Some (Ok (), w') \<and> appended w bs w' \<and> wok w'"
  using assms
proof (induction "(bs, w)" arbitrary: bs w rule:
    wf_induct_rule [OF wf_measures [of "[\<lambda>(bs, w). length bs, \<lambda>(bs, w). wretries w]"]])
  case (1 bs w)
  show ?case
  proof (cases "bs = []")
    case True
    then show ?thesis using "1.prems" by (subst write_all.simps) (simp add: appended_Nil)
  next
    case False
    from write_data [OF "1.prems" this] show ?thesis
    proof (elim disjE exE conjE)
      fix n w' assume h: "wr bs w = Some (Ok n, w')" "0 < n" "n \<le> length bs"
        "appended w (take n bs) w'" "wok w'"
      from "1.hyps" [OF _ h(5), of "drop n bs"] h(2,3) False obtain w2 where
        "write_all wr (drop n bs) w' = Some (Ok (), w2)" "appended w' (drop n bs) w2" "wok w2" by auto
      with h False appended_trans [OF h(4), of "drop n bs" w2] show ?thesis
        by (subst write_all.simps) simp
    next
      fix e w' assume h: "wr bs w = Some (Err e, w')" "io_kind e = Interrupted"
        "appended w [] w'" "wretries w' < wretries w" "wok w'"
      from "1.hyps" [OF _ h(5), of bs] h(4) obtain w2 where
        "write_all wr bs w' = Some (Ok (), w2)" "appended w' bs w2" "wok w2" by auto
      with h False appended_trans [OF h(3), of bs w2] show ?thesis
        by (subst write_all.simps) simp
    qed
  qed
qed

lemma flush_buf_ok:
  assumes "wok w"
  shows "\<exists>w'. flush_buf wr bs w = Some (Ok (), [], w') \<and> appended w bs w' \<and> wok w'"
  using assms
proof (induction "(bs, w)" arbitrary: bs w rule:
    wf_induct_rule [OF wf_measures [of "[\<lambda>(bs, w). length bs, \<lambda>(bs, w). wretries w]"]])
  case (1 bs w)
  show ?case
  proof (cases "bs = []")
    case True
    then show ?thesis using "1.prems" by (subst flush_buf.simps) (simp add: appended_Nil)
  next
    case False
    from write_data [OF "1.prems" this] show ?thesis
    proof (elim disjE exE conjE)
      fix n w' assume h: "wr bs w = Some (Ok n, w')" "0 < n" "n \<le> length bs"
        "appended w (take n bs) w'" "wok w'"
      from "1.hyps" [OF _ h(5), of "drop n bs"] h(2,3) False obtain w2 where
        "flush_buf wr (drop n bs) w' = Some (Ok (), [], w2)" "appended w' (drop n bs) w2" "wok w2" by auto
      with h False appended_trans [OF h(4), of "drop n bs" w2] show ?thesis
        by (subst flush_buf.simps) simp
    next
      fix e w' assume h: "wr bs w = Some (Err e, w')" "io_kind e = Interrupted"
        "appended w [] w'" "wretries w' < wretries w" "wok w'"
      from "1.hyps" [OF _ h(5), of bs] h(4) obtain w2 where
        "flush_buf wr bs w' = Some (Ok (), [], w2)" "appended w' bs w2" "wok w2" by auto
      with h False appended_trans [OF h(3), of bs w2] show ?thesis
        by (subst flush_buf.simps) simp
    qed
  qed
qed

end

text \<open>A sink that always takes everything, as the server's streams and a vector do.\<close>

locale full_sink = byte_sink wr appended wok wretries
  for wr :: "'w writer" and appended and wok and wretries +
  assumes write_full: "wok w \<Longrightarrow>
     \<exists>w'. wr bs w = Some (Ok (length bs), w') \<and> appended w bs w' \<and> wok w'"

interpretation vec: full_sink vec_write "\<lambda>s bs s'. s' = s @ bs" "\<lambda>_. True" "\<lambda>_. 0"
  by unfold_locales (auto simp: vec_write_def)

interpretation sink: full_sink sink_write "\<lambda>_ _ _. True" "\<lambda>_. True" "\<lambda>_. 0"
  by unfold_locales (auto simp: sink_write_def Suc_le_eq)

section \<open>Copying a source into a sink\<close>

locale copying = src: eof_source rd content ok retries + snk: byte_sink wr appended wok wretries
  for rd :: "'r reader" and content ok retries
    and wr :: "'w writer" and appended wok wretries
begin

lemma copy_loop_ok:
  assumes "ok r" and "wok w"
  shows "\<exists>r' w'. copy_loop rd wr n (r, w) = Some (Ok (n + length (content r)), (r', w'))
    \<and> content r' = [] \<and> ok r' \<and> appended w (content r) w' \<and> wok w'"
  using assms
proof (induction r arbitrary: n w rule:
    wf_induct_rule [OF wf_measures [of "[\<lambda>r. length (content r), \<lambda>r. retries r]"]])
  case (1 r)
  have cap: "0 < buf_capacity" by (simp add: buf_capacity_def)
  show ?case
  proof (cases "content r = []")
    case True
    from src.read_eof [OF "1.prems"(1) this, of buf_capacity] True "1.prems"(2) show ?thesis
      by (subst copy_loop.simps) (auto simp: snk.appended_Nil)
  next
    case False
    from src.read_data [OF "1.prems"(1) cap False] show ?thesis
    proof (elim disjE exE conjE)
      fix bs r' assume h: "rd buf_capacity r = Some (Ok bs, r')" "bs \<noteq> []"
        "content r = bs @ content r'" "ok r'"
      obtain w' where w': "write_all wr bs w = Some (Ok (), w')" "appended w bs w'" "wok w'"
        using snk.write_all_ok [OF "1.prems"(2)] by blast
      have "(r', r) \<in> measures [\<lambda>r. length (content r), \<lambda>r. retries r]" using h by simp
      from "1.IH" [OF this h(4) w'(3), of "n + length bs"] obtain r2 w2 where
        "copy_loop rd wr (n + length bs) (r', w')
           = Some (Ok (n + length bs + length (content r')), (r2, w2))"
        "content r2 = []" "ok r2" "appended w' (content r') w2" "wok w2" by auto
      with h w' snk.appended_trans [OF w'(2), of "content r'" w2] show ?thesis
        by (subst copy_loop.simps) (auto simp: add.assoc)
    next
      fix e r' assume h: "rd buf_capacity r = Some (Err e, r')" "io_kind e = Interrupted"
        "content r' = content r" "retries r' < retries r" "ok r'"
      then have "(r', r) \<in> measures [\<lambda>r. length (content r), \<lambda>r. retries r]" by simp
      from "1.IH" [OF this h(5) "1.prems"(2), of n] h show ?thesis
        by (subst copy_loop.simps) auto
    qed
  qed
qed

lemma io_copy_ok:
  assumes "ok r" and "wok w"
  shows "\<exists>r' w'. io_copy rd wr (r, w) = Some (Ok (length (content r)), (r', w'))
    \<and> content r' = [] \<and> ok r' \<and> appended w (content r) w' \<and> wok w'"
  using copy_loop_ok [OF assms, of 0] by (simp add: io_copy_def)

lemma copy_buffered_ok:
  assumes "buf_capacity \<le> cap" and "ok r" and "wok w"
  shows "\<exists>buf' r' w'. copy_buffered rd wr cap n buf r w = Some (Ok (n + length (content r)), buf', r', w')
    \<and> content r' = [] \<and> ok r' \<and> (\<exists>x. appended w x w' \<and> x @ buf' = buf @ content r) \<and> wok w'"
  using assms(2,3)
proof (induction "(r, buf)" arbitrary: r buf n w rule:
    wf_induct_rule [OF wf_measures [of "[\<lambda>(r, buf). length (content r), \<lambda>(r, buf). retries r,
      \<lambda>(r, buf). length buf]"]])
  case (1 r buf)
  let ?M = "measures [\<lambda>(r, buf). length (content r), \<lambda>(r, buf). retries r, \<lambda>(r, buf). length buf]"
  have cap0: "0 < buf_capacity" by (simp add: buf_capacity_def)
  show ?case
  proof (cases "buf_capacity \<le> cap - length buf")
    case False
    then have ne: "buf \<noteq> []" using assms(1) by auto
    obtain w' where w': "flush_buf wr buf w = Some (Ok (), [], w')" "appended w buf w'" "wok w'"
      using snk.flush_buf_ok [OF "1.prems"(2)] by blast
    have "((r, []), (r, buf)) \<in> ?M" using ne by simp
    from "1.hyps" [OF this "1.prems"(1) w'(3), of n] obtain buf2 r2 w2 x where
      "copy_buffered rd wr cap n [] r w' = Some (Ok (n + length (content r)), buf2, r2, w2)"
      "content r2 = []" "ok r2" "appended w' x w2" "x @ buf2 = content r" "wok w2" by auto
    with False w' snk.appended_trans [OF w'(2), of x w2] show ?thesis
      by (subst copy_buffered.simps) (auto intro!: exI [of _ "buf @ x"])
  next
    case True
    then have pos: "0 < cap - length buf" using cap0 by simp
    show ?thesis
    proof (cases "content r = []")
      case e: True
      from src.read_eof [OF "1.prems"(1) e, of "cap - length buf"] True e "1.prems"(2) show ?thesis
        by (subst copy_buffered.simps) (auto intro: snk.appended_Nil)
    next
      case ne: False
      from src.read_data [OF "1.prems"(1) pos ne] show ?thesis
      proof (elim disjE exE conjE)
        fix bs r' assume h: "rd (cap - length buf) r = Some (Ok bs, r')" "bs \<noteq> []"
          "content r = bs @ content r'" "ok r'"
        have "((r', buf @ bs), (r, buf)) \<in> ?M" using h by simp
        from "1.hyps" [OF this h(4) "1.prems"(2), of "n + length bs"] h True show ?thesis
          by (subst copy_buffered.simps) (auto simp: add.assoc)
      next
        fix e r' assume h: "rd (cap - length buf) r = Some (Err e, r')" "io_kind e = Interrupted"
          "content r' = content r" "retries r' < retries r" "ok r'"
        then have "((r', buf), (r, buf)) \<in> ?M" by simp
        from "1.hyps" [OF this h(5) "1.prems"(2), of n] h True show ?thesis
          by (subst copy_buffered.simps) auto
      qed
    qed
  qed
qed

lemma copy_through_bufwriter_ok:
  assumes "buf_capacity \<le> cap" and "ok r" and "wok w"
  shows "\<exists>r' w'. copy_through_bufwriter rd wr cap (r, w) = Some (Ok (length (content r)), (r', w'))
    \<and> content r' = [] \<and> ok r' \<and> appended w (content r) w' \<and> wok w'"
proof -
  obtain buf' r' w' where c: "copy_buffered rd wr cap 0 [] r w = Some (Ok (length (content r)), buf', r', w')"
    "content r' = []" "ok r'" "\<exists>x. appended w x w' \<and> x @ buf' = content r" "wok w'"
    using copy_buffered_ok [OF assms, of 0 "[]"] by auto
  then obtain x where x: "appended w x w'" "x @ buf' = content r" by blast
  obtain w'' where "flush_buf wr buf' w' = Some (Ok (), [], w'')" "appended w' buf' w''" "wok w''"
    using snk.flush_buf_ok [OF c(5)] by blast
  with c x snk.appended_trans [OF x(1), of buf' w''] show ?thesis
    by (auto simp: copy_through_bufwriter_def)
qed

end

text \<open>The copies of the sources: bytes in memory into a vector, and a drained limit.\<close>

interpretation cursor_to_vec: copying cursor_read "\<lambda>s. s" "\<lambda>_. True" "\<lambda>_. 0"
  vec_write "\<lambda>s bs s'. s' = s @ bs" "\<lambda>_. True" "\<lambda>_. 0"
  by unfold_locales

interpretation drained_cursor: copying "take_read cursor_read" "\<lambda>t. tk_inner t"
  "\<lambda>t. True \<and> length (tk_inner t) \<le> tk_limit t" "\<lambda>_. 0"
  sink_write "\<lambda>_ _ _. True" "\<lambda>_. True" "\<lambda>_. 0"
  by (intro copying.intro cursor.wide_take_source sink.byte_sink_axioms)

end
