(* ===== verification/Kv_Store.thy ===== *)
theory Kv_Store
  imports Wruster_Prelude
begin

text \<open>
  The interface of a key-value store: what \<^verbatim>\<open>get\<close> returns after an insert or a
  removal. \<^verbatim>\<open>std::collections::HashMap\<close> provides it (here, as an association list in
  the map's iteration order) and so does the router's trie; the headers, the connection pool,
  the list of observed streams and the router are its clients.
\<close>

locale kv_store =
  fixes get :: "'m \<Rightarrow> 'k \<Rightarrow> 'v option"
    and put :: "'k \<Rightarrow> 'v \<Rightarrow> 'm \<Rightarrow> 'm"
    and del :: "'k \<Rightarrow> 'm \<Rightarrow> 'm"
    and ok_key :: "'k \<Rightarrow> bool"
    and inv :: "'m \<Rightarrow> bool"
  assumes get_put: "inv m \<Longrightarrow> ok_key k \<Longrightarrow> get (put k v m) = (get m)(k \<mapsto> v)"
    and get_del: "inv m \<Longrightarrow> get (del k m) = (get m)(k := None)"
    and inv_put: "inv m \<Longrightarrow> ok_key k \<Longrightarrow> inv (put k v m)"
    and inv_del: "inv m \<Longrightarrow> inv (del k m)"
begin

text \<open>Moving a value out, changing it and putting it back changes that key only.\<close>

lemma get_update:
  assumes "inv m" and "ok_key k"
  shows "get (put k v (del k m)) = (get m)(k \<mapsto> v)"
  using assms by (simp add: get_put get_del inv_del)

lemma inv_update: "inv m \<Longrightarrow> ok_key k \<Longrightarrow> inv (put k v (del k m))"
  by (simp add: inv_put inv_del)

lemma put_put:
  assumes "inv m" and "ok_key k"
  shows "get (put k w (put k v m)) = get (put k w m)"
  using assms by (simp add: get_put inv_put)

lemma put_swap:
  assumes "inv m" and "ok_key k" and "ok_key l" and "k \<noteq> l"
  shows "get (put k v (put l w m)) = get (put l w (put k v m))"
  using assms by (simp add: get_put inv_put fun_upd_twist)

lemma dom_put: "inv m \<Longrightarrow> ok_key k \<Longrightarrow> dom (get (put k v m)) = insert k (dom (get m))"
  by (simp add: get_put)

lemma dom_del: "inv m \<Longrightarrow> dom (get (del k m)) = dom (get m) - {k}"
  by (simp add: get_del)

end

section \<open>\<^verbatim>\<open>HashMap\<close> as an association list\<close>

text \<open>
  A hash map is the list of its entries in the order in which iterating over it yields them.
  Where an operation iterates, the order is a parameter of the model (\<open>iteration_order\<close>).
\<close>

type_synonym ('k, 'v) hash_map = "('k \<times> 'v) list"

definition hm_get :: "('k, 'v) hash_map \<Rightarrow> 'k \<Rightarrow> 'v option" where
  "hm_get m k = map_of m k"

definition hm_insert :: "'k \<Rightarrow> 'v \<Rightarrow> ('k, 'v) hash_map \<Rightarrow> ('k, 'v) hash_map" where
  "hm_insert k v m = AList.update k v m"

definition hm_remove :: "'k \<Rightarrow> ('k, 'v) hash_map \<Rightarrow> ('k, 'v) hash_map" where
  "hm_remove k m = AList.delete k m"

definition hm_inv :: "('k, 'v) hash_map \<Rightarrow> bool" where
  "hm_inv m \<longleftrightarrow> distinct (map fst m)"

interpretation hm: kv_store hm_get hm_insert hm_remove "\<lambda>_. True" hm_inv
  by unfold_locales
    (auto simp: hm_get_def hm_insert_def hm_remove_def hm_inv_def fun_eq_iff update_conv'
      delete_conv' distinct_update distinct_delete)

lemma hm_inv_Nil [simp]: "hm_inv []"
  by (simp add: hm_inv_def)

lemma hm_get_Nil [simp]: "hm_get [] = Map.empty"
  by (simp add: hm_get_def fun_eq_iff)

lemma hm_get_simps: "hm_get ((k, v) # m) k' = (if k = k' then Some v else hm_get m k')"
  by (auto simp: hm_get_def)

lemma hm_insert_get [simp]: "hm_get (hm_insert k v m) = (hm_get m)(k \<mapsto> v)"
  by (simp add: hm_get_def hm_insert_def fun_eq_iff update_conv')

lemma hm_remove_get [simp]: "hm_get (hm_remove k m) = (hm_get m)(k := None)"
  by (simp add: hm_get_def hm_remove_def fun_eq_iff delete_conv')

lemma hm_inv_insert [simp]: "hm_inv m \<Longrightarrow> hm_inv (hm_insert k v m)"
  by (rule hm.inv_put) simp_all

lemma hm_inv_remove [simp]: "hm_inv m \<Longrightarrow> hm_inv (hm_remove k m)"
  by (rule hm.inv_del)

lemma hm_get_mem: "hm_inv m \<Longrightarrow> (k, v) \<in> set m \<longleftrightarrow> hm_get m k = Some v"
  by (simp add: hm_get_def hm_inv_def)

lemma hm_length_dom: "hm_inv m \<Longrightarrow> length m = card (dom (hm_get m))"
  unfolding hm_get_def [abs_def] hm_inv_def
  by (metis distinct_card dom_map_of_conv_image_fst length_map list.set_map)

text \<open>An iteration order permutes the entries.\<close>

definition iteration_order :: "(('k, 'v) hash_map \<Rightarrow> ('k, 'v) hash_map) \<Rightarrow> bool" where
  "iteration_order it \<longleftrightarrow> (\<forall>m. mset (it m) = mset m)"

lemma iteration_order_set [simp]: "iteration_order it \<Longrightarrow> set (it m) = set m"
  by (metis iteration_order_def mset_eq_setD)

lemma iteration_order_length [simp]: "iteration_order it \<Longrightarrow> length (it m) = length m"
  by (metis iteration_order_def mset_eq_length)

lemma iteration_order_inv:
  assumes "iteration_order it"
  shows "hm_inv (it m) \<longleftrightarrow> hm_inv m"
proof -
  have "mset (map fst (it m)) = mset (map fst m)"
    using assms by (simp add: iteration_order_def)
  then show ?thesis by (metis hm_inv_def mset_eq_imp_distinct_iff)
qed

lemma iteration_order_get:
  assumes "iteration_order it" and "hm_inv m"
  shows "hm_get (it m) = hm_get m"
proof
  fix k
  show "hm_get (it m) k = hm_get m k"
    using assms hm_get_mem [of m k] hm_get_mem [of "it m" k]
    by (metis iteration_order_inv iteration_order_set not_None_eq)
qed

lemma iteration_order_id [simp]: "iteration_order (\<lambda>m. m)"
  by (simp add: iteration_order_def)

lemma iteration_order_rev [simp]: "iteration_order rev"
  by (simp add: iteration_order_def)

end
