(* ===== verification/Headers.thy ===== *)
theory Headers
  imports Http_Types Std_Io Kv_Store
begin

text \<open>
  \<^verbatim>\<open>http/headers.rs\<close>: the header collection, the parser of one header line with every
  branch (its errors, and the panics of its assertion and of its unchecked index), the loops
  that read a line and a header section from a buffered reader, and the writers. What the
  loops do is stated for every byte source, so it does not depend on how the bytes arrive.
\<close>

section \<open>Header names\<close>

fun normalize_name_loop :: "bool \<Rightarrow> string \<Rightarrow> string" where
  "normalize_name_loop next_upper [] = []"
| "normalize_name_loop next_upper (c # cs) =
     (if is_ascii_alphanumeric c \<and> next_upper
      then to_ascii_uppercase c # normalize_name_loop False cs
      else c # normalize_name_loop (if c = SP \<or> c = CHR ''-'' then True else next_upper) cs)"

definition normalize_header_name :: "string \<Rightarrow> string" where
  "normalize_header_name n = normalize_name_loop True n"

section \<open>One header line\<close>

record header =
  hd_name :: string
  hd_value :: string

definition header_display :: "header \<Rightarrow> string" where
  "header_display h = hd_name h @ '':'' @ hd_value h"

text \<open>The loop over the value: \<open>None\<close> on the first byte that may not be in it.\<close>

fun field_value_loop :: "string \<Rightarrow> byte list \<Rightarrow> string option" where
  "field_value_loop field_value [] = Some field_value"
| "field_value_loop field_value (c # cs) =
     (if \<not> is_valid_field_content c then None else field_value_loop (push field_value c) cs)"

definition name_line_error :: http_error where
  "name_line_error = InvalidRequest ''invalid header name line''"

definition name_value_error :: http_error where
  "name_value_error = InvalidRequest ''invalid header name value''"

definition parse_header_line :: "byte list \<Rightarrow> (header option, http_error) res" where
  "parse_header_line full_line =
     (if length full_line < 2 then Panic
      else if length full_line = 2 then Ok None
      else
        let line = take (length full_line - 2) full_line;
            name = takeWhile is_valid_token_char line;
            i = length name
        in
          if name = [] then Err name_line_error
          else if length line \<le> i then Panic
          else if line ! i \<noteq> CHR '':'' then Err name_line_error
          else
            let header_value_start = i + 1;
                header_value_length = length line - header_value_start
            in
              if header_value_length < 1 then Err name_value_error
              else
                (case field_value_loop [] (dropWhile is_optional_white_space (drop header_value_start line)) of
                   None \<Rightarrow> Err name_value_error
                 | Some field_value \<Rightarrow>
                     Ok (Some \<lparr>hd_name = normalize_header_name name, hd_value = field_value\<rparr>)))"

text \<open>
  The loop of \<^verbatim>\<open>Header::read_from\<close>: chunks up to a line feed are appended until the
  line ends with a carriage return and a line feed.
\<close>

partial_function (option) read_line_loop ::
  "'s reader \<Rightarrow> byte list \<Rightarrow> 's bufreader \<Rightarrow> ((byte list, http_error) res \<times> 's bufreader) option" where
  "read_line_loop rd line b =
     (case read_until rd LF [] b of
        None \<Rightarrow> None
      | Some (r, b') \<Rightarrow>
          (case r of
             Ok header_chunk \<Rightarrow>
               let line' = line @ header_chunk; len = length line' in
               (if len < 2 then read_line_loop rd line' b'
                else if line' ! (len - 1) = LF \<and> line' ! (len - 2) = CR then Some (Ok line', b')
                else read_line_loop rd line' b')
           | Err e \<Rightarrow> Some (Err (http_error_from_io e), b')
           | Panic \<Rightarrow> Some (Panic, b')))"

definition header_read_from :: "'s reader \<Rightarrow> ('s bufreader, header option, http_error) prog" where
  "header_read_from rd = and_then (read_line_loop rd []) (\<lambda>line. of_res (parse_header_line line))"

definition unknown_io :: "io_error \<Rightarrow> http_error" where
  "unknown_io err = Unknown (io_msg err)"

definition header_write :: "'w writer \<Rightarrow> header \<Rightarrow> ('w, unit, http_error) prog" where
  "header_write wr h =
     and_then (map_err unknown_io (write_all wr (hd_name h))) (\<lambda>_.
     and_then (map_err unknown_io (write_all wr '': '')) (\<lambda>_.
     and_then (map_err unknown_io (write_all wr (hd_value h))) (\<lambda>_.
       map_err unknown_io (write_all wr crlf))))"

section \<open>The header collection\<close>

record headers =
  header_map :: "(string, string list) hash_map"

definition headers_new :: headers where
  "headers_new = \<lparr>header_map = []\<rparr>"

definition headers_add :: "header \<Rightarrow> headers \<Rightarrow> headers" where
  "headers_add h hs =
     (let values = (case hm_get (header_map hs) (hd_name h) of None \<Rightarrow> [] | Some vs \<Rightarrow> vs)
      in hs\<lparr>header_map := hm_insert (hd_name h) (values @ [hd_value h]) (header_map hs)\<rparr>)"

definition headers_get :: "headers \<Rightarrow> string \<Rightarrow> string list option" where
  "headers_get hs n = hm_get (header_map hs) n"

partial_function (option) headers_read_loop ::
  "'s reader \<Rightarrow> headers \<Rightarrow> 's bufreader \<Rightarrow> ((headers, http_error) res \<times> 's bufreader) option" where
  "headers_read_loop rd hs b =
     (case header_read_from rd b of
        None \<Rightarrow> None
      | Some (r, b') \<Rightarrow>
          (case r of
             Ok h \<Rightarrow>
               (case h of
                  None \<Rightarrow> Some (Ok hs, b')
                | Some hdr \<Rightarrow> headers_read_loop rd (headers_add hdr hs) b')
           | Err e \<Rightarrow> Some (Err e, b')
           | Panic \<Rightarrow> Some (Panic, b')))"

definition headers_read_from :: "'s reader \<Rightarrow> ('s bufreader, headers, http_error) prog" where
  "headers_read_from rd = headers_read_loop rd headers_new"

fun write_values :: "'w writer \<Rightarrow> string \<Rightarrow> string list \<Rightarrow> ('w, unit, http_error) prog" where
  "write_values wr n [] = ret ()"
| "write_values wr n (v # vs) =
     and_then (header_write wr \<lparr>hd_name = n, hd_value = v\<rparr>) (\<lambda>_. write_values wr n vs)"

fun write_entries :: "'w writer \<Rightarrow> (string \<times> string list) list \<Rightarrow> ('w, unit, http_error) prog" where
  "write_entries wr [] = ret ()"
| "write_entries wr ((n, vs) # es) = and_then (write_values wr n vs) (\<lambda>_. write_entries wr es)"

text \<open>\<open>it\<close> is the order in which the hash map is iterated over.\<close>

definition headers_iter :: "((string, string list) hash_map \<Rightarrow> (string, string list) hash_map) \<Rightarrow> headers
    \<Rightarrow> (string \<times> string list) list" where
  [simp]: "headers_iter it hs = it (header_map hs)"

definition headers_write ::
  "((string, string list) hash_map \<Rightarrow> (string, string list) hash_map) \<Rightarrow> 'w writer \<Rightarrow> headers
    \<Rightarrow> ('w, unit, http_error) prog" where
  "headers_write it wr hs =
     and_then (write_entries wr (headers_iter it hs)) (\<lambda>_. map_err unknown_io (write_all wr crlf))"

section \<open>Names\<close>

lemma to_ascii_uppercase_idem [simp]: "to_ascii_uppercase (to_ascii_uppercase c) = to_ascii_uppercase c"
  by (auto simp: to_ascii_uppercase_def is_lower_byte_def between_def)

lemma to_ascii_uppercase_token:
  "is_ascii_alphanumeric c \<Longrightarrow> is_ascii_alphanumeric (to_ascii_uppercase c)"
  by (auto simp: to_ascii_uppercase_def is_ascii_alphanumeric_def is_lower_byte_def is_upper_byte_def
      is_digit_byte_def between_def)

lemma alphanumeric_token: "is_ascii_alphanumeric c \<Longrightarrow> is_valid_token_char c"
  by (auto simp: is_valid_token_char_def is_ascii_alphanumeric_def is_ascii_def is_lower_byte_def
      is_upper_byte_def is_digit_byte_def between_def)

lemma alphanumeric_not_sep: "is_ascii_alphanumeric c \<Longrightarrow> c \<noteq> SP \<and> c \<noteq> CHR ''-''"
  by (auto simp: is_ascii_alphanumeric_def is_lower_byte_def is_upper_byte_def is_digit_byte_def
      between_def code_def)

lemma normalize_name_loop_length [simp]: "length (normalize_name_loop up n) = length n"
  by (induction up n rule: normalize_name_loop.induct) auto

lemma normalize_name_loop_token:
  "list_all is_valid_token_char n \<Longrightarrow> list_all is_valid_token_char (normalize_name_loop up n)"
  by (induction up n rule: normalize_name_loop.induct)
    (auto intro: alphanumeric_token to_ascii_uppercase_token)

lemma normalize_name_loop_idem [simp]:
  "normalize_name_loop up (normalize_name_loop up n) = normalize_name_loop up n"
  by (induction up n rule: normalize_name_loop.induct)
    (auto simp: to_ascii_uppercase_token alphanumeric_not_sep)

lemma to_lower_upper [simp]: "to_ascii_lowercase (to_ascii_uppercase c) = to_ascii_lowercase c"
  by (auto simp: to_ascii_uppercase_def to_ascii_lowercase_def is_lower_byte_def is_upper_byte_def
      between_def code_def)

lemma normalize_name_loop_lower:
  "map to_ascii_lowercase (normalize_name_loop up n) = map to_ascii_lowercase n"
  by (induction up n rule: normalize_name_loop.induct) auto

section \<open>Parsing one line\<close>

definition latin1_string :: "byte list \<Rightarrow> string" where
  "latin1_string v = concat (map utf8_of_latin1 v)"

lemma field_value_loop_eq:
  "field_value_loop acc v =
     (if list_all is_valid_field_content v then Some (acc @ latin1_string v) else None)"
  by (induction acc v rule: field_value_loop.induct) (auto simp: latin1_string_def push_def)

lemma latin1_ascii [simp]: "list_all is_ascii v \<Longrightarrow> latin1_string v = v"
  by (induction v) (auto simp: latin1_string_def)

lemma parse_empty_line [simp]: "parse_header_line crlf = Ok None"
  by (simp add: parse_header_line_def)

text \<open>The parser on a line without its line end.\<close>

lemma parse_header_body:
  assumes "body \<noteq> []"
  shows "parse_header_line (body @ crlf) =
    (let name = takeWhile is_valid_token_char body; rest = dropWhile is_valid_token_char body in
     if name = [] then Err name_line_error
     else (case rest of
         [] \<Rightarrow> Panic
       | c # value \<Rightarrow>
           if c \<noteq> CHR '':'' then Err name_line_error
           else if value = [] then Err name_value_error
           else if list_all is_valid_field_content (dropWhile is_optional_white_space value)
           then Ok (Some \<lparr>hd_name = normalize_header_name name,
                          hd_value = latin1_string (dropWhile is_optional_white_space value)\<rparr>)
           else Err name_value_error))"
proof -
  let ?name = "takeWhile is_valid_token_char body" and ?rest = "dropWhile is_valid_token_char body"
  have eq: "body = ?name @ ?rest" by simp
  have len: "length body = length ?name + length ?rest" by (metis eq length_append)
  have dr: "drop (length ?name) body = ?rest" by (metis append_eq_conv_conj eq)
  show ?thesis
  proof (cases ?rest)
    case Nil
    have "takeWhile is_valid_token_char body = body"
      by (metis Nil append_Nil2 takeWhile_dropWhile_id)
    then show ?thesis
      unfolding Nil Let_def using assms
      by (simp add: parse_header_line_def Let_def del: takeWhile_eq_all_conv dropWhile_eq_Nil_conv)
  next
    case (Cons c vs)
    have nth: "body ! length ?name = c"
      using dr Cons len by (metis add_lessD1 hd_drop_conv_nth le_add1 length_Cons length_greater_0_conv
          less_add_Suc1 list.discI list.sel(1) add_Suc_right)
    have tl: "drop (Suc (length ?name)) body = vs"
      using dr Cons by (metis drop_Suc list.sel(3) tl_drop)
    have lv: "length body - Suc (length ?name) = length vs" using len Cons by simp
    show ?thesis
      using assms len Cons nth tl lv
      by (auto simp: parse_header_line_def Let_def field_value_loop_eq)
  qed
qed

lemma parse_header_line_short: "length line < 2 \<Longrightarrow> parse_header_line line = Panic"
  by (simp add: parse_header_line_def)

lemma parse_header_line_take:
  assumes "2 \<le> length line"
  shows "parse_header_line line = parse_header_line (take (length line - 2) line @ crlf)"
  using assms by (simp add: parse_header_line_def)

lemma takeWhile_all: "list_all P xs \<Longrightarrow> takeWhile P (xs @ y # ys) = (if P y then xs @ y # takeWhile P ys else xs)"
  by (induction xs) auto

lemma dropWhile_all: "list_all P xs \<Longrightarrow> \<not> P y \<Longrightarrow> dropWhile P (xs @ y # ys) = y # ys"
  by (induction xs) auto

section \<open>Well-formed headers and their text\<close>

definition header_ok :: "header \<Rightarrow> bool" where
  "header_ok h \<longleftrightarrow> hd_name h \<noteq> [] \<and> list_all is_valid_token_char (hd_name h)
     \<and> normalize_header_name (hd_name h) = hd_name h
     \<and> list_all (\<lambda>c. is_valid_field_content c \<and> is_ascii c) (hd_value h)
     \<and> (hd_value h = [] \<or> \<not> is_optional_white_space (hd (hd_value h)))"

definition header_text :: "header \<Rightarrow> byte list" where
  "header_text h = hd_name h @ '': '' @ hd_value h @ crlf"

lemma parse_header_text_value:
  assumes "hd_name h \<noteq> []" and "list_all is_valid_token_char (hd_name h)" and "normalize_header_name (hd_name h) = hd_name h"
    and "list_all is_valid_field_content (hd_value h)" and "hd_value h = [] \<or> \<not> is_optional_white_space (hd (hd_value h))"
  shows "parse_header_line (header_text h) = Ok (Some (h\<lparr>hd_value := latin1_string (hd_value h)\<rparr>))"
proof -
  have dw: "dropWhile is_optional_white_space (hd_value h) = hd_value h" "is_optional_white_space SP"
    using assms(5) by (cases "hd_value h"; auto simp: is_optional_white_space_def)+
  have t: "header_text h = (hd_name h @ CHR '':'' # SP # hd_value h) @ crlf"
    by (simp add: header_text_def)
  show ?thesis
    unfolding t using assms(1,3,4)
    by (subst parse_header_body) (simp_all add: takeWhile_all [OF assms(2)] dropWhile_all [OF assms(2)] dw Let_def)
qed

lemma parse_header_text: "header_ok h \<Longrightarrow> parse_header_line (header_text h) = Ok (Some h)"
  using parse_header_text_value [of h] by (auto simp: header_ok_def list_all_iff)

text \<open>
  What a header that was parsed is: a non-empty name of token characters in its normal form, and a
  value of field content (bytes that became the characters of the same codes) that does not begin with
  white space. Only of ASCII values are the characters the bytes.
\<close>

definition value_typed :: "string \<Rightarrow> bool" where
  "value_typed v \<longleftrightarrow> (\<exists>bs. v = latin1_string bs \<and> list_all is_valid_field_content bs
     \<and> (bs = [] \<or> \<not> is_optional_white_space (hd bs)))"

definition header_typed :: "header \<Rightarrow> bool" where
  "header_typed h \<longleftrightarrow> hd_name h \<noteq> [] \<and> list_all is_valid_token_char (hd_name h)
     \<and> normalize_header_name (hd_name h) = hd_name h \<and> value_typed (hd_value h)"

lemma parse_header_line_typed:
  assumes "parse_header_line line = Ok (Some h)"
  shows "header_typed h"
proof -
  define body where "body = take (length line - 2) line"
  have "2 \<le> length line" using assms parse_header_line_short [of line] by (cases "length line < 2") auto
  then have parsed: "parse_header_line (body @ crlf) = Ok (Some h)"
    using assms parse_header_line_take [of line] by (simp add: body_def)
  then have "body \<noteq> []" by auto
  from parse_header_body [OF this] parsed obtain vs where
    h: "h = \<lparr>hd_name = normalize_header_name (takeWhile is_valid_token_char body),
          hd_value = latin1_string (dropWhile is_optional_white_space vs)\<rparr>"
      "takeWhile is_valid_token_char body \<noteq> []" "list_all is_valid_field_content (dropWhile is_optional_white_space vs)"
    by (auto simp: Let_def split: list.splits if_splits simp del: takeWhile_eq_Nil_iff)
  have "list_all is_valid_token_char (takeWhile is_valid_token_char body)" by (auto simp: list_all_iff dest: set_takeWhileD)
  then have "list_all is_valid_token_char (hd_name h)"
    using h(1) by (simp add: normalize_header_name_def normalize_name_loop_token)
  moreover have "hd_name h \<noteq> []"
    using h(1,2) by (metis header.select_convs(1) length_0_conv normalize_header_name_def normalize_name_loop_length)
  moreover have "dropWhile is_optional_white_space vs = [] \<or> \<not> is_optional_white_space (hd (dropWhile is_optional_white_space vs))"
    using hd_dropWhile by blast
  ultimately show ?thesis
    using h(1,3) by (auto simp: header_typed_def value_typed_def normalize_header_name_def)
qed

text \<open>The characters of a typed value are valid bytes again, but those that are not ASCII are two each.\<close>

lemma high_content: "128 \<le> code c \<Longrightarrow> is_valid_field_content c \<and> \<not> is_optional_white_space c"
  by (auto simp: is_valid_field_content_def is_valid_vchar_def is_optional_white_space_def code_def)

lemma utf8_of_latin1_high: "\<not> code c < 128 \<Longrightarrow> \<forall>d \<in> set (utf8_of_latin1 c). 128 \<le> code d"
proof -
  assume "\<not> code c < 128"
  moreover have "code c div 64 < 4" using code_less_256 [of c] by (simp add: less_mult_imp_div_less)
  ultimately show ?thesis by (auto simp: utf8_of_latin1_def code_def)
qed

lemma utf8_of_latin1_content: "is_valid_field_content c \<Longrightarrow> list_all is_valid_field_content (utf8_of_latin1 c)"
  using utf8_of_latin1_high [of c] high_content
  by (cases "code c < 128") (auto simp: list_all_iff, simp add: utf8_of_latin1_def)

lemma length_latin1_string: "length (latin1_string v) = length v + length (filter (\<lambda>c. \<not> is_ascii c) v)"
  by (induction v) (auto simp: latin1_string_def utf8_of_latin1_def is_ascii_def)

lemma latin1_string_same: "latin1_string v = v \<longleftrightarrow> list_all is_ascii v"
proof
  assume "latin1_string v = v"
  then have "filter (\<lambda>c. \<not> is_ascii c) v = []" using length_latin1_string [of v] by simp
  then show "list_all is_ascii v" by (auto simp: filter_empty_conv list_all_iff)
qed simp

lemma latin1_content: "list_all is_valid_field_content v \<Longrightarrow> list_all is_valid_field_content (latin1_string v)"
  by (induction v) (auto simp: latin1_string_def utf8_of_latin1_content)

lemma hd_latin1:
  assumes "v \<noteq> []" and "\<not> is_optional_white_space (hd v)"
  shows "\<not> is_optional_white_space (hd (latin1_string v))"
proof (cases v)
  case (Cons c cs)
  have "hd (latin1_string v) \<in> set (utf8_of_latin1 c)"
    using Cons by (auto simp: latin1_string_def utf8_of_latin1_def)
  with assms(2) Cons show ?thesis
    using utf8_of_latin1_high [of c] high_content by (cases "code c < 128") (auto simp: utf8_of_latin1_def)
qed (use assms in simp)

section \<open>Line ends\<close>

fun has_crlf :: "byte list \<Rightarrow> bool" where
  "has_crlf (a # b # cs) \<longleftrightarrow> a = CR \<and> b = LF \<or> has_crlf (b # cs)"
| "has_crlf _ \<longleftrightarrow> False"

lemma has_crlf_append:
  "has_crlf (xs @ ys) \<longleftrightarrow>
     has_crlf xs \<or> has_crlf ys \<or> (xs \<noteq> [] \<and> ys \<noteq> [] \<and> last xs = CR \<and> hd ys = LF)"
proof (induction xs rule: has_crlf.induct)
  case "2_2"
  then show ?case by (cases ys) auto
qed auto

lemma has_crlf_no_lf: "LF \<notin> set xs \<Longrightarrow> \<not> has_crlf xs"
  by (induction xs rule: has_crlf.induct) auto

lemma has_crlf_no_cr: "CR \<notin> set xs \<Longrightarrow> \<not> has_crlf xs"
  by (induction xs rule: has_crlf.induct) auto

lemma crlf_split_unique:
  "p @ crlf @ r = q @ crlf @ s \<Longrightarrow> \<not> has_crlf (p @ [CR]) \<Longrightarrow> \<not> has_crlf (q @ [CR]) \<Longrightarrow> p = q \<and> r = s"
proof (induction p arbitrary: q)
  case Nil
  then show ?case
    by (cases q rule: has_crlf.cases) auto
next
  case (Cons a p)
  show ?case
  proof (cases q)
    case Nil
    then show ?thesis using Cons.prems by (cases p) auto
  next
    case (Cons b q')
    have "\<not> has_crlf (p @ [CR])" "\<not> has_crlf (q' @ [CR])"
      using Cons.prems(2,3) Cons by (auto simp: has_crlf_append [of "[a]" "p @ [CR]", simplified]
          has_crlf_append [of "[b]" "q' @ [CR]", simplified])
    then show ?thesis using Cons.IH [of q'] Cons.prems(1) Cons by auto
  qed
qed

text \<open>A line as the loop stops at it: it ends at the first line end it contains.\<close>

definition line_end :: "byte list \<Rightarrow> bool" where
  "line_end line \<longleftrightarrow> 2 \<le> length line \<and> line ! (length line - 1) = LF \<and> line ! (length line - 2) = CR"

lemma line_end_iff: "line_end line \<longleftrightarrow> (\<exists>p. line = p @ crlf)"
proof
  assume h: "line_end line"
  then obtain xs y where xs: "line = xs @ [y]" by (cases line rule: rev_cases) (auto simp: line_end_def)
  with h obtain ys z where "xs = ys @ [z]" by (cases xs rule: rev_cases) (auto simp: line_end_def)
  with h xs show "\<exists>p. line = p @ crlf" by (auto simp: line_end_def nth_append)
next
  assume "\<exists>p. line = p @ crlf"
  then show "line_end line" by (auto simp: line_end_def nth_append)
qed

lemma read_line_loop_unfold:
  "read_line_loop rd line b =
     (case read_until rd LF [] b of
        None \<Rightarrow> None
      | Some (r, b') \<Rightarrow>
          (case r of
             Ok chunk \<Rightarrow>
               if line_end (line @ chunk) then Some (Ok (line @ chunk), b')
               else read_line_loop rd (line @ chunk) b'
           | Err e \<Rightarrow> Some (Err (http_error_from_io e), b')
           | Panic \<Rightarrow> Some (Panic, b')))"
  by (subst read_line_loop.simps)
    (auto simp: Let_def line_end_def split: option.split prod.split res.split)

context byte_source
begin

text \<open>
  The loop reads the line up to the first line end of the input. In the induction, the part
  read so far is empty or ends with a line feed, and has no line end in it.
\<close>

lemma read_line_loop_found:
  assumes "ok (br_src b)" and "acc @ br_content content b = p @ crlf @ post"
    and "\<not> has_crlf (p @ [CR])" and "\<not> has_crlf acc" and "acc = [] \<or> last acc = LF"
  shows "\<exists>b'. read_line_loop rd acc b = Some (Ok (p @ crlf), b')
    \<and> br_content content b' = post \<and> ok (br_src b')"
  using assms
proof (induction "length (br_content content b)" arbitrary: b acc rule: less_induct)
  case less
  have "LF \<in> set (br_content content b)"
  proof (rule ccontr)
    assume "LF \<notin> set (br_content content b)"
    then have "\<not> has_crlf (acc @ br_content content b)"
      using less.prems(4,5) by (cases "br_content content b") (auto simp: has_crlf_append has_crlf_no_lf)
    then show False using less.prems(2) by (simp add: has_crlf_append)
  qed
  then obtain u v where uv: "br_content content b = u @ LF # v" "LF \<notin> set u"
    by (meson split_list_first)
  obtain b' where b': "read_until rd LF [] b = Some (Ok (u @ [LF]), b')"
    "br_content content b' = v" "ok (br_src b')"
    using read_until_found [OF less.prems(1) uv, of "[]"] by auto
  have nacc: "\<not> has_crlf (acc @ u)"
    using less.prems(4,5) uv(2) by (cases u) (auto simp: has_crlf_append has_crlf_no_lf)
  show ?case
  proof (cases "line_end (acc @ u @ [LF])")
    case True
    then obtain q where q: "acc @ u = q @ [CR]" by (auto simp: line_end_iff)
    have "(acc @ u) @ LF # v = p @ crlf @ post" using less.prems(2) uv(1) by simp
    then have "q @ crlf @ v = p @ crlf @ post" unfolding q by simp
    from crlf_split_unique [OF this _ less.prems(3)] nacc q have "q = p" "v = post" by auto
    with b' True q show ?thesis by (subst read_line_loop_unfold) auto
  next
    case False
    have "acc @ u = [] \<or> last (acc @ u) \<noteq> CR"
      using False line_end_iff by (metis append.assoc append_Cons append_Nil append_butlast_last_id)
    then have "\<not> has_crlf (acc @ u @ [LF])"
      using nacc by (auto simp: has_crlf_append [of "acc @ u" "[LF]", simplified])
    from less.hyps [OF _ b'(3) _ less.prems(3) this] uv b'(2) less.prems(2) show ?thesis
      using False b'(1) by (subst read_line_loop_unfold) simp
  qed
qed

lemma header_read_line:
  assumes "ok (br_src b)" and "br_content content b = p @ crlf @ post" and "\<not> has_crlf (p @ [CR])"
  shows "\<exists>b'. header_read_from rd b = Some (parse_header_line (p @ crlf), b')
    \<and> br_content content b' = post \<and> ok (br_src b')"
  using read_line_loop_found [OF assms(1), of "[]" p post] assms(2,3)
  by (auto simp: header_read_from_def and_then_def)

end

context eof_source
begin

text \<open>On an input that ends before a line end, the loop of \<^verbatim>\<open>Header::read_from\<close> spins.\<close>

lemma read_line_loop_diverges:
  assumes "ok (br_src b)" and "\<not> has_crlf (acc @ br_content content b)"
  shows "read_line_loop rd acc b = None"
proof (rule ccontr)
  assume "read_line_loop rd acc b \<noteq> None"
  then obtain y where y: "read_line_loop rd acc b = Some y" by blast
  have "rd = rd \<longrightarrow> ok (br_src b) \<longrightarrow> has_crlf (acc @ br_content content b)"
  proof (rule read_line_loop.raw_induct [where P = "\<lambda>rd' line b y.
      rd' = rd \<longrightarrow> ok (br_src b) \<longrightarrow> has_crlf (line @ br_content content b)", OF _ y])
    fix loop :: "'s reader \<Rightarrow> byte list \<Rightarrow> 's bufreader \<Rightarrow> ((byte list, http_error) res \<times> 's bufreader) option"
      and rd' line and b :: "'s bufreader" and y
    assume IH: "\<And>rd' line b y. loop rd' line b = Some y \<Longrightarrow>
        rd' = rd \<longrightarrow> ok (br_src b) \<longrightarrow> has_crlf (line @ br_content content b)"
      and step: "(case read_until rd' LF [] b of None \<Rightarrow> None
        | Some (r, b') \<Rightarrow> (case r of
             Ok header_chunk \<Rightarrow>
               let line' = line @ header_chunk; len = length line'
               in if len < 2 then loop rd' line' b'
                  else if line' ! (len - 1) = LF \<and> line' ! (len - 2) = CR then Some (Ok line', b')
                  else loop rd' line' b'
           | Err e \<Rightarrow> Some (Err (http_error_from_io e), b')
           | Panic \<Rightarrow> Some (Panic, b'))) = Some y"
    show "rd' = rd \<longrightarrow> ok (br_src b) \<longrightarrow> has_crlf (line @ br_content content b)"
    proof (intro impI)
      assume rd': "rd' = rd" and b: "ok (br_src b)"
      obtain chunk b' where b': "read_until rd LF [] b = Some (Ok chunk, b')" "ok (br_src b')"
        "br_content content b = chunk @ br_content content b'"
      proof (cases "LF \<in> set (br_content content b)")
        case True
        then obtain u v where uv: "br_content content b = u @ LF # v" "LF \<notin> set u"
          by (meson split_list_first)
        with that read_until_found [OF b uv, of "[]"] show thesis by auto
      next
        case False
        with that read_until_eof [OF b False, of "[]"] show thesis by auto
      qed
      show "has_crlf (line @ br_content content b)"
      proof (cases "line_end (line @ chunk)")
        case True
        then obtain q where "line @ chunk = q @ crlf" by (auto simp: line_end_iff)
        then have "has_crlf (line @ chunk)" by (simp add: has_crlf_append)
        then show ?thesis
          using has_crlf_append [of "line @ chunk" "br_content content b'"] b'(3) by simp
      next
        case False
        then have "loop rd (line @ chunk) b' = Some y"
          using step b'(1) unfolding rd' by (auto simp: Let_def line_end_def split: if_splits)
        from IH [OF this] b'(2,3) show ?thesis by simp
      qed
    qed
  qed
  with assms show False by blast
qed

end

section \<open>Header sections\<close>

lemma has_crlf_first:
  "has_crlf s \<Longrightarrow> \<exists>p post. s = p @ crlf @ post \<and> \<not> has_crlf (p @ [CR])"
proof (induction s rule: has_crlf.induct)
  case (1 a b cs)
  show ?case
  proof (cases "a = CR \<and> b = LF")
    case True
    then show ?thesis by (intro exI [of _ "[]"] exI [of _ cs]) simp
  next
    case False
    with 1 obtain p post where p: "b # cs = p @ crlf @ post" "\<not> has_crlf (p @ [CR])" by auto
    then have "a # b # cs = (a # p) @ crlf @ post" by simp
    moreover have "\<not> has_crlf ((a # p) @ [CR])" using p False by (cases p) auto
    ultimately show ?thesis by blast
  qed
qed auto

lemma no_cr_line: "CR \<notin> set p \<Longrightarrow> \<not> has_crlf (p @ [CR])"
  by (simp add: has_crlf_append has_crlf_no_cr)

lemma header_text_line:
  assumes "header_ok h"
  obtains p where "header_text h = p @ crlf" "\<not> has_crlf (p @ [CR])"
proof
  let ?p = "hd_name h @ '': '' @ hd_value h"
  show "header_text h = ?p @ crlf" by (simp add: header_text_def)
  have "CR \<notin> set ?p" using assms by (auto simp: header_ok_def list_all_iff)
  then show "\<not> has_crlf (?p @ [CR])" by (rule no_cr_line)
qed

definition add_all :: "headers \<Rightarrow> header list \<Rightarrow> headers" where
  "add_all hs hl = foldl (\<lambda>hs h. headers_add h hs) hs hl"

lemma headers_read_loop_step:
  "header_read_from rd b = Some (Ok (Some h), b') \<Longrightarrow>
     headers_read_loop rd hs b = headers_read_loop rd (headers_add h hs) b'"
  "header_read_from rd b = Some (Ok None, b') \<Longrightarrow> headers_read_loop rd hs b = Some (Ok hs, b')"
  "header_read_from rd b = Some (Err e, b') \<Longrightarrow> headers_read_loop rd hs b = Some (Err e, b')"
  "header_read_from rd b = Some (Panic, b') \<Longrightarrow> headers_read_loop rd hs b = Some (Panic, b')"
  "header_read_from rd b = None \<Longrightarrow> headers_read_loop rd hs b = None"
  by (subst headers_read_loop.simps; simp)+

context byte_source
begin

lemma headers_read_loop_ok:
  assumes "ok (br_src b)" and "list_all header_ok hl"
    and "br_content content b = concat (map header_text hl) @ crlf @ post"
  shows "\<exists>b'. headers_read_loop rd hs b = Some (Ok (add_all hs hl), b')
    \<and> br_content content b' = post \<and> ok (br_src b')"
  using assms
proof (induction hl arbitrary: hs b)
  case Nil
  then obtain b' where "header_read_from rd b = Some (Ok None, b')"
    "br_content content b' = post" "ok (br_src b')"
    using header_read_line [of b "[]" post] by auto
  then show ?case by (simp add: headers_read_loop_step add_all_def)
next
  case (Cons h hl)
  have h: "header_ok h" using Cons.prems(2) by simp
  obtain p where p: "header_text h = p @ crlf" "\<not> has_crlf (p @ [CR])"
    by (rule header_text_line [OF h])
  let ?rest = "concat (map header_text hl) @ crlf @ post"
  have "br_content content b = p @ crlf @ ?rest" using Cons.prems(3) p(1) by simp
  from header_read_line [OF Cons.prems(1) this p(2)] parse_header_text [OF h] p(1)
  obtain b' where b': "header_read_from rd b = Some (Ok (Some h), b')"
    "br_content content b' = ?rest" "ok (br_src b')" by auto
  from Cons.IH [OF b'(3) _ b'(2), of "headers_add h hs"] Cons.prems(2) show ?case
    by (simp add: headers_read_loop_step(1) [OF b'(1)] add_all_def)
qed

lemma headers_read_ok:
  assumes "ok (br_src b)" and "list_all header_ok hl"
    and "br_content content b = concat (map header_text hl) @ crlf @ post"
  shows "\<exists>b'. headers_read_from rd b = Some (Ok (add_all headers_new hl), b')
    \<and> br_content content b' = post \<and> ok (br_src b')"
  unfolding headers_read_from_def by (rule headers_read_loop_ok [OF assms])

end

text \<open>Headers that break off anywhere before their empty line, with the input, are never read.\<close>

lemma no_crlf_cut:
  assumes "\<not> has_crlf (p @ [CR])" and "n < length (p @ crlf)"
  shows "\<not> has_crlf (take n (p @ crlf))"
proof
  assume "has_crlf (take n (p @ crlf))"
  moreover have "take n (p @ crlf) @ drop n (p @ [CR]) = p @ [CR]"
    using assms(2) by (cases "n \<le> length p") (auto simp: take_Cons')
  ultimately show False using assms(1) has_crlf_append by metis
qed

context eof_source
begin

lemma header_read_cut:
  assumes "ok (br_src b)" and "\<not> has_crlf (br_content content b)"
  shows "header_read_from rd b = None"
  using read_line_loop_diverges [of b "[]"] assms by (simp add: header_read_from_def and_then_None)

lemma headers_read_loop_cut:
  assumes "ok (br_src b)" and "list_all header_ok hl"
    and "br_content content b = take n (concat (map header_text hl) @ crlf)"
    and "n < length (concat (map header_text hl) @ crlf)"
  shows "headers_read_loop rd hs b = None"
  using assms
proof (induction hl arbitrary: n hs b)
  case Nil
  have "\<not> has_crlf (take n ([] @ crlf))" by (rule no_crlf_cut) (use Nil.prems(4) in simp_all)
  then show ?case using Nil.prems by (intro headers_read_loop_step(5) header_read_cut) simp_all
next
  case (Cons h hl)
  have h: "header_ok h" using Cons.prems(2) by simp
  obtain p where p: "header_text h = p @ crlf" "\<not> has_crlf (p @ [CR])"
    by (rule header_text_line [OF h])
  let ?rest = "concat (map header_text hl) @ crlf" and ?k = "length (header_text h)"
  show ?case
  proof (cases "n < ?k")
    case True
    then have "br_content content b = take n (p @ crlf)"
      using Cons.prems(3) take_append [of n "p @ crlf" ?rest] p(1) by (simp del: take_append)
    moreover have "\<not> has_crlf (take n (p @ crlf))" using True p by (intro no_crlf_cut) simp_all
    ultimately show ?thesis using Cons.prems(1) by (intro headers_read_loop_step(5) header_read_cut) simp_all
  next
    case False
    then have "take n (header_text h @ ?rest) = header_text h @ take (n - ?k) ?rest" by simp
    then have "br_content content b = header_text h @ take (n - ?k) ?rest" using Cons.prems(3) by simp
    then have "br_content content b = p @ crlf @ take (n - ?k) ?rest" by (simp only: p(1) append_assoc)
    from header_read_line [OF Cons.prems(1) this p(2)] parse_header_text [OF h] p(1)
    obtain b' where b': "header_read_from rd b = Some (Ok (Some h), b')"
      "br_content content b' = take (n - ?k) ?rest" "ok (br_src b')" by auto
    have "n - ?k < length ?rest" "list_all header_ok hl" using Cons.prems(2,4) False by auto
    from Cons.IH [OF b'(3) this(2) b'(2) this(1), of "headers_add h hs"] show ?thesis
      by (simp add: headers_read_loop_step(1) [OF b'(1)])
  qed
qed

end

text \<open>The entries of a collection, one header per value, and their text.\<close>

definition flatten_entries :: "(string \<times> string list) list \<Rightarrow> header list" where
  "flatten_entries es = concat (map (\<lambda>(n, vs). map (\<lambda>v. \<lparr>hd_name = n, hd_value = v\<rparr>) vs) es)"

definition headers_text :: "(string \<times> string list) list \<Rightarrow> byte list" where
  "headers_text es = concat (map header_text (flatten_entries es)) @ crlf"

definition headers_all :: "(header \<Rightarrow> bool) \<Rightarrow> headers \<Rightarrow> bool" where
  "headers_all P hs \<longleftrightarrow> hm_inv (header_map hs)
     \<and> (\<forall>(n, vs) \<in> set (header_map hs). vs \<noteq> [] \<and> (\<forall>v \<in> set vs. P \<lparr>hd_name = n, hd_value = v\<rparr>))"

abbreviation headers_ok :: "headers \<Rightarrow> bool" where
  "headers_ok \<equiv> headers_all header_ok"

lemma headers_all_iff:
  "headers_all P hs \<longleftrightarrow> hm_inv (header_map hs)
     \<and> (\<forall>n vs. headers_get hs n = Some vs \<longrightarrow>
          vs \<noteq> [] \<and> (\<forall>v \<in> set vs. P \<lparr>hd_name = n, hd_value = v\<rparr>))"
proof -
  have "headers_get hs n = Some vs \<longleftrightarrow> (n, vs) \<in> set (header_map hs)" if "hm_inv (header_map hs)" for n vs
    using that by (simp add: headers_get_def hm_get_def hm_inv_def)
  then show ?thesis
    by (cases "hm_inv (header_map hs)") (simp_all add: headers_all_def Ball_def split_paired_All)
qed

lemma headers_get_add:
  "headers_get (headers_add h hs) n =
     (if n = hd_name h then Some ((case headers_get hs n of None \<Rightarrow> [] | Some vs \<Rightarrow> vs) @ [hd_value h])
      else headers_get hs n)"
  by (simp add: headers_get_def headers_add_def Let_def hm_get_def hm_insert_def update_conv')

lemma headers_get_new [simp]: "headers_get headers_new n = None"
  by (simp add: headers_get_def headers_new_def hm_get_def)

lemma headers_all_new [simp]: "headers_all P headers_new"
  by (simp add: headers_all_def headers_new_def hm_inv_def)

lemma headers_all_add:
  assumes "headers_all P hs" and "P h"
  shows "headers_all P (headers_add h hs)"
proof -
  have "hm_inv (header_map (headers_add h hs))"
    using assms(1) by (simp add: headers_all_def headers_add_def Let_def hm_inv_def hm_insert_def distinct_update)
  moreover have "P \<lparr>hd_name = hd_name h, hd_value = hd_value h\<rparr>"
    using assms(2) by (cases h) simp
  ultimately show ?thesis
    using assms(1)
    by (cases "headers_get hs (hd_name h)") (auto simp: headers_all_iff headers_get_add split: if_splits)
qed

lemma headers_all_mono: "headers_all P hs \<Longrightarrow> (\<And>h. P h \<Longrightarrow> Q h) \<Longrightarrow> headers_all Q hs"
  unfolding headers_all_def by fast

lemma flatten_entries_Cons:
  "flatten_entries ((n, vs) # es) = map (\<lambda>v. \<lparr>hd_name = n, hd_value = v\<rparr>) vs @ flatten_entries es"
  by (simp add: flatten_entries_def)

lemma headers_ok_flatten:
  assumes "headers_ok hs" and "set es = set (header_map hs)"
  shows "list_all header_ok (flatten_entries es)"
  using assms unfolding headers_all_def flatten_entries_def list_all_iff by fastforce

lemma update_fresh: "k \<notin> fst ` set m \<Longrightarrow> AList.update k v m = m @ [(k, v)]"
  by (induction m) auto

lemma update_last: "k \<notin> fst ` set m \<Longrightarrow> AList.update k v (m @ [(k, w)]) = m @ [(k, v)]"
  by (induction m) auto

lemma map_of_last: "k \<notin> fst ` set m \<Longrightarrow> map_of (m @ [(k, w)]) k = Some w"
  by (induction m) auto

lemma headers_add_fresh:
  "n \<notin> fst ` set m \<Longrightarrow>
     headers_add \<lparr>hd_name = n, hd_value = v\<rparr> \<lparr>header_map = m\<rparr> = \<lparr>header_map = m @ [(n, [v])]\<rparr>"
  by (simp add: headers_add_def hm_get_def hm_insert_def update_fresh map_of_eq_None_iff [THEN iffD2])

lemma headers_add_last:
  "n \<notin> fst ` set m \<Longrightarrow>
     headers_add \<lparr>hd_name = n, hd_value = v\<rparr> \<lparr>header_map = m @ [(n, vs)]\<rparr>
       = \<lparr>header_map = m @ [(n, vs @ [v])]\<rparr>"
  by (simp add: headers_add_def hm_get_def hm_insert_def update_last map_of_last del: map_of_append)

lemma add_all_values:
  "n \<notin> fst ` set m \<Longrightarrow>
     add_all \<lparr>header_map = m @ [(n, us)]\<rparr> (map (\<lambda>v. \<lparr>hd_name = n, hd_value = v\<rparr>) vs)
       = \<lparr>header_map = m @ [(n, us @ vs)]\<rparr>"
  by (induction vs arbitrary: us) (simp_all add: add_all_def headers_add_last)

lemma add_all_append: "add_all hs (xs @ ys) = add_all (add_all hs xs) ys"
  by (simp add: add_all_def)

lemma add_all_flatten:
  "distinct (map fst (m @ es)) \<Longrightarrow> \<forall>(n, vs) \<in> set es. vs \<noteq> [] \<Longrightarrow>
     add_all \<lparr>header_map = m\<rparr> (flatten_entries es) = \<lparr>header_map = m @ es\<rparr>"
proof (induction es arbitrary: m)
  case Nil
  then show ?case by (simp add: flatten_entries_def add_all_def)
next
  case (Cons e es)
  obtain n v vs where e: "e = (n, v # vs)" using Cons.prems(2) by (cases e; cases "snd e") auto
  have n: "n \<notin> fst ` set m" using Cons.prems(1) e by auto
  have A: "add_all \<lparr>header_map = m\<rparr> (map (\<lambda>v. \<lparr>hd_name = n, hd_value = v\<rparr>) (v # vs))
      = \<lparr>header_map = m @ [(n, v # vs)]\<rparr>"
    using add_all_values [OF n, of "[v]" vs] by (simp add: add_all_def headers_add_fresh [OF n])
  have B: "add_all \<lparr>header_map = m @ [e]\<rparr> (flatten_entries es) = \<lparr>header_map = (m @ [e]) @ es\<rparr>"
    by (rule Cons.IH) (use Cons.prems in auto)
  show ?case
    unfolding e flatten_entries_Cons add_all_append A B [unfolded e] by simp
qed

context byte_sink
begin

lemma header_write_ok:
  assumes "wok w"
  shows "\<exists>w'. header_write wr h w = Some (Ok (), w') \<and> appended w (header_text h) w' \<and> wok w'"
proof -
  obtain w1 where w1: "write_all wr (hd_name h) w = Some (Ok (), w1)" "appended w (hd_name h) w1" "wok w1"
    using write_all_ok [OF assms] by blast
  obtain w2 where w2: "write_all wr '': '' w1 = Some (Ok (), w2)" "appended w1 '': '' w2" "wok w2"
    using write_all_ok [OF w1(3)] by blast
  obtain w3 where w3: "write_all wr (hd_value h) w2 = Some (Ok (), w3)" "appended w2 (hd_value h) w3" "wok w3"
    using write_all_ok [OF w2(3)] by blast
  obtain w4 where w4: "write_all wr crlf w3 = Some (Ok (), w4)" "appended w3 crlf w4" "wok w4"
    using write_all_ok [OF w3(3)] by blast
  have "appended w (header_text h) w4"
    using appended_trans [OF w1(2) appended_trans [OF w2(2) appended_trans [OF w3(2) w4(2)]]]
    by (simp add: header_text_def)
  with w1 w2 w3 w4 show ?thesis by (simp add: header_write_def prog_simps)
qed

lemma write_values_ok:
  assumes "wok w"
  shows "\<exists>w'. write_values wr n vs w = Some (Ok (), w') \<and> wok w'
    \<and> appended w (concat (map header_text (map (\<lambda>v. \<lparr>hd_name = n, hd_value = v\<rparr>) vs))) w'"
  using assms
proof (induction vs arbitrary: w)
  case Nil
  then show ?case by (simp add: appended_Nil)
next
  case (Cons v vs)
  obtain w1 where w1: "header_write wr \<lparr>hd_name = n, hd_value = v\<rparr> w = Some (Ok (), w1)"
    "appended w (header_text \<lparr>hd_name = n, hd_value = v\<rparr>) w1" "wok w1"
    using header_write_ok [OF Cons.prems] by blast
  from Cons.IH [OF w1(3)] appended_trans [OF w1(2)] w1(1) show ?case
    by (auto simp: prog_simps)
qed

lemma write_entries_ok:
  assumes "wok w"
  shows "\<exists>w'. write_entries wr es w = Some (Ok (), w') \<and> wok w'
    \<and> appended w (concat (map header_text (flatten_entries es))) w'"
  using assms
proof (induction es arbitrary: w)
  case Nil
  then show ?case by (simp add: appended_Nil flatten_entries_def)
next
  case (Cons e es)
  obtain n vs where e: "e = (n, vs)" by (cases e)
  obtain w1 where w1: "write_values wr n vs w = Some (Ok (), w1)" "wok w1"
    "appended w (concat (map header_text (map (\<lambda>v. \<lparr>hd_name = n, hd_value = v\<rparr>) vs))) w1"
    using write_values_ok [OF Cons.prems] by blast
  from Cons.IH [OF w1(2)] appended_trans [OF w1(3)] w1(1) show ?case
    by (auto simp: prog_simps e flatten_entries_def)
qed

lemma headers_write_ok:
  assumes "wok w"
  shows "\<exists>w'. headers_write it wr hs w = Some (Ok (), w') \<and> wok w'
    \<and> appended w (headers_text (it (header_map hs))) w'"
proof -
  obtain w1 where w1: "write_entries wr (it (header_map hs)) w = Some (Ok (), w1)" "wok w1"
    "appended w (concat (map header_text (flatten_entries (it (header_map hs))))) w1"
    using write_entries_ok [OF assms] by blast
  obtain w2 where "write_all wr crlf w1 = Some (Ok (), w2)" "appended w1 crlf w2" "wok w2"
    using write_all_ok [OF w1(2)] by blast
  with w1 appended_trans [OF w1(3), of crlf w2] show ?thesis
    by (simp add: headers_write_def headers_text_def prog_simps)
qed

end

text \<open>Whatever the bytes are, headers that were read are well typed.\<close>

lemma headers_read_loop_typed:
  assumes "headers_read_loop rd hs b = Some (Ok hs', b')" and "headers_all header_typed hs"
  shows "headers_all header_typed hs'"
proof -
  have "headers_all header_typed hs \<longrightarrow> (\<forall>hs'. fst y = Ok hs' \<longrightarrow> headers_all header_typed hs')"
    if "headers_read_loop rd hs b = Some y" for rd :: "'s reader" and hs b y
    using that
  proof (rule headers_read_loop.raw_induct [rotated, where P = "\<lambda>rd hs b y.
      headers_all header_typed hs \<longrightarrow> (\<forall>hs'. fst y = Ok hs' \<longrightarrow> headers_all header_typed hs')"], intro impI allI)
    fix loop and rd :: "'s reader" and hs b y hs'
    assume IH: "\<And>rd hs b y. loop rd hs b = Some y \<Longrightarrow>
        headers_all header_typed hs \<longrightarrow> (\<forall>hs'. fst y = Ok hs' \<longrightarrow> headers_all header_typed hs')"
      and step: "(case header_read_from rd b of
        None \<Rightarrow> None
      | Some (r, b') \<Rightarrow>
          (case r of
             Ok h \<Rightarrow> (case h of None \<Rightarrow> Some (Ok hs, b') | Some hdr \<Rightarrow> loop rd (headers_add hdr hs) b')
           | Err e \<Rightarrow> Some (Err e, b')
           | Panic \<Rightarrow> Some (Panic, b'))) = Some y"
      and hs: "headers_all header_typed hs" and y: "fst y = Ok hs'"
    obtain h b1 where h: "header_read_from rd b = Some (Ok h, b1)"
      "(case h of None \<Rightarrow> Some (Ok hs, b1) | Some hdr \<Rightarrow> loop rd (headers_add hdr hs) b1) = Some y"
      using step y by (auto split: option.splits prod.splits res.splits)
    show "headers_all header_typed hs'"
    proof (cases h)
      case (Some hdr)
      have "header_typed hdr"
        using h(1) Some parse_header_line_typed
        by (auto simp: header_read_from_def of_res_def elim!: and_then_OkD)
      from headers_all_add [OF hs this] IH h(2) Some y show ?thesis by auto
    qed (use h(2) hs y in auto)
  qed
  with assms show ?thesis by fastforce
qed

lemma headers_read_typed: "headers_read_from rd b = Some (Ok hs, b') \<Longrightarrow> headers_all header_typed hs"
  unfolding headers_read_from_def by (erule headers_read_loop_typed) simp

lemma headers_text_cut:
  assumes "eof_source rd content ok retries" and "headers_ok hs" and "iteration_order it"
    and "ok (br_src b)" and "br_content content b = take n (headers_text (it (header_map hs)))"
    and "n < length (headers_text (it (header_map hs)))"
  shows "headers_read_from rd b = None"
proof -
  have "list_all header_ok (flatten_entries (it (header_map hs)))"
    by (rule headers_ok_flatten [OF assms(2)]) (use assms(3) in simp)
  from eof_source.headers_read_loop_cut [OF assms(1,4) this] assms(5,6) show ?thesis
    by (simp add: headers_read_from_def headers_text_def)
qed

lemma headers_text_read:
  assumes "byte_source rd content ok retries" and "headers_ok hs" and "iteration_order it"
    and "ok (br_src b)" and "br_content content b = headers_text (it (header_map hs)) @ post"
  shows "\<exists>b' hs'. headers_read_from rd b = Some (Ok hs', b') \<and> header_map hs' = it (header_map hs)
    \<and> headers_get hs' = headers_get hs \<and> br_content content b' = post \<and> ok (br_src b')"
proof -
  let ?es = "it (header_map hs)"
  have set: "set ?es = set (header_map hs)" using assms(3) by simp
  have inv: "hm_inv (header_map hs)" using assms(2) by (simp add: headers_all_def)
  have "distinct (map fst ?es)" and vs: "\<forall>(n, vs) \<in> set ?es. vs \<noteq> []"
    using assms(2,3) iteration_order_inv [of it "header_map hs"] inv set
    by (auto simp: headers_all_def hm_inv_def)
  then have all: "add_all headers_new (flatten_entries ?es) = \<lparr>header_map = ?es\<rparr>"
    using add_all_flatten [of "[]" ?es] by (simp add: headers_new_def)
  have "list_all header_ok (flatten_entries ?es)" by (rule headers_ok_flatten [OF assms(2) set])
  from byte_source.headers_read_ok [OF assms(1,4) this, of post] assms(5) all
  show ?thesis
    using iteration_order_get [OF assms(3) inv]
    by (auto simp: headers_text_def headers_get_def fun_eq_iff)
qed

section \<open>The parser, branch by branch\<close>

definition header_line_of :: "byte list \<Rightarrow> header \<Rightarrow> bool" where
  "header_line_of body h \<longleftrightarrow>
     (\<exists>name ws v. body = name @ CHR '':'' # ws @ v \<and> name \<noteq> [] \<and> list_all is_valid_token_char name
        \<and> list_all is_optional_white_space ws \<and> (v = [] \<or> \<not> is_optional_white_space (hd v))
        \<and> ws @ v \<noteq> [] \<and> list_all is_valid_field_content v
        \<and> h = \<lparr>hd_name = normalize_header_name name, hd_value = latin1_string v\<rparr>)"

lemma dropWhile_ows:
  "list_all is_optional_white_space ws \<Longrightarrow> v = [] \<or> \<not> is_optional_white_space (hd v) \<Longrightarrow>
     dropWhile is_optional_white_space (ws @ v) = v"
  by (cases v) (auto simp: dropWhile_append list_all_iff)

lemma takeWhile_list_all: "list_all P (takeWhile P xs)"
  by (auto simp: list_all_iff dest: set_takeWhileD)

lemma parse_header_body_cases:
  assumes "body \<noteq> []"
  shows "(parse_header_line (body @ crlf) = Panic \<and> list_all is_valid_token_char body)
    \<or> (\<not> list_all is_valid_token_char body \<and>
        (parse_header_line (body @ crlf) \<in> {Err name_line_error, Err name_value_error}
         \<or> (\<exists>h. parse_header_line (body @ crlf) = Ok (Some h) \<and> header_line_of body h)))"
proof -
  let ?name = "takeWhile is_valid_token_char body" and ?rest = "dropWhile is_valid_token_char body"
  note eq = parse_header_body [OF assms, unfolded Let_def]
  have body: "body = ?name @ ?rest" by simp
  show ?thesis
  proof (cases ?rest)
    case Nil
    then have "list_all is_valid_token_char body" by (auto simp: list_all_iff dropWhile_eq_Nil_conv)
    moreover have "?name \<noteq> []" using assms Nil body by (metis append_Nil2)
    ultimately show ?thesis using eq Nil by simp
  next
    case (Cons c vs)
    then have c: "\<not> is_valid_token_char c" by (metis hd_dropWhile list.discI list.sel(1))
    moreover have "c \<in> set body" using Cons body by (metis in_set_conv_decomp)
    ultimately have nt: "\<not> list_all is_valid_token_char body" by (auto simp: list_all_iff)
    let ?v = "dropWhile is_optional_white_space vs" and ?ws = "takeWhile is_optional_white_space vs"
    show ?thesis
    proof (cases "?name \<noteq> [] \<and> c = CHR '':'' \<and> vs \<noteq> [] \<and> list_all is_valid_field_content ?v")
      case True
      let ?h = "\<lparr>hd_name = normalize_header_name ?name, hd_value = latin1_string ?v\<rparr>"
      have "body = ?name @ CHR '':'' # ?ws @ ?v" using body Cons True by simp
      moreover have "?v = [] \<or> \<not> is_optional_white_space (hd ?v)" by (metis hd_dropWhile)
      ultimately have "header_line_of body ?h"
        unfolding header_line_of_def using True
        by (intro exI [of _ ?name] exI [of _ ?ws] exI [of _ ?v]) (simp add: takeWhile_list_all)
      moreover have "parse_header_line (body @ crlf) = Ok (Some ?h)" using eq Cons True by simp
      ultimately show ?thesis using nt by blast
    next
      case False
      then have "parse_header_line (body @ crlf) \<in> {Err name_line_error, Err name_value_error}"
        using eq Cons by (auto split: if_splits)
      with nt show ?thesis by blast
    qed
  qed
qed

lemma parse_header_line_of:
  assumes "header_line_of body h"
  shows "parse_header_line (body @ crlf) = Ok (Some h)"
proof -
  obtain name ws v where h: "body = name @ CHR '':'' # ws @ v" "name \<noteq> []"
    "list_all is_valid_token_char name" "list_all is_optional_white_space ws"
    "v = [] \<or> \<not> is_optional_white_space (hd v)" "ws @ v \<noteq> []" "list_all is_valid_field_content v"
    "h = \<lparr>hd_name = normalize_header_name name, hd_value = latin1_string v\<rparr>"
    using assms by (auto simp: header_line_of_def)
  have "body \<noteq> []" using h(1) by simp
  from parse_header_body [OF this] show ?thesis
    using h(2,6-8) unfolding h(1)
    by (simp add: takeWhile_all [OF h(3)] dropWhile_all [OF h(3)] dropWhile_ows [OF h(4,5)] Let_def)
qed

section \<open>Properties\<close>

text \<open>
  C37. Every branch of the header-line parser, on a line of at least two bytes without its line
  end: the empty line ends the section; a line of token characters only runs past its end and
  panics; a name, a colon and a non-empty value of permitted bytes is the header with the
  normalised name and the value without leading white space, each byte read as a Latin-1
  character; every other line is one of the two invalid-request errors.
\<close>

theorem parse_header_line_spec:
  assumes "2 \<le> length line" and "body = take (length line - 2) line"
  shows "(parse_header_line line = Ok None \<longleftrightarrow> body = [])
    \<and> (parse_header_line line = Panic \<longleftrightarrow> body \<noteq> [] \<and> list_all is_valid_token_char body)
    \<and> (parse_header_line line = Ok (Some h) \<longleftrightarrow>
        (\<exists>name ws v. body = name @ CHR '':'' # ws @ v \<and> name \<noteq> [] \<and> list_all is_valid_token_char name
           \<and> list_all is_optional_white_space ws \<and> (v = [] \<or> \<not> is_optional_white_space (hd v))
           \<and> ws @ v \<noteq> [] \<and> list_all is_valid_field_content v
           \<and> h = \<lparr>hd_name = normalize_header_name name, hd_value = latin1_string v\<rparr>))
    \<and> (parse_header_line line = Err e \<longrightarrow> e = name_line_error \<or> e = name_value_error)"
proof (cases "body = []")
  case True
  then have "parse_header_line line = parse_header_line crlf"
    using parse_header_line_take [OF assms(1)] assms(2) by (metis append_Nil)
  with True show ?thesis by simp
next
  case False
  have line: "parse_header_line line = parse_header_line (body @ crlf)"
    using parse_header_line_take [OF assms(1)] assms(2) by simp
  let ?P = "parse_header_line (body @ crlf)"
  consider (panic) "?P = Panic" "list_all is_valid_token_char body"
    | (err) e' where "?P = Err e'" "e' = name_line_error \<or> e' = name_value_error"
        "\<not> list_all is_valid_token_char body"
    | (some) g where "?P = Ok (Some g)" "\<not> list_all is_valid_token_char body" "header_line_of body g"
    using parse_header_body_cases [OF False] by blast
  then show ?thesis
    unfolding line header_line_of_def [symmetric]
  proof cases
    case some
    then show "(?P = Ok None \<longleftrightarrow> body = []) \<and> (?P = Panic \<longleftrightarrow> body \<noteq> [] \<and> list_all is_valid_token_char body)
      \<and> (?P = Ok (Some h) \<longleftrightarrow> header_line_of body h)
      \<and> (?P = Err e \<longrightarrow> e = name_line_error \<or> e = name_value_error)"
      using False parse_header_line_of [of body h] by auto
  qed (use False parse_header_line_of [of body h] in auto)
qed

theorem parse_header_line_spec_witness:
  "parse_header_line (''host: a'' @ crlf) = Ok (Some \<lparr>hd_name = ''Host'', hd_value = ''a''\<rparr>)
   \<and> parse_header_line (''host'' @ crlf) = Panic"
proof
  have tok: "list_all is_valid_token_char ''host''" by code_simp
  have f: "is_valid_field_content (CHR ''a'')" "\<not> is_optional_white_space (CHR ''a'')"
    by code_simp+
  let ?h = "\<lparr>hd_name = normalize_header_name ''host'', hd_value = latin1_string ''a''\<rparr>"
  have "\<exists>name ws v. ''host: a'' = name @ CHR '':'' # ws @ v \<and> name \<noteq> [] \<and> list_all is_valid_token_char name
      \<and> list_all is_optional_white_space ws \<and> (v = [] \<or> \<not> is_optional_white_space (hd v))
      \<and> ws @ v \<noteq> [] \<and> list_all is_valid_field_content v
      \<and> ?h = \<lparr>hd_name = normalize_header_name name, hd_value = latin1_string v\<rparr>"
    by (intro exI [of _ "''host''"] exI [of _ "[SP]"] exI [of _ "''a''"])
      (use tok f in \<open>simp add: is_optional_white_space_def\<close>)
  moreover have "''host: a'' = take (length (''host: a'' @ crlf) - 2) (''host: a'' @ crlf)" by simp
  ultimately have "parse_header_line (''host: a'' @ crlf) = Ok (Some ?h)"
    using parse_header_line_spec [of "''host: a'' @ crlf" "''host: a''" ?h] by simp
  moreover have "normalize_header_name ''host'' = ''Host''" "latin1_string ''a'' = ''a''" by code_simp+
  ultimately show "parse_header_line (''host: a'' @ crlf) = Ok (Some \<lparr>hd_name = ''Host'', hd_value = ''a''\<rparr>)"
    by simp
  show "parse_header_line (''host'' @ crlf) = Panic"
    using tok parse_header_line_spec [of "''host'' @ crlf" "''host''"] by simp
qed

text \<open>
  C20. A collection of well-formed headers survives the wire: written to a byte sink, whatever
  the iteration order of the map and however the sink takes the bytes, and read back from any
  byte source that delivers what was written, however the bytes arrive, it has the same values
  for every name, and exactly the rest of the input is left.
\<close>

theorem headers_roundtrip:
  assumes "byte_source rd content ok retries" and "byte_sink wr appended wok wretries"
    and "iteration_order it" and "headers_ok hs" and "wok w"
  shows "\<exists>w' text. headers_write it wr hs w = Some (Ok (), w') \<and> appended w text w'
    \<and> (\<forall>b post. ok (br_src b) \<longrightarrow> br_content content b = text @ post \<longrightarrow>
         (\<exists>b' hs'. headers_read_from rd b = Some (Ok hs', b') \<and> headers_get hs' = headers_get hs
            \<and> br_content content b' = post))"
proof -
  obtain w' where "headers_write it wr hs w = Some (Ok (), w')"
    "appended w (headers_text (it (header_map hs))) w'"
    using byte_sink.headers_write_ok [OF assms(2,5)] by blast
  then show ?thesis
    using headers_text_read [OF assms(1,4,3)] by blast
qed

theorem headers_roundtrip_witness:
  "\<exists>w' b' hs'. headers_write rev vec_write
       \<lparr>header_map = [(''Host'', [''a'']), (''Via'', [''b'', ''c''])]\<rparr> [] = Some (Ok (), w')
     \<and> headers_read_from cursor_read (bufreader_new w') = Some (Ok hs', b')
     \<and> headers_get hs' ''Via'' = Some [''b'', ''c'']"
proof -
  let ?hs = "\<lparr>header_map = [(''Host'', [''a'']), (''Via'', [''b'', ''c''])]\<rparr>"
  have ok: "headers_ok ?hs" by code_simp
  obtain w' t where w: "headers_write rev vec_write ?hs [] = Some (Ok (), w')" "w' = [] @ t"
    and rd: "\<forall>b post. br_content (\<lambda>s. s) b = t @ post \<longrightarrow> (\<exists>b' hs'.
        headers_read_from cursor_read b = Some (Ok hs', b') \<and> headers_get hs' = headers_get ?hs
        \<and> br_content (\<lambda>s. s) b' = post)"
    using headers_roundtrip [OF cursor.byte_source_axioms vec.byte_sink_axioms iteration_order_rev ok,
        of "[]"] by auto
  have "br_content (\<lambda>s. s) (bufreader_new w') = t @ []" using w(2) by simp
  with rd obtain b' hs' where "headers_read_from cursor_read (bufreader_new w') = Some (Ok hs', b')"
    "headers_get hs' = headers_get ?hs" by blast
  moreover have "headers_get ?hs ''Via'' = Some [''b'', ''c'']" by (simp add: headers_get_def hm_get_simps)
  ultimately show ?thesis using w(1) by auto
qed

text \<open>
  Reading one header line from bytes in memory returns exactly when they contain a line end;
  otherwise the loop at the end of the input never does (it is not bounded by any error).
\<close>

theorem header_read_returns_iff:
  "header_read_from cursor_read (bufreader_new s) = None \<longleftrightarrow> \<not> has_crlf s"
proof
  assume none: "header_read_from cursor_read (bufreader_new s) = None"
  show "\<not> has_crlf s"
  proof
    assume "has_crlf s"
    then obtain p post where "s = p @ crlf @ post" "\<not> has_crlf (p @ [CR])"
      using has_crlf_first by blast
    then show False
      using cursor.header_read_line [where b = "bufreader_new s" and p = p and post = post] none by auto
  qed
next
  assume "\<not> has_crlf s"
  then have "read_line_loop cursor_read [] (bufreader_new s) = None"
    using cursor.read_line_loop_diverges [where b = "bufreader_new s" and acc = "[]"] by simp
  then show "header_read_from cursor_read (bufreader_new s) = None"
    by (simp add: header_read_from_def and_then_None)
qed

text \<open>
  Normalising a header name changes the case of letters only and is idempotent; it does not
  lower the remaining letters, so two names that differ in case only can stay different.
\<close>

theorem normalize_header_name_spec:
  "map to_ascii_lowercase (normalize_header_name n) = map to_ascii_lowercase n
   \<and> normalize_header_name (normalize_header_name n) = normalize_header_name n
   \<and> normalize_header_name ''content-length'' = ''Content-Length''
   \<and> normalize_header_name ''CONTENT-LENGTH'' \<noteq> ''Content-Length''"
proof (intro conjI)
  show "normalize_header_name ''content-length'' = ''Content-Length''" by code_simp
  show "normalize_header_name ''CONTENT-LENGTH'' \<noteq> ''Content-Length''" by code_simp
qed (simp_all add: normalize_header_name_def normalize_name_loop_lower)



end
