(* ===== verification/Http_Body.thy ===== *)
theory Http_Body
  imports Headers "HOL-Library.Word"
begin

text \<open>
  The body of a message (\<^verbatim>\<open>Body\<close> in \<^verbatim>\<open>http/mod.rs\<close>): its construction, its
  extraction from a reader given the headers (every error branch), reading, draining and
  writing it. The \<^verbatim>\<open>mime\<close> crate is not under the sources: its parser, its text and the
  constant \<^verbatim>\<open>TEXT_PLAIN\<close> are the fields of a record that the definitions take, with the
  \<^verbatim>\<open>Debug\<close> text of a list of strings, which only appears inside an error message.
\<close>

type_synonym u64 = "64 word"

record 'm externals =
  mime_parse :: "string \<Rightarrow> ('m, string) res"
  mime_text :: "'m \<Rightarrow> string"
  mime_text_plain :: 'm
  debug_strings :: "string list \<Rightarrow> string"

section \<open>Data\<close>

record ('m, 'r) body =
  content_type :: "'m option"
  content_length :: u64
  body_content :: 'r
  bytes_read :: u64

definition body_new :: "'m option \<Rightarrow> u64 \<Rightarrow> 'r \<Rightarrow> ('m, 'r) body" where
  "body_new ct len c =
     \<lparr>content_type = ct, content_length = len, body_content = c, bytes_read = 0\<rparr>"

text \<open>\<^verbatim>\<open>IntoBody for String\<close> and \<^verbatim>\<open>&str\<close>, \<^verbatim>\<open>From<&str> for Body\<close>: a cursor.\<close>

definition body_from_string :: "string \<Rightarrow> 'm \<Rightarrow> ('m, byte list) body" where
  "body_from_string s mime_type = body_new (Some mime_type) (of_nat (length s)) s"

definition body_from_str :: "string \<Rightarrow> 'm \<Rightarrow> ('m, byte list) body" where
  "body_from_str s mime_type = (let content = s in body_from_string content mime_type)"

text \<open>\<^verbatim>\<open>Body::from\<close>, for the string types.\<close>

definition body_from :: "string \<Rightarrow> 'm \<Rightarrow> ('m, byte list) body" where
  "body_from f mime_type = body_from_string f mime_type"

definition body_of_str :: "'m externals \<Rightarrow> string \<Rightarrow> ('m, byte list) body" where
  "body_of_str ext s = body_new (Some (mime_text_plain ext)) (of_nat (length s)) s"

section \<open>The body of a message being read\<close>

definition transfer_encoding_check :: "headers \<Rightarrow> (unit, http_error) res" where
  "transfer_encoding_check hs =
     (case headers_get hs ''Transfer-Encoding'' of
        None \<Rightarrow> Ok ()
      | Some encoding \<Rightarrow>
          if length encoding \<noteq> 1 then Err (Unknown ''invalid Transfer-Encoding header'')
          else if encoding ! 0 \<noteq> ''identity''
          then Err (Unknown (''Transfer-Encoding: '' @ encoding ! 0 @ '' is not supported''))
          else Ok ())"

definition body_mime :: "'m externals \<Rightarrow> headers \<Rightarrow> ('m option, http_error) res" where
  "body_mime ext hs =
     (case headers_get hs ''Content-Type'' of
        None \<Rightarrow> Ok None
      | Some types \<Rightarrow>
          if types = [] then Err (Unknown (''invalid Content-Type header, '' @ debug_strings ext types))
          else (case mime_parse ext (types ! 0) of
                  Ok t \<Rightarrow> Ok (Some t)
                | Err err \<Rightarrow>
                    Err (Unknown (''invalid Content-Type header, '' @ debug_strings ext types @ '', '' @ err))
                | Panic \<Rightarrow> Panic))"

text \<open>The reader moves into the body, behind a limit.\<close>

definition body_read_from ::
  "'m externals \<Rightarrow> headers \<Rightarrow> 'r \<Rightarrow> (('m, 'r take_reader) body option, http_error) res" where
  "body_read_from ext hs from =
     (case transfer_encoding_check hs of
        Err e \<Rightarrow> Err e
      | Panic \<Rightarrow> Panic
      | Ok _ \<Rightarrow>
        (case headers_get hs ''Content-Length'' of
           None \<Rightarrow> Ok None
         | Some lengths \<Rightarrow>
             if length lengths \<noteq> 1 then Err (Unknown ''invalid Content-Length header'')
             else
               (case parse_usize (lengths ! 0) of
                  Err err \<Rightarrow> Err (Unknown (''invalid Content-Length header, '' @ parse_int_error_msg err))
                | Panic \<Rightarrow> Panic
                | Ok len \<Rightarrow>
                    if len = 0 then Ok None
                    else
                      (case body_mime ext hs of
                         Err e \<Rightarrow> Err e
                       | Panic \<Rightarrow> Panic
                       | Ok mime \<Rightarrow>
                           Ok (Some \<lparr>content_type = mime, content_length = of_nat len,
                             body_content = \<lparr>tk_inner = from, tk_limit = len\<rparr>, bytes_read = 0\<rparr>)))))"

section \<open>Reading, draining and writing a body\<close>

text \<open>\<^verbatim>\<open>impl Read for Body\<close> counts the bytes it delivers.\<close>

definition body_read :: "'r reader \<Rightarrow> ('m, 'r) body reader" where
  "body_read rd n b =
     (case rd n (body_content b) of
        None \<Rightarrow> None
      | Some (r, c) \<Rightarrow>
          (case r of
             Ok bs \<Rightarrow> Some (Ok bs, b\<lparr>body_content := c, bytes_read := bytes_read b + of_nat (length bs)\<rparr>)
           | Err e \<Rightarrow> Some (Err e, b\<lparr>body_content := c\<rparr>)
           | Panic \<Rightarrow> Some (Panic, b\<lparr>body_content := c\<rparr>)))"

text \<open>
  \<^verbatim>\<open>ensure_read\<close> copies what is missing, by the count, into a sink, through a limit on the
  content; the subtraction is on 64 bits.
\<close>

definition body_ensure_read :: "'r reader \<Rightarrow> (('m, 'r) body, unit, http_error) prog" where
  "body_ensure_read rd b =
     (if bytes_read b = content_length b then Some (Ok (), b)
      else
        let n = content_length b - bytes_read b in
        (case io_copy (take_read rd) sink_write (\<lparr>tk_inner = body_content b, tk_limit = unat n\<rparr>, ()) of
           None \<Rightarrow> None
         | Some (r, (t, _)) \<Rightarrow>
             Some (case r of Ok _ \<Rightarrow> Ok () | Err err \<Rightarrow> Err (http_error_from_io err) | Panic \<Rightarrow> Panic,
                   b\<lparr>body_content := tk_inner t\<rparr>)))"

definition big_body :: u64 where
  "big_body = 2 ^ 20 * 2"

definition body_write :: "'r reader \<Rightarrow> 'w writer \<Rightarrow> (('m, 'r) body \<times> 'w, unit, http_error) prog" where
  "body_write rd wr st =
     (let b = fst st; w = snd st in
      case (if big_body < content_length b
            then copy_through_bufwriter rd wr (2 ^ 20) (body_content b, w)
            else io_copy rd wr (body_content b, w)) of
        None \<Rightarrow> None
      | Some (r, (c, w')) \<Rightarrow>
          Some (case r of Err err \<Rightarrow> Err (Unknown (io_msg err)) | Ok _ \<Rightarrow> Ok () | Panic \<Rightarrow> Panic,
                (b\<lparr>body_content := c\<rparr>, w')))"

section \<open>What they do on well-behaved readers and writers\<close>

lemma unat_of_nat_u64 [simp]: "n < 2 ^ 64 \<Longrightarrow> unat (of_nat n :: u64) = n"
  by (simp add: unat_of_nat)

context copying
begin

lemma body_write_ok:
  fixes b :: "('m, 'r) body"
  assumes "ok (body_content b)" and "wok w"
  shows "\<exists>c w'. body_write rd wr (b, w) = Some (Ok (), (b\<lparr>body_content := c\<rparr>, w'))
    \<and> content c = [] \<and> ok c \<and> appended w (content (body_content b)) w' \<and> wok w'"
proof -
  have cap: "buf_capacity \<le> 2 ^ 20" by (simp add: buf_capacity_def)
  show ?thesis
    using io_copy_ok [OF assms] copy_through_bufwriter_ok [OF cap assms]
    by (auto simp: body_write_def Let_def)
qed

end

text \<open>
  A body that was read from a message: the limit is what is missing, and the count never passes
  the length; \<open>rest\<close> is what follows the body on the connection. Reading through the body or
  directly from its public content keeps this.
\<close>

definition body_limited :: "('m, 'r take_reader) body \<Rightarrow> bool" where
  "body_limited b \<longleftrightarrow> bytes_read b \<le> content_length b
     \<and> tk_limit (body_content b) \<le> unat (content_length b - bytes_read b)"

definition framed :: "('r \<Rightarrow> byte list) \<Rightarrow> ('r \<Rightarrow> bool) \<Rightarrow> byte list \<Rightarrow> 'r take_reader \<Rightarrow> bool" where
  "framed content ok rest t \<longleftrightarrow> ok (tk_inner t) \<and> tk_limit t \<le> length (content (tk_inner t))
     \<and> drop (tk_limit t) (content (tk_inner t)) = rest"

text \<open>What a handler can do with the body: read it, or read its content.\<close>

inductive body_used :: "'r reader \<Rightarrow> ('m, 'r) body \<Rightarrow> ('m, 'r) body \<Rightarrow> bool"
  for rd :: "'r reader" and b0 :: "('m, 'r) body" where
  unused: "body_used rd b0 b0"
| read_body: "body_used rd b0 b \<Longrightarrow> 0 < n \<Longrightarrow> body_read rd n b = Some (r, b') \<Longrightarrow> body_used rd b0 b'"
| read_content: "body_used rd b0 b \<Longrightarrow> 0 < n \<Longrightarrow> rd n (body_content b) = Some (r, c)
    \<Longrightarrow> body_used rd b0 (b\<lparr>body_content := c\<rparr>)"

lemma body_read_from_limited:
  assumes "body_read_from ext hs from = Ok (Some b)"
  shows "body_limited b \<and> 0 < unat (content_length b) \<and> bytes_read b = 0
    \<and> body_content b = \<lparr>tk_inner = from, tk_limit = unat (content_length b)\<rparr>"
  using assms
  by (auto simp: body_read_from_def body_limited_def dest!: parse_usize_bound
      split: res.splits option.splits if_splits)

lemma body_read_from_length:
  assumes "body_read_from ext hs from = Ok (Some b)"
  shows "\<exists>v. headers_get hs ''Content-Length'' = Some [v] \<and> parse_usize v = Ok (unat (content_length b))"
proof -
  obtain vs len where vs: "headers_get hs ''Content-Length'' = Some vs" "length vs = 1" "parse_usize (vs ! 0) = Ok len"
    "content_length b = of_nat len"
    using assms by (auto simp: body_read_from_def split: res.splits option.splits if_splits)
  moreover have "unat (of_nat len :: u64) = len" using parse_usize_bound [OF vs(3)] by (simp add: unat_of_nat_u64)
  ultimately show ?thesis by (cases vs) auto
qed

lemma count_within:
  fixes have_read len :: u64
  assumes "have_read \<le> len" and "k \<le> unat (len - have_read)"
  shows "have_read + of_nat k \<le> len \<and> unat (len - (have_read + of_nat k)) = unat (len - have_read) - k"
proof -
  have k: "k + unat have_read \<le> unat len" using assms by (simp add: unat_sub word_le_nat_alt)
  moreover have "unat len < 2 ^ 64" using unsigned_less [of len] by simp
  ultimately have "unat (have_read + of_nat k) = unat have_read + k"
    by (simp add: unat_word_ariths)
  with k show ?thesis
    using assms(1) by (simp add: word_le_nat_alt unat_sub)
qed

text \<open>One read of the limited content, whatever it returns.\<close>

lemma take_read_bound:
  assumes "take_read rd n t = Some (Ok bs, t')" and "\<And>s bs s' k. rd k s = Some (Ok bs, s') \<Longrightarrow> length bs \<le> k"
  shows "length bs \<le> tk_limit t \<and> tk_limit t' = tk_limit t - length bs"
  using assms(1)
  by (auto simp: take_read_def split: if_splits option.splits prod.splits res.splits dest: assms(2))

context byte_source
begin

lemma framed_read:
  assumes "framed content ok rest t" and "0 < n" and "take_read rd n t = Some (r, t')"
  shows "framed content ok rest t' \<and>
    ((\<exists>bs. r = Ok bs \<and> length bs \<le> tk_limit t \<and> tk_limit t' = tk_limit t - length bs)
     \<or> (\<exists>e. r = Err e \<and> tk_limit t' = tk_limit t))"
proof (cases "tk_limit t = 0")
  case True
  then show ?thesis using assms by (auto simp: take_read_def)
next
  case False
  let ?n = "min n (tk_limit t)"
  have "ok (tk_inner t)" "0 < ?n" "content (tk_inner t) \<noteq> []"
    using assms(1,2) False by (auto simp: framed_def)
  from read_data [OF this] show ?thesis
    using False assms(1,3) by (elim disjE exE conjE) (auto simp: framed_def take_read_def)
qed

lemma body_used_limited:
  fixes b :: "('m, 's take_reader) body"
  assumes "body_used (take_read rd) b0 b"
    and "framed content ok rest (body_content b0)" and "body_limited b0"
  shows "framed content ok rest (body_content b) \<and> body_limited b"
  using assms
proof (induction rule: body_used.induct)
  case (read_body b n r b')
  then obtain r' c where c: "take_read rd n (body_content b) = Some (r', c)"
    by (auto simp: body_read_def split: option.splits)
  have inv: "framed content ok rest (body_content b)" "body_limited b" using read_body by auto
  from framed_read [OF inv(1) read_body.hyps(2) c]
  consider bs where "r' = Ok bs" "length bs \<le> tk_limit (body_content b)"
      "tk_limit c = tk_limit (body_content b) - length bs" "framed content ok rest c"
    | e where "r' = Err e" "tk_limit c = tk_limit (body_content b)" "framed content ok rest c"
    by blast
  then show ?case
  proof cases
    case 1
    then have b': "b' = b\<lparr>body_content := c, bytes_read := bytes_read b + of_nat (length bs)\<rparr>"
      using read_body.hyps(3) c by (simp add: body_read_def)
    have "length bs \<le> unat (content_length b - bytes_read b)"
      using 1 inv(2) by (simp add: body_limited_def)
    from count_within [OF _ this] 1 inv(2) show ?thesis
      by (auto simp: b' body_limited_def)
  qed (use read_body.hyps(3) c inv(2) in \<open>auto simp: body_read_def body_limited_def\<close>)
next
  case (read_content b n r c)
  then have inv: "framed content ok rest (body_content b)" "body_limited b" by auto
  from framed_read [OF inv(1) read_content.hyps(2,3)] inv(2) show ?case
    by (auto simp: body_limited_def)
qed simp

text \<open>Draining leaves exactly the rest.\<close>

lemma ensure_read_drains:
  fixes b :: "('m, 's take_reader) body"
  assumes "framed content ok rest (body_content b)" and "body_limited b"
  shows "\<exists>b'. body_ensure_read (take_read rd) b = Some (Ok (), b')
    \<and> content (tk_inner (body_content b')) = rest \<and> ok (tk_inner (body_content b'))"
proof (cases "bytes_read b = content_length b")
  case True
  then show ?thesis using assms by (auto simp: body_ensure_read_def framed_def body_limited_def)
next
  case False
  let ?n = "content_length b - bytes_read b" and ?t = "body_content b"
  note src = take_source [of rest]
  note wide = eof_source.wide_take_source [OF src]
  from copying.io_copy_ok [OF copying.intro [OF wide sink.byte_sink_axioms],
      of "\<lparr>tk_inner = ?t, tk_limit = unat ?n\<rparr>" "()"]
  obtain t where t: "io_copy (take_read (take_read rd)) sink_write (\<lparr>tk_inner = ?t, tk_limit = unat ?n\<rparr>, ())
      = Some (Ok (length (take (tk_limit ?t) (content (tk_inner ?t)))), (t, ()))"
    "take (tk_limit (tk_inner t)) (content (tk_inner (tk_inner t))) = []"
    "ok (tk_inner (tk_inner t))" "tk_limit (tk_inner t) \<le> length (content (tk_inner (tk_inner t)))"
    "drop (tk_limit (tk_inner t)) (content (tk_inner (tk_inner t))) = rest"
    using assms by (auto simp: framed_def body_limited_def)
  then have "content (tk_inner (tk_inner t)) = rest" by auto
  with t False show ?thesis by (auto simp: body_ensure_read_def Let_def)
qed

end

text \<open>An instance of the parameters, for concrete inputs: a type is its own text.\<close>

definition text_externals :: "string externals" where
  "text_externals = \<lparr>mime_parse = Ok, mime_text = \<lambda>t. t, mime_text_plain = ''text/plain'',
     debug_strings = \<lambda>_. ''[]''\<rparr>"

section \<open>Properties\<close>

text \<open>
  C18. A body read from a message frames the connection: whatever the handler read of it, through
  the body or through its content, and however the bytes arrived, draining it succeeds and leaves
  on the connection exactly the bytes that follow the announced length; the count of bytes
  read never passes that length.
\<close>

theorem body_drain_exact:
  assumes "byte_source rd content ok retries" and "ok src"
    and "body_read_from ext hs src = Ok (Some b0)"
    and "unat (content_length b0) \<le> length (content src)"
    and "body_used (take_read rd) b0 b"
  shows "bytes_read b \<le> content_length b
    \<and> (\<exists>b'. body_ensure_read (take_read rd) b = Some (Ok (), b')
         \<and> content (tk_inner (body_content b')) = drop (unat (content_length b0)) (content src))"
proof -
  let ?rest = "drop (unat (content_length b0)) (content src)"
  have "framed content ok ?rest (body_content b0)" "body_limited b0"
    using body_read_from_limited [OF assms(3)] assms(2,4) by (auto simp: framed_def)
  from byte_source.body_used_limited [OF assms(1,5) this]
  show ?thesis
    using byte_source.ensure_read_drains [OF assms(1), of ?rest b] by (auto simp: body_limited_def)
qed

theorem body_drain_exact_witness:
  "\<exists>b b'. body_read_from text_externals \<lparr>header_map = [(''Content-Length'', [''3''])]\<rparr> ''abcGET'' = Ok (Some b)
     \<and> body_ensure_read (take_read cursor_read) b = Some (Ok (), b')
     \<and> tk_inner (body_content b') = ''GET''"
proof -
  let ?hs = "\<lparr>header_map = [(''Content-Length'', [''3''])]\<rparr>"
  let ?b = "\<lparr>content_type = None, content_length = 3,
        body_content = \<lparr>tk_inner = ''abcGET'', tk_limit = 3\<rparr>, bytes_read = 0\<rparr>"
  have "show_nat 3 = ''3''" by code_simp
  then have p: "parse_usize ''3'' = Ok 3" using parse_uint_show [of 3 "2 ^ 64"] by (simp add: parse_usize_def)
  have b: "body_read_from text_externals ?hs ''abcGET'' = Ok (Some ?b)"
    by (simp add: body_read_from_def transfer_encoding_check_def body_mime_def headers_get_def
        hm_get_simps p)
  from body_drain_exact [OF cursor.byte_source_axioms _ b _ body_used.unused]
  show ?thesis using b by auto
qed

end
