(* ===== verification/Http_Message.thy ===== *)
theory Http_Message
  imports Http_Body
begin

text \<open>
  Requests and responses (\<^verbatim>\<open>Request\<close>, \<^verbatim>\<open>Response\<close> and their start lines in
  \<^verbatim>\<open>http/mod.rs\<close>): reading them from a source, writing them to a sink, constructing
  them, the persistence of a connection; then the text of a message and the round trips.
\<close>

section \<open>Start lines\<close>

record request_line =
  rl_method :: http_method
  rl_uri :: string
  rl_version :: string

text \<open>The \<^verbatim>\<open>Debug\<close> text of a vector of bytes, in an error message.\<close>

fun debug_items :: "byte list \<Rightarrow> string" where
  "debug_items [] = []"
| "debug_items [c] = show_nat (code c)"
| "debug_items (c # d # cs) = show_nat (code c) @ '', '' @ debug_items (d # cs)"

definition debug_bytes :: "byte list \<Rightarrow> string" where
  "debug_bytes bs = ''['' @ debug_items bs @ '']''"

definition request_line_error :: http_error where
  "request_line_error = InvalidRequest ''invalid request line''"

definition request_line_read :: "'s reader \<Rightarrow> ('s bufreader, request_line, http_error) prog" where
  "request_line_read rd =
     and_then (map_err http_error_from_io (read_until rd SP [])) (\<lambda>m.
       if m = [] then fail ConnectionClosed
       else if length m < 2 then fail (InvalidRequest (''invalid request line '' @ debug_bytes m))
       else (case method_from_str (from_utf8_lossy (take (length m - 1) m)) of
           Err err \<Rightarrow> fail (InvalidRequest err)
         | Panic \<Rightarrow> panic
         | Ok meth \<Rightarrow>
             and_then (map_err unknown_io (read_until rd SP [])) (\<lambda>u.
               if length u < 2 then fail request_line_error
               else
                 let uri = from_utf8_lossy (take (length u - 1) u) in
                 and_then (map_err http_error_from_io (read_until rd LF [])) (\<lambda>v.
                   if length v < 3 then fail request_line_error
                   else if v ! (length v - 2) \<noteq> CR then fail request_line_error
                   else
                     ret \<lparr>rl_method = meth, rl_uri = uri,
                       rl_version = from_utf8_lossy (take (length v - 2) v)\<rparr>))))"

text \<open>One \<^verbatim>\<open>write\<close> of the line; the number of bytes it took is ignored.\<close>

definition request_line_write :: "'w writer \<Rightarrow> request_line \<Rightarrow> ('w, unit, http_error) prog" where
  "request_line_write wr rl =
     (let line = method_to_string (rl_method rl) @ SP # rl_uri rl @ SP # rl_version rl @ crlf in
      and_then (map_err http_error_from_io (wr line)) (\<lambda>_. ret ()))"

record response_line =
  sl_version :: string
  sl_status :: status_code
  sl_reason :: string

definition invalid_version :: "string \<Rightarrow> http_error" where
  "invalid_version v = Unknown (''invalid http version: '' @ v)"

definition validate_version :: "string \<Rightarrow> (unit, http_error) res" where
  "validate_version v =
     (let parts = split_on (CHR ''/'') v in
      if length parts \<noteq> 2 then Err (invalid_version v)
      else if parts ! 0 \<noteq> ''HTTP'' then Err (invalid_version v)
      else
        let digits = split_on (CHR ''.'') (parts ! 1) in
        if length digits \<noteq> 2 then Err (invalid_version v)
        else (case parse_u8 (digits ! 0) of
            Err e \<Rightarrow> Err (Unknown (''invalid http version: '' @ v @ '' '' @ parse_int_error_msg e))
          | Panic \<Rightarrow> Panic
          | Ok _ \<Rightarrow>
              (case parse_u8 (digits ! 1) of
                 Err e \<Rightarrow> Err (Unknown (''invalid http version: '' @ v @ '' '' @ parse_int_error_msg e))
               | Panic \<Rightarrow> Panic
               | Ok _ \<Rightarrow> Ok ())))"

definition timeout_or_unknown :: "io_error \<Rightarrow> http_error" where
  "timeout_or_unknown err = (if io_kind err = TimedOut then Timeout else Unknown (io_msg err))"

definition response_line_read :: "'s reader \<Rightarrow> ('s bufreader, response_line, http_error) prog" where
  "response_line_read rd =
     and_then (map_err timeout_or_unknown (read_until rd SP [])) (\<lambda>v.
       if v = [] then fail ConnectionClosed
       else
         let version = trim_end (from_utf8_lossy v) in
         and_then (of_res (validate_version version)) (\<lambda>_.
         and_then (map_err unknown_io (read_until rd SP [])) (\<lambda>c.
           let code = from_utf8_lossy c in
           if length code \<noteq> 4 then fail (Unknown (''invalid status code: '' @ code))
           else (case parse_usize (trim_end code) of
               Err e \<Rightarrow> fail (Unknown (parse_int_error_msg e))
             | Panic \<Rightarrow> panic
             | Ok n \<Rightarrow>
                 and_then (map_err unknown_io (read_until rd LF [])) (\<lambda>r.
                   if length r < 3 then fail (Unknown ''invalid reason phrase'')
                   else ret \<lparr>sl_version = version, sl_status = status_from_usize n,
                     sl_reason = from_utf8_lossy (take (length r - 2) r)\<rparr>)))))"

definition response_line_write :: "'w writer \<Rightarrow> response_line \<Rightarrow> ('w, unit, http_error) prog" where
  "response_line_write wr sl =
     (let payload = sl_version sl @ SP # status_display (sl_status sl) @ crlf in
      and_then (map_err unknown_io (wr payload)) (\<lambda>_. ret ()))"

section \<open>Messages\<close>

record ('m, 'r) request =
  rq_method :: http_method
  rq_uri :: string
  rq_version :: string
  rq_headers :: headers
  rq_body :: "('m, 'r) body option"

record ('m, 'r) response =
  rs_status :: status_code
  rs_headers :: headers
  rs_body :: "('m, 'r) body option"

text \<open>
  The reader that wraps \<^verbatim>\<open>from\<close> ends up in the body, if there is one; the state returned
  beside the result is that reader, so that what is left on the source stays visible.
\<close>

definition request_read_buffered :: "'m externals \<Rightarrow> 's reader
    \<Rightarrow> ('s bufreader, ('m, 's bufreader take_reader) request, http_error) prog" where
  "request_read_buffered ext rd =
     and_then (request_line_read rd) (\<lambda>rl.
     and_then (headers_read_from rd) (\<lambda>hs b.
       and_then (of_res (body_read_from ext hs b)) (\<lambda>body.
         ret \<lparr>rq_method = rl_method rl, rq_uri = rl_uri rl, rq_version = rl_version rl,
           rq_headers = hs, rq_body = body\<rparr>) b))"

definition request_read_from :: "'m externals \<Rightarrow> 's reader \<Rightarrow> 's
    \<Rightarrow> ((('m, 's bufreader take_reader) request, http_error) res \<times> 's bufreader) option" where
  "request_read_from ext rd from = request_read_buffered ext rd (bufreader_new from)"

definition request_read_from_str :: "'m externals \<Rightarrow> string
    \<Rightarrow> ((('m, byte list bufreader take_reader) request, http_error) res \<times> byte list bufreader) option" where
  "request_read_from_str ext s = request_read_from ext cursor_read s"

definition response_read_from :: "'m externals \<Rightarrow> 's reader \<Rightarrow> 's
    \<Rightarrow> ((('m, 's bufreader take_reader) response, http_error) res \<times> 's bufreader) option" where
  "response_read_from ext rd from =
     and_then (response_line_read rd) (\<lambda>sl.
     and_then (headers_read_from rd) (\<lambda>hs b.
       and_then (of_res (body_read_from ext hs b)) (\<lambda>body.
         ret \<lparr>rs_status = sl_status sl, rs_headers = hs, rs_body = body\<rparr>) b)) (bufreader_new from)"

text \<open>Headers and body of a message being written; without a body, a zero length is announced.\<close>

definition content_length_zero :: header where
  "content_length_zero = \<lparr>hd_name = ''Content-Length'', hd_value = ''0''\<rparr>"

definition ensure_length_header :: "('m, 'r) body option \<Rightarrow> headers \<Rightarrow> headers" where
  "ensure_length_header body hs =
     (case body of None \<Rightarrow> headers_add content_length_zero hs | Some _ \<Rightarrow> hs)"

definition body_option_write ::
  "'r reader \<Rightarrow> 'w writer \<Rightarrow> (('m, 'r) body option \<times> 'w, unit, http_error) prog" where
  "body_option_write rd wr st =
     (case fst st of
        None \<Rightarrow> Some (Ok (), st)
      | Some b \<Rightarrow> (case body_write rd wr (b, snd st) of
            None \<Rightarrow> None
          | Some (r, (b', w')) \<Rightarrow> Some (r, (Some b', w'))))"

type_synonym entry_order = "(string, string list) hash_map \<Rightarrow> (string, string list) hash_map"

text \<open>\<^verbatim>\<open>Request::write\<close> consumes the request; what remains of it is dropped.\<close>

definition request_write :: "entry_order \<Rightarrow> 'r reader \<Rightarrow> 'w writer
    \<Rightarrow> (('m, 'r) request \<times> 'w, unit, http_error) prog" where
  "request_write it rd wr st =
     (let q = fst st; hs = ensure_length_header (rq_body q) (rq_headers q) in
      case request_line_write wr
             \<lparr>rl_method = rq_method q, rl_uri = rq_uri q, rl_version = rq_version q\<rparr> (snd st) of
        None \<Rightarrow> None
      | Some (Err e, w1) \<Rightarrow> Some (Err e, (q, w1))
      | Some (Panic, w1) \<Rightarrow> Some (Panic, (q, w1))
      | Some (Ok _, w1) \<Rightarrow>
          (case headers_write it wr hs w1 of
             None \<Rightarrow> None
           | Some (Err e, w2) \<Rightarrow> Some (Err e, (q\<lparr>rq_headers := hs\<rparr>, w2))
           | Some (Panic, w2) \<Rightarrow> Some (Panic, (q\<lparr>rq_headers := hs\<rparr>, w2))
           | Some (Ok _, w2) \<Rightarrow>
               (case body_option_write rd wr (rq_body q, w2) of
                  None \<Rightarrow> None
                | Some (r, (b, w3)) \<Rightarrow> Some (r, (q\<lparr>rq_headers := hs, rq_body := b\<rparr>, w3)))))"

definition response_write :: "entry_order \<Rightarrow> 'r reader \<Rightarrow> 'w writer
    \<Rightarrow> (('m, 'r) response \<times> 'w, unit, http_error) prog" where
  "response_write it rd wr st =
     (let p = fst st; hs = ensure_length_header (rs_body p) (rs_headers p) in
      case response_line_write wr
             \<lparr>sl_version = version_to_string HTTP1_1, sl_status = status_clone (rs_status p),
              sl_reason = string_from_status (status_clone (rs_status p))\<rparr> (snd st) of
        None \<Rightarrow> None
      | Some (Err e, w1) \<Rightarrow> Some (Err e, (p, w1))
      | Some (Panic, w1) \<Rightarrow> Some (Panic, (p, w1))
      | Some (Ok _, w1) \<Rightarrow>
          (case headers_write it wr hs w1 of
             None \<Rightarrow> None
           | Some (Err e, w2) \<Rightarrow> Some (Err e, (p\<lparr>rs_headers := hs\<rparr>, w2))
           | Some (Panic, w2) \<Rightarrow> Some (Panic, (p\<lparr>rs_headers := hs\<rparr>, w2))
           | Some (Ok _, w2) \<Rightarrow>
               (case body_option_write rd wr (rs_body p, w2) of
                  None \<Rightarrow> None
                | Some (r, (b, w3)) \<Rightarrow> Some (r, (p\<lparr>rs_headers := hs, rs_body := b\<rparr>, w3)))))"

section \<open>Constructors\<close>

definition request_from_body :: "'m externals \<Rightarrow> ('m, 'r) body \<Rightarrow> http_method \<Rightarrow> string \<Rightarrow> ('m, 'r) request" where
  "request_from_body ext b meth path =
     (let hs0 = headers_new;
          hs1 = (case content_type b of
                   None \<Rightarrow> hs0
                 | Some t \<Rightarrow> headers_add \<lparr>hd_name = ''Content-Type'', hd_value = mime_text ext t\<rparr> hs0);
          hs2 = (if content_length b \<noteq> 0
                 then headers_add \<lparr>hd_name = ''Content-Length'', hd_value = show_nat (unat (content_length b))\<rparr> hs1
                 else hs1)
      in \<lparr>rq_method = meth, rq_uri = path, rq_version = version_to_string HTTP1_1,
          rq_headers = hs2, rq_body = Some b\<rparr>)"

text \<open>\<^verbatim>\<open>IntoRequest\<close> and \<^verbatim>\<open>Request::from\<close>, for the string types.\<close>

definition into_request :: "string \<Rightarrow> 'm \<Rightarrow> http_method \<Rightarrow> string \<Rightarrow> ('m, byte list) request" where
  "into_request f mime_type meth url =
     \<lparr>rq_method = meth, rq_uri = url, rq_version = version_to_string HTTP1_1,
      rq_headers = headers_new, rq_body = Some (body_from_string f mime_type)\<rparr>"

definition request_from :: "string \<Rightarrow> 'm \<Rightarrow> http_method \<Rightarrow> string \<Rightarrow> ('m, byte list) request" where
  "request_from f mime_type meth url = into_request f mime_type meth url"

definition response_from_status :: "status_code \<Rightarrow> ('m, 'r) response" where
  "response_from_status status = \<lparr>rs_status = status, rs_headers = headers_new, rs_body = None\<rparr>"

definition response_from_content :: "'m externals \<Rightarrow> 'r \<Rightarrow> u64 \<Rightarrow> 'm
    \<Rightarrow> ('m, 'r take_reader bufreader) response" where
  "response_from_content ext content len mime =
     (let reader = bufreader_new \<lparr>tk_inner = content, tk_limit = unat len\<rparr>;
          hs = headers_add \<lparr>hd_name = ''Content-Length'', hd_value = show_nat (unat len)\<rparr> headers_new;
          hs' = headers_add \<lparr>hd_name = ''Content-Type'', hd_value = mime_text ext mime\<rparr> hs
      in \<lparr>rs_status = OK, rs_headers = hs', rs_body = Some (body_new (Some mime) len reader)\<rparr>)"

definition response_from_str :: "'m externals \<Rightarrow> string \<Rightarrow> ('m, byte list) response" where
  "response_from_str ext content =
     \<lparr>rs_status = OK, rs_headers = headers_new,
      rs_body = Some (body_new (Some (mime_text_plain ext)) (of_nat (length content)) content)\<rparr>"

section \<open>Persistence\<close>

definition request_is_connection_persistent :: "('m, 'r) request \<Rightarrow> (bool, http_error) res" where
  "request_is_connection_persistent q =
     (case (case headers_get (rq_headers q) ''Connection'' of
              None \<Rightarrow> Some ''''
            | Some values \<Rightarrow> (if values = [] then None else Some (to_lowercase (values ! 0)))) of
        None \<Rightarrow> Panic
      | Some v \<Rightarrow>
          if v = ''close'' then Ok False
          else if rq_version q = ''HTTP/1.1'' \<or> rq_version q = ''HTTP/2'' then Ok True
          else if rq_version q = ''HTTP/1.0'' \<and> v = ''keep-alive'' then Ok True
          else Ok False)"

section \<open>The text of start lines\<close>

definition request_line_text :: "request_line \<Rightarrow> byte list" where
  "request_line_text rl = method_to_string (rl_method rl) @ SP # rl_uri rl @ SP # rl_version rl @ crlf"

definition request_line_ok :: "request_line \<Rightarrow> bool" where
  "request_line_ok rl \<longleftrightarrow> rl_uri rl \<noteq> [] \<and> SP \<notin> set (rl_uri rl) \<and> list_all is_ascii (rl_uri rl)
     \<and> rl_version rl \<noteq> [] \<and> LF \<notin> set (rl_version rl) \<and> list_all is_ascii (rl_version rl)"

definition status_line_text :: "status_code \<Rightarrow> byte list" where
  "status_line_text s = ''HTTP/1.1'' @ SP # show_nat (usize_from_status s) @ SP # reason s @ crlf"

definition three_digits :: "status_code \<Rightarrow> bool" where
  "three_digits s \<longleftrightarrow> 100 \<le> usize_from_status s \<and> usize_from_status s < 1000"

lemma method_text [simp]:
  "list_all is_ascii (method_to_string m)" "SP \<notin> set (method_to_string m)" "method_to_string m \<noteq> []"
  by (cases m; simp add: is_ascii_def code_def)+

lemma reason_text: "LF \<notin> set (reason s) \<and> reason s \<noteq> []"
  by (cases s) simp_all

lemma validate_http11 [simp]: "validate_version ''HTTP/1.1'' = Ok ()"
proof -
  have "split_on (CHR ''/'') ''HTTP/1.1'' = [''HTTP'', ''1.1'']" "split_on (CHR ''.'') ''1.1'' = [''1'', ''1'']"
    by code_simp+
  moreover have "show_nat 1 = ''1''" by code_simp
  then have "parse_u8 ''1'' = Ok 1" using parse_uint_show [of 1 256] by (simp add: parse_u8_def)
  ultimately show ?thesis by (simp add: validate_version_def)
qed

lemma lossy_http11 [simp]: "trim_end (from_utf8_lossy ''HTTP/1.1 '') = ''HTTP/1.1''"
  by code_simp

lemma digits_no_sep: "SP \<notin> set (show_nat n)"
  by (auto dest!: show_nat_digits simp: is_digit_byte_def between_def code_def)

context byte_source
begin

lemma request_line_read_ok:
  assumes "ok (br_src b)" and "br_content content b = request_line_text rl @ post"
    and "request_line_ok rl"
  shows "\<exists>b'. request_line_read rd b = Some (Ok rl, b') \<and> br_content content b' = post \<and> ok (br_src b')"
proof -
  let ?m = "method_to_string (rl_method rl)" and ?u = "rl_uri rl" and ?v = "rl_version rl"
  have r: "?u \<noteq> []" "SP \<notin> set ?u" "list_all is_ascii ?u" "?v \<noteq> []" "LF \<notin> set (?v @ [CR])"
    "list_all is_ascii ?v" using assms(3) by (auto simp: request_line_ok_def)
  obtain b1 where b1: "read_until rd SP [] b = Some (Ok (?m @ [SP]), b1)"
    "br_content content b1 = ?u @ SP # ?v @ crlf @ post" "ok (br_src b1)"
    using read_until_found [OF assms(1), where acc = "[]" and pre = ?m and d = SP
      and post = "?u @ SP # ?v @ crlf @ post"] assms(2) by (auto simp: request_line_text_def)
  obtain b2 where b2: "read_until rd SP [] b1 = Some (Ok (?u @ [SP]), b2)"
    "br_content content b2 = (?v @ [CR]) @ LF # post" "ok (br_src b2)"
    using read_until_found [OF b1(3,2) r(2), of "[]"] by auto
  obtain b3 where b3: "read_until rd LF [] b2 = Some (Ok (?v @ crlf), b3)"
    "br_content content b3 = post" "ok (br_src b3)"
    using read_until_found [OF b2(3,2) r(5), of "[]"] by auto
  have len: "\<not> length (?m @ [SP]) < 2" "\<not> length (?u @ [SP]) < 2" "\<not> length (?v @ crlf) < 3"
    using method_text(3) [of "rl_method rl"] r(1,4) by (auto simp: Suc_le_eq not_less)
  have "request_line_read rd b = Some (Ok rl, b3)"
    unfolding request_line_read_def
    using b1(1) b2(1) b3(1) len r
    by (simp add: prog_simps from_utf8_lossy_ascii Let_def)
  with b3 show ?thesis by blast
qed

lemma response_line_read_ok:
  assumes "ok (br_src b)" and "br_content content b = status_line_text s @ post" and "three_digits s"
  shows "\<exists>b' sl. response_line_read rd b = Some (Ok sl, b')
    \<and> sl_status sl = status_from_usize (usize_from_status s)
    \<and> br_content content b' = post \<and> ok (br_src b')"
proof -
  let ?n = "show_nat (usize_from_status s)"
  have n: "usize_from_status s < 2 ^ 64" "length ?n = 3"
    using assms(3) show_nat_hundreds by (auto simp: three_digits_def)
  obtain b1 where b1: "read_until rd SP [] b = Some (Ok ''HTTP/1.1 '', b1)"
    "br_content content b1 = ?n @ SP # (reason s @ crlf @ post)" "ok (br_src b1)"
    using read_until_found [OF assms(1), where acc = "[]" and pre = "''HTTP/1.1''" and d = SP
      and post = "?n @ SP # (reason s @ crlf @ post)"] assms(2) by (auto simp: status_line_text_def)
  obtain b2 where b2: "read_until rd SP [] b1 = Some (Ok (?n @ [SP]), b2)"
    "br_content content b2 = (reason s @ [CR]) @ LF # post" "ok (br_src b2)"
    using read_until_found [OF b1(3,2) digits_no_sep, of "[]"] by auto
  obtain b3 where b3: "read_until rd LF [] b2 = Some (Ok (reason s @ crlf), b3)"
    "br_content content b3 = post" "ok (br_src b3)"
    using read_until_found [OF b2(3,2), of "[]"] reason_text [of s] by auto
  have code: "from_utf8_lossy (?n @ [SP]) = ?n @ [SP]"
    by (rule from_utf8_lossy_ascii) (simp add: show_nat_ascii is_ascii_def code_def)
  have parse: "parse_usize ?n = Ok (usize_from_status s)"
    using n(1) by (simp add: parse_usize_def)
  have len: "\<not> length (reason s @ crlf) < 3"
    using reason_text [of s] by (cases "reason s") auto
  let ?sl = "\<lparr>sl_version = ''HTTP/1.1'', sl_status = status_from_usize (usize_from_status s),
    sl_reason = from_utf8_lossy (reason s)\<rparr>"
  have "response_line_read rd b = Some (Ok ?sl, b3)"
    unfolding response_line_read_def
    using b1(1) b2(1) b3(1) len n code parse
    by (simp add: prog_simps Let_def)
  with b3 show ?thesis by fastforce
qed

end

section \<open>Sending and receiving a message\<close>

definition body_bytes :: "('r \<Rightarrow> byte list) \<Rightarrow> ('m, 'r) body option \<Rightarrow> byte list" where
  "body_bytes content body = (case body of None \<Rightarrow> [] | Some b \<Rightarrow> content (body_content b))"

text \<open>The headers announce the body: its length, and its type as the receiver will parse it.\<close>

definition announces :: "'m externals \<Rightarrow> ('r \<Rightarrow> byte list) \<Rightarrow> headers \<Rightarrow> ('m, 'r) body option \<Rightarrow> bool" where
  "announces ext content hs body \<longleftrightarrow> headers_get hs ''Transfer-Encoding'' = None
     \<and> (case body of
          None \<Rightarrow> headers_get hs ''Content-Length'' = None
        | Some b \<Rightarrow> headers_get hs ''Content-Length'' = Some [show_nat (unat (content_length b))]
            \<and> length (content (body_content b)) = unat (content_length b)
            \<and> body_mime ext hs = Ok (content_type b))"

text \<open>What the receiver has: no body, or one of the announced length over the bytes sent.\<close>

definition received :: "('s \<Rightarrow> byte list) \<Rightarrow> ('r \<Rightarrow> byte list) \<Rightarrow> ('m, 'r) body option \<Rightarrow> byte list
    \<Rightarrow> ('m, 's take_reader) body option \<Rightarrow> bool" where
  "received content bcontent sent rest got \<longleftrightarrow>
     (case got of
        None \<Rightarrow> body_bytes bcontent sent = []
      | Some b \<Rightarrow> (\<exists>s. sent = Some s \<and> content_type b = content_type s
          \<and> content_length b = content_length s \<and> bytes_read b = 0
          \<and> tk_limit (body_content b) = unat (content_length s)
          \<and> content (tk_inner (body_content b)) = body_bytes bcontent sent @ rest))"

lemma show_nat_field:
  assumes "c \<in> set (show_nat n)"
  shows "is_valid_field_content c \<and> is_ascii c \<and> \<not> is_optional_white_space c"
  using show_nat_digits [OF assms]
  by (auto simp: is_digit_byte_def between_def is_valid_field_content_def is_valid_vchar_def is_ascii_def
      is_optional_white_space_def code_def)

lemma header_ok_length: "header_ok \<lparr>hd_name = ''Content-Length'', hd_value = show_nat n\<rparr>"
proof -
  have "list_all is_valid_token_char ''Content-Length''" "normalize_header_name ''Content-Length'' = ''Content-Length''"
    by code_simp+
  then show ?thesis using show_nat_field [of _ n] by (auto simp: header_ok_def list_all_iff)
qed

lemma header_ok_length_zero: "header_ok content_length_zero"
  by code_simp

lemma ensure_length_header_ok: "headers_ok hs \<Longrightarrow> headers_ok (ensure_length_header body hs)"
  by (simp add: ensure_length_header_def headers_all_add header_ok_length_zero split: option.split)

lemma ensure_length_header_get:
  "n \<noteq> ''Content-Length'' \<Longrightarrow> headers_get (ensure_length_header body hs) n = headers_get hs n"
  by (simp add: ensure_length_header_def headers_get_add content_length_zero_def split: option.split)

lemma body_read_from_cong:
  assumes "headers_get hs = headers_get hs'"
  shows "body_read_from ext hs b = body_read_from ext hs' b"
  by (simp only: body_read_from_def transfer_encoding_check_def body_mime_def assms)

lemma body_read_from_announced:
  assumes "announces ext bcontent hs body" and "br_content content b = body_bytes bcontent body @ rest"
  shows "\<exists>got. body_read_from ext (ensure_length_header body hs) b = Ok got
    \<and> received (br_content content) bcontent body rest got"
proof (cases body)
  case None
  have "show_nat 0 = ''0''" by code_simp
  then have "parse_usize ''0'' = Ok 0"
    using parse_uint_show [of 0 "2 ^ 64"] by (simp add: parse_usize_def)
  with None assms show ?thesis
    by (simp add: announces_def received_def body_bytes_def body_read_from_def transfer_encoding_check_def
        ensure_length_header_get, simp add: ensure_length_header_def headers_get_add content_length_zero_def)
next
  case (Some s)
  have "unat (content_length s) < 2 ^ 64" using unsigned_less [of "content_length s"] by simp
  then have "parse_usize (show_nat (unat (content_length s))) = Ok (unat (content_length s))"
    by (simp add: parse_usize_def)
  with Some assms show ?thesis
    by (auto simp: announces_def received_def body_bytes_def body_read_from_def transfer_encoding_check_def
        ensure_length_header_def)
qed

lemma no_length_read_none:
  assumes "headers_get hs ''Transfer-Encoding'' = None" and "headers_get hs ''Content-Length'' = None"
  shows "body_read_from ext hs b = Ok None"
  using assms by (simp add: body_read_from_def transfer_encoding_check_def)

context byte_source
begin

text \<open>A request or response is read up to its body, whose framing decides what it gets.\<close>

lemma request_read_buffered_ok:
  assumes "ok (br_src b0)"
    and "br_content content b0 = request_line_text rl @ headers_text (it (header_map hs)) @ rest"
    and "request_line_ok rl" and "headers_ok hs" and "iteration_order it"
  shows "\<exists>b hs'. headers_get hs' = headers_get hs \<and> br_content content b = rest \<and> ok (br_src b)
    \<and> request_read_buffered ext rd b0 = Some (case body_read_from ext hs b of
          Ok body \<Rightarrow> Ok \<lparr>rq_method = rl_method rl, rq_uri = rl_uri rl, rq_version = rl_version rl,
                        rq_headers = hs', rq_body = body\<rparr>
        | Err e \<Rightarrow> Err e | Panic \<Rightarrow> Panic, b)"
proof -
  obtain b1 where b1: "request_line_read rd b0 = Some (Ok rl, b1)"
    "br_content content b1 = headers_text (it (header_map hs)) @ rest" "ok (br_src b1)"
    using request_line_read_ok [OF assms(1-3)] by auto
  obtain b2 hs' where b2: "headers_read_from rd b1 = Some (Ok hs', b2)"
    "headers_get hs' = headers_get hs" "br_content content b2 = rest" "ok (br_src b2)"
    using headers_text_read [OF byte_source_axioms assms(4,5) b1(3,2)] by blast
  have "request_read_buffered ext rd b0 = Some (case body_read_from ext hs b2 of
          Ok body \<Rightarrow> Ok \<lparr>rq_method = rl_method rl, rq_uri = rl_uri rl, rq_version = rl_version rl,
                        rq_headers = hs', rq_body = body\<rparr>
        | Err e \<Rightarrow> Err e | Panic \<Rightarrow> Panic, b2)"
    using b1(1) b2(1) body_read_from_cong [OF b2(2), of ext b2]
    by (simp add: request_read_buffered_def prog_simps and_then_def [of "of_res _"] split: res.split)
  with b2 show ?thesis by blast
qed

lemmas request_read_ok = request_read_buffered_ok [of "bufreader_new src" for src, simplified,
    folded request_read_from_def]

lemma response_read_ok:
  assumes "ok src" and "content src = status_line_text s @ headers_text (it (header_map hs)) @ rest"
    and "three_digits s" and "headers_ok hs" and "iteration_order it"
  shows "\<exists>b hs'. headers_get hs' = headers_get hs \<and> br_content content b = rest \<and> ok (br_src b)
    \<and> response_read_from ext rd src = Some (case body_read_from ext hs b of
          Ok body \<Rightarrow> Ok \<lparr>rs_status = status_from_usize (usize_from_status s), rs_headers = hs', rs_body = body\<rparr>
        | Err e \<Rightarrow> Err e | Panic \<Rightarrow> Panic, b)"
proof -
  obtain b1 sl where b1: "response_line_read rd (bufreader_new src) = Some (Ok sl, b1)"
    "sl_status sl = status_from_usize (usize_from_status s)"
    "br_content content b1 = headers_text (it (header_map hs)) @ rest" "ok (br_src b1)"
    using response_line_read_ok [of "bufreader_new src" s] assms(1-3) by auto
  obtain b2 hs' where b2: "headers_read_from rd b1 = Some (Ok hs', b2)"
    "headers_get hs' = headers_get hs" "br_content content b2 = rest" "ok (br_src b2)"
    using headers_text_read [OF byte_source_axioms assms(4,5) b1(4,3)] by blast
  have "response_read_from ext rd src = Some (case body_read_from ext hs b2 of
          Ok body \<Rightarrow> Ok \<lparr>rs_status = status_from_usize (usize_from_status s), rs_headers = hs', rs_body = body\<rparr>
        | Err e \<Rightarrow> Err e | Panic \<Rightarrow> Panic, b2)"
    using b1(1,2) b2(1) body_read_from_cong [OF b2(2), of ext b2]
    by (simp add: response_read_from_def prog_simps and_then_def [of "of_res _"] split: res.split)
  with b2 show ?thesis by blast
qed

end

text \<open>A first read that delivers something is as good as a buffer that already had it.\<close>

lemma read_until_prefilled:
  assumes "rd buf_capacity s = Some (Ok bs, s')" and "bs \<noteq> []"
  shows "read_until rd d acc (bufreader_new s) = read_until rd d acc \<lparr>br_buf = bs, br_src = s'\<rparr>"
  using assms
  by (subst (1 2) read_until.simps) (simp add: fill_buf_def bufreader_new_def)

lemma request_read_prefilled:
  assumes "rd buf_capacity s = Some (Ok bs, s')" and "bs \<noteq> []"
  shows "request_read_from ext rd s = request_read_buffered ext rd \<lparr>br_buf = bs, br_src = s'\<rparr>"
  by (simp add: request_read_from_def request_read_buffered_def request_line_read_def and_then_def
      map_err_def read_until_prefilled [of rd s, OF assms])

text \<open>A reader that is never asked for more stays as it is.\<close>

lemma frozen_source: "byte_source rd (\<lambda>_. []) (\<lambda>s. s = s0) (\<lambda>_. 0)"
  by unfold_locales simp

text \<open>Start lines take one write, so the sender needs a sink that takes everything.\<close>

locale sending = copying rd content ok retries wr appended wok wretries
    + full: full_sink wr appended wok wretries
  for rd :: "'r reader" and content ok retries
    and wr :: "'w writer" and appended wok wretries
begin

lemma body_option_write_ok:
  assumes "\<forall>b. body = Some b \<longrightarrow> ok (body_content b)" and "wok w"
  shows "\<exists>body' w'. body_option_write rd wr (body, w) = Some (Ok (), (body', w'))
    \<and> appended w (body_bytes content body) w' \<and> wok w'"
proof (cases body)
  case None
  then show ?thesis using assms(2) by (simp add: body_option_write_def body_bytes_def snk.appended_Nil)
next
  case (Some b)
  with assms have "ok (body_content b)" by simp
  from body_write_ok [OF this assms(2)] Some show ?thesis
    by (auto simp: body_option_write_def body_bytes_def)
qed

lemma request_write_ok:
  assumes "\<forall>b. rq_body q = Some b \<longrightarrow> ok (body_content b)" and "wok w"
    and "rl = \<lparr>rl_method = rq_method q, rl_uri = rq_uri q, rl_version = rq_version q\<rparr>"
    and "hs = ensure_length_header (rq_body q) (rq_headers q)"
  shows "\<exists>q' w'. request_write it rd wr (q, w) = Some (Ok (), (q', w')) \<and> wok w'
    \<and> appended w (request_line_text rl @ headers_text (it (header_map hs)) @ body_bytes content (rq_body q)) w'"
proof -
  obtain w1 where w1: "wr (request_line_text rl) w = Some (Ok (length (request_line_text rl)), w1)"
    "appended w (request_line_text rl) w1" "wok w1"
    using full.write_full [OF assms(2)] by blast
  then have line: "request_line_write wr rl w = Some (Ok (), w1)"
    by (simp add: request_line_write_def request_line_text_def Let_def prog_simps)
  obtain w2 where w2: "headers_write it wr hs w1 = Some (Ok (), w2)"
    "appended w1 (headers_text (it (header_map hs))) w2" "wok w2"
    using snk.headers_write_ok [OF w1(3)] by blast
  obtain b w3 where w3: "body_option_write rd wr (rq_body q, w2) = Some (Ok (), (b, w3))"
    "appended w2 (body_bytes content (rq_body q)) w3" "wok w3"
    using body_option_write_ok [OF assms(1) w2(3)] by blast
  show ?thesis
    using line w2(1) w3(1,3) snk.appended_trans [OF w1(2) snk.appended_trans [OF w2(2) w3(2)]] assms(3,4)
    by (simp add: request_write_def Let_def)
qed

lemma response_write_ok:
  assumes "\<forall>b. rs_body p = Some b \<longrightarrow> ok (body_content b)" and "wok w"
    and "hs = ensure_length_header (rs_body p) (rs_headers p)"
  shows "\<exists>p' w'. response_write it rd wr (p, w) = Some (Ok (), (p', w')) \<and> wok w'
    \<and> rs_headers p' = hs \<and> rs_status p' = rs_status p
    \<and> appended w (status_line_text (rs_status p) @ headers_text (it (header_map hs))
         @ body_bytes content (rs_body p)) w'"
proof -
  let ?t = "status_line_text (rs_status p)"
  obtain w1 where w1: "wr ?t w = Some (Ok (length ?t), w1)" "appended w ?t w1" "wok w1"
    using full.write_full [OF assms(2)] by blast
  then have line: "response_line_write wr \<lparr>sl_version = ''HTTP/1.1'', sl_status = rs_status p,
      sl_reason = string_from_status (rs_status p)\<rparr> w = Some (Ok (), w1)"
    by (simp add: response_line_write_def status_line_text_def status_display_def Let_def prog_simps)
  obtain w2 where w2: "headers_write it wr hs w1 = Some (Ok (), w2)"
    "appended w1 (headers_text (it (header_map hs))) w2" "wok w2"
    using snk.headers_write_ok [OF w1(3)] by blast
  obtain b w3 where w3: "body_option_write rd wr (rs_body p, w2) = Some (Ok (), (b, w3))"
    "appended w2 (body_bytes content (rs_body p)) w3" "wok w3"
    using body_option_write_ok [OF assms(1) w2(3)] by blast
  show ?thesis
    using line w2(1) w3(1,3) snk.appended_trans [OF w1(2) snk.appended_trans [OF w2(2) w3(2)]] assms(3)
    by (simp add: response_write_def Let_def)
qed

end

interpretation memory: sending cursor_read "\<lambda>s. s" "\<lambda>_. True" "\<lambda>_. 0"
  vec_write "\<lambda>s bs s'. s' = s @ bs" "\<lambda>_. True" "\<lambda>_. 0"
  by unfold_locales

section \<open>Properties\<close>

text \<open>
  C6. A request survives the wire. Written to a sink that takes what it is given and read back
  from any source that delivers the text, however the bytes arrive, it has the same method,
  URI, version and headers (with the zero length announced when there is no body), and its body
  has the announced length and type over exactly the bytes that were sent; what follows the
  message is left on the connection.
\<close>

theorem request_roundtrip:
  assumes "eof_source brd bcontent bok bretries" and "full_sink wr appended wok wretries"
    and "byte_source rd content ok retries" and "iteration_order it" and "wok w"
    and "\<forall>b. rq_body q = Some b \<longrightarrow> bok (body_content b)"
    and "request_line_ok \<lparr>rl_method = rq_method q, rl_uri = rq_uri q, rl_version = rq_version q\<rparr>"
    and "headers_ok (rq_headers q)" and "announces ext bcontent (rq_headers q) (rq_body q)"
  shows "\<exists>q' w' text. request_write it brd wr (q, w) = Some (Ok (), (q', w')) \<and> appended w text w'
    \<and> (\<forall>src rest. ok src \<longrightarrow> content src = text @ rest \<longrightarrow>
         (\<exists>b q2. request_read_from ext rd src = Some (Ok q2, b) \<and> br_content content b
              = body_bytes bcontent (rq_body q) @ rest
            \<and> rq_method q2 = rq_method q \<and> rq_uri q2 = rq_uri q \<and> rq_version q2 = rq_version q
            \<and> headers_get (rq_headers q2) = headers_get (ensure_length_header (rq_body q) (rq_headers q))
            \<and> received (br_content content) bcontent (rq_body q) rest (rq_body q2)))"
proof -
  let ?rl = "\<lparr>rl_method = rq_method q, rl_uri = rq_uri q, rl_version = rq_version q\<rparr>"
  let ?hs = "ensure_length_header (rq_body q) (rq_headers q)"
  let ?bytes = "body_bytes bcontent (rq_body q)"
  let ?text = "request_line_text ?rl @ headers_text (it (header_map ?hs)) @ ?bytes"
  have "sending brd bcontent bok bretries wr appended wok wretries"
    by (intro sending.intro copying.intro assms(1,2) full_sink.axioms(1) [OF assms(2)])
  from sending.request_write_ok [OF this assms(6,5) refl refl]
  obtain q' w' where w: "request_write it brd wr (q, w) = Some (Ok (), (q', w'))" "appended w ?text w'"
    by blast
  have "\<exists>b q2. request_read_from ext rd src = Some (Ok q2, b) \<and> br_content content b = ?bytes @ rest
      \<and> rq_method q2 = rq_method q \<and> rq_uri q2 = rq_uri q \<and> rq_version q2 = rq_version q
      \<and> headers_get (rq_headers q2) = headers_get ?hs
      \<and> received (br_content content) bcontent (rq_body q) rest (rq_body q2)"
    if src: "ok src" "content src = ?text @ rest" for src rest
  proof -
    obtain b hs' where b: "headers_get hs' = headers_get ?hs" "br_content content b = ?bytes @ rest"
      "request_read_from ext rd src = Some (case body_read_from ext ?hs b of
          Ok body \<Rightarrow> Ok \<lparr>rq_method = rl_method ?rl, rq_uri = rl_uri ?rl, rq_version = rl_version ?rl,
                        rq_headers = hs', rq_body = body\<rparr>
        | Err e \<Rightarrow> Err e | Panic \<Rightarrow> Panic, b)"
      using byte_source.request_read_ok [OF assms(3) src(1), of ?rl it ?hs "?bytes @ rest" ext] src(2)
        assms(4,7) ensure_length_header_ok [OF assms(8)] by auto
    obtain got where "body_read_from ext ?hs b = Ok got"
      "received (br_content content) bcontent (rq_body q) rest got"
      using body_read_from_announced [OF assms(9) b(2)] by blast
    with b show ?thesis by auto
  qed
  with w show ?thesis by blast
qed

theorem request_roundtrip_witness:
  "\<exists>q' w' q2 b2. request_write rev cursor_read vec_write
      (\<lparr>rq_method = GET, rq_uri = ''/a'', rq_version = ''HTTP/1.1'',
        rq_headers = \<lparr>header_map = [(''Host'', [''b''])]\<rparr>,
        rq_body = None\<rparr> :: (string, byte list) request, []) = Some (Ok (), (q', w'))
    \<and> request_read_from text_externals cursor_read w' = Some (Ok q2, b2) \<and> rq_uri q2 = ''/a''
    \<and> headers_get (rq_headers q2) ''Host'' = Some [''b'']"
proof -
  let ?hs = "\<lparr>header_map = [(''Host'', [''b''])]\<rparr>"
  let ?q = "\<lparr>rq_method = GET, rq_uri = ''/a'', rq_version = ''HTTP/1.1'', rq_headers = ?hs,
    rq_body = None\<rparr> :: (string, byte list) request"
  have h: "headers_ok ?hs" by code_simp
  have rl: "request_line_ok \<lparr>rl_method = GET, rl_uri = ''/a'', rl_version = ''HTTP/1.1''\<rparr>" by code_simp
  have an: "announces text_externals (\<lambda>s. s) ?hs None"
    by (simp add: announces_def headers_get_def hm_get_def)
  obtain q' w' t where w: "request_write rev cursor_read vec_write (?q, []) = Some (Ok (), (q', w'))" "w' = t"
    and "\<forall>src rest. src = t @ rest \<longrightarrow> (\<exists>b q2. request_read_from text_externals cursor_read src = Some (Ok q2, b)
        \<and> br_content (\<lambda>s. s) b = body_bytes (\<lambda>s. s) (rq_body ?q) @ rest
        \<and> rq_method q2 = rq_method ?q \<and> rq_uri q2 = rq_uri ?q \<and> rq_version q2 = rq_version ?q
        \<and> headers_get (rq_headers q2) = headers_get (ensure_length_header (rq_body ?q) (rq_headers ?q))
        \<and> received (br_content (\<lambda>s. s)) (\<lambda>s. s) (rq_body ?q) rest (rq_body q2))"
    using request_roundtrip [OF cursor.eof_source_axioms vec.full_sink_axioms cursor.byte_source_axioms
        iteration_order_rev, where w = "[]" and q = ?q and ext = text_externals] h rl an by auto
  from this(3) [rule_format, of w' "[]"] obtain q2 b2 where
    "request_read_from text_externals cursor_read w' = Some (Ok q2, b2)" "rq_uri q2 = ''/a''"
    "headers_get (rq_headers q2) = headers_get (ensure_length_header (rq_body ?q) ?hs)"
    using w(2) by auto
  moreover have "headers_get ?hs ''Host'' = Some [''b'']" by (simp add: headers_get_def hm_get_def)
  ultimately show ?thesis using w(1) by (auto simp: ensure_length_header_get)
qed

text \<open>
  C7. A response survives the wire in the same way, for every status whose number has three
  digits: the reader gets the status of that number, the headers and the body that were sent.
\<close>

theorem response_roundtrip:
  assumes "eof_source brd bcontent bok bretries" and "full_sink wr appended wok wretries"
    and "byte_source rd content ok retries" and "iteration_order it" and "wok w"
    and "\<forall>b. rs_body p = Some b \<longrightarrow> bok (body_content b)"
    and "100 \<le> usize_from_status (rs_status p)" and "usize_from_status (rs_status p) < 1000"
    and "headers_ok (rs_headers p)" and "announces ext bcontent (rs_headers p) (rs_body p)"
  shows "\<exists>p' w' text. response_write it brd wr (p, w) = Some (Ok (), (p', w')) \<and> appended w text w'
    \<and> (\<forall>src rest. ok src \<longrightarrow> content src = text @ rest \<longrightarrow>
         (\<exists>b p2. response_read_from ext rd src = Some (Ok p2, b)
            \<and> br_content content b = body_bytes bcontent (rs_body p) @ rest
            \<and> rs_status p2 = status_from_usize (usize_from_status (rs_status p))
            \<and> headers_get (rs_headers p2) = headers_get (ensure_length_header (rs_body p) (rs_headers p))
            \<and> received (br_content content) bcontent (rs_body p) rest (rs_body p2)))"
proof -
  let ?hs = "ensure_length_header (rs_body p) (rs_headers p)"
  let ?bytes = "body_bytes bcontent (rs_body p)"
  let ?text = "status_line_text (rs_status p) @ headers_text (it (header_map ?hs)) @ ?bytes"
  have "sending brd bcontent bok bretries wr appended wok wretries"
    by (intro sending.intro copying.intro assms(1,2) full_sink.axioms(1) [OF assms(2)])
  from sending.response_write_ok [OF this assms(6,5) refl]
  obtain p' w' where w: "response_write it brd wr (p, w) = Some (Ok (), (p', w'))" "appended w ?text w'"
    by blast
  have "\<exists>b p2. response_read_from ext rd src = Some (Ok p2, b) \<and> br_content content b = ?bytes @ rest
      \<and> rs_status p2 = status_from_usize (usize_from_status (rs_status p))
      \<and> headers_get (rs_headers p2) = headers_get ?hs
      \<and> received (br_content content) bcontent (rs_body p) rest (rs_body p2)"
    if src: "ok src" "content src = ?text @ rest" for src rest
  proof -
    obtain b hs' where b: "headers_get hs' = headers_get ?hs" "br_content content b = ?bytes @ rest"
      "response_read_from ext rd src = Some (case body_read_from ext ?hs b of
          Ok body \<Rightarrow> Ok \<lparr>rs_status = status_from_usize (usize_from_status (rs_status p)),
                        rs_headers = hs', rs_body = body\<rparr>
        | Err e \<Rightarrow> Err e | Panic \<Rightarrow> Panic, b)"
      using byte_source.response_read_ok [OF assms(3) src(1), of "rs_status p" it ?hs "?bytes @ rest" ext]
        src(2) assms(4,7,8) ensure_length_header_ok [OF assms(9)] by (auto simp: three_digits_def)
    obtain got where "body_read_from ext ?hs b = Ok got"
      "received (br_content content) bcontent (rs_body p) rest got"
      using body_read_from_announced [OF assms(10) b(2)] by blast
    with b show ?thesis by auto
  qed
  with w show ?thesis by blast
qed

theorem response_roundtrip_witness:
  "\<exists>p' w' p2 b2. response_write rev cursor_read vec_write
      (response_from_status NotFoundStatus :: (string, byte list) response, []) = Some (Ok (), (p', w'))
    \<and> response_read_from text_externals cursor_read w' = Some (Ok p2, b2) \<and> rs_status p2 = NotFoundStatus
    \<and> rs_body p2 = None"
proof -
  let ?p = "response_from_status NotFoundStatus :: (string, byte list) response"
  have an: "announces text_externals (\<lambda>s. s) headers_new None"
    by (simp add: announces_def)
  have p: "rs_status ?p = NotFoundStatus" "rs_headers ?p = headers_new" "rs_body ?p = None"
    by (simp_all add: response_from_status_def)
  obtain p' w' t where w: "response_write rev cursor_read vec_write (?p, []) = Some (Ok (), (p', w'))" "w' = t"
    and "\<forall>src rest. src = t @ rest \<longrightarrow> (\<exists>b p2. response_read_from text_externals cursor_read src = Some (Ok p2, b)
        \<and> br_content (\<lambda>s. s) b = body_bytes (\<lambda>s. s) (rs_body ?p) @ rest
        \<and> rs_status p2 = status_from_usize (usize_from_status (rs_status ?p))
        \<and> headers_get (rs_headers p2) = headers_get (ensure_length_header (rs_body ?p) (rs_headers ?p))
        \<and> received (br_content (\<lambda>s. s)) (\<lambda>s. s) (rs_body ?p) rest (rs_body p2))"
    using response_roundtrip [OF cursor.eof_source_axioms vec.full_sink_axioms cursor.byte_source_axioms
        iteration_order_rev, where w = "[]" and p = ?p and ext = text_externals] an by (auto simp: p)
  from this(3) [rule_format, of w' "[]"] obtain p2 b2 where
    "response_read_from text_externals cursor_read w' = Some (Ok p2, b2)"
    "rs_status p2 = status_from_usize 404" "received (br_content (\<lambda>s. s)) (\<lambda>s. s) (rs_body ?p) [] (rs_body p2)"
    using w(2) by (auto simp: p)
  with w(1) show ?thesis
    by (auto simp: received_def status_from_usize_def p split: option.splits)
qed

text \<open>
  The length announced by \<^verbatim>\<open>Response::from_str\<close> and by \<^verbatim>\<open>Request::from\<close> is none:
  their bodies are written without a \<^verbatim>\<open>Content-Length\<close>, and a receiver on the same
  connection gets a response without a body and the content as the start of the next message.
\<close>

theorem response_from_str_unframed:
  "\<exists>p' w'. response_write rev cursor_read vec_write (response_from_str ext s, []) = Some (Ok (), (p', w'))
    \<and> (\<exists>p2 b. response_read_from ext cursor_read w' = Some (Ok p2, b)
         \<and> rs_body p2 = None \<and> br_content (\<lambda>s. s) b = s)"
proof -
  let ?p = "response_from_str ext s"
  obtain p' w' where w: "response_write rev cursor_read vec_write (?p, []) = Some (Ok (), (p', w'))"
    "w' = status_line_text OK @ headers_text (rev (header_map headers_new)) @ s"
    using memory.response_write_ok [where p = ?p and w = "[]" and it = rev]
    by (auto simp: response_from_str_def ensure_length_header_def body_bytes_def body_new_def)
  obtain b hs' where b: "br_content (\<lambda>s. s) b = s"
    "response_read_from ext cursor_read w' = Some (case body_read_from ext headers_new b of
        Ok body \<Rightarrow> Ok \<lparr>rs_status = status_from_usize (usize_from_status OK), rs_headers = hs', rs_body = body\<rparr>
      | Err e \<Rightarrow> Err e | Panic \<Rightarrow> Panic, b)"
    using cursor.response_read_ok [where src = w' and s = OK and it = rev and hs = headers_new and rest = s
        and ext = ext] w(2) iteration_order_rev by (auto simp: three_digits_def)
  have "body_read_from ext headers_new b = Ok None" by (simp add: no_length_read_none)
  with w(1) b show ?thesis by auto
qed

text \<open>
  The version check of a status line accepts exactly \<^verbatim>\<open>HTTP/\<close> with two numbers of
  eight bits and a dot between them; in particular it rejects the text of the version
  \<^verbatim>\<open>HTTP/2\<close> that the library itself declares valid.
\<close>

theorem validate_version_spec:
  "(validate_version v = Ok () \<longleftrightarrow>
      (\<exists>a b m n. v = ''HTTP/'' @ a @ CHR ''.'' # b \<and> parse_u8 a = Ok m \<and> parse_u8 b = Ok n
         \<and> CHR ''/'' \<notin> set (a @ b) \<and> CHR ''.'' \<notin> set (a @ b)))
   \<and> validate_version (version_to_string HTTP1_1) = Ok ()
   \<and> validate_version (version_to_string HTTP2) \<noteq> Ok ()"
proof (intro conjI)
  show "validate_version (version_to_string HTTP2) \<noteq> Ok ()"
  proof -
    have "split_on (CHR ''/'') ''HTTP/2'' = [''HTTP'', ''2'']" "split_on (CHR ''.'') ''2'' = [''2'']"
      by code_simp+
    then show ?thesis by (simp add: validate_version_def)
  qed
  show "validate_version v = Ok () \<longleftrightarrow>
      (\<exists>a b m n. v = ''HTTP/'' @ a @ CHR ''.'' # b \<and> parse_u8 a = Ok m \<and> parse_u8 b = Ok n
         \<and> CHR ''/'' \<notin> set (a @ b) \<and> CHR ''.'' \<notin> set (a @ b))" (is "?L \<longleftrightarrow> ?R")
  proof
    assume ?L
    then have len: "length (split_on (CHR ''/'') v) = 2" "split_on (CHR ''/'') v ! 0 = ''HTTP''"
      "length (split_on (CHR ''.'') (split_on (CHR ''/'') v ! 1)) = 2"
      by (auto simp: validate_version_def Let_def split: if_splits)
    then obtain r where r: "split_on (CHR ''/'') v = [''HTTP'', r]"
      by (auto simp: numeral_2_eq_2 length_Suc_conv)
    with len(3) obtain a b where ab: "split_on (CHR ''.'') r = [a, b]"
      by (auto simp: numeral_2_eq_2 length_Suc_conv)
    have v: "v = ''HTTP'' @ CHR ''/'' # r" using join_split_on [of "CHR ''/''" v] r by simp
    have rab: "r = a @ CHR ''.'' # b" using join_split_on [of "CHR ''.''" r] ab by simp
    have "CHR ''/'' \<notin> set r" using split_on_no_sep [of r "CHR ''/''" v] r by simp
    moreover have "CHR ''.'' \<notin> set a \<and> CHR ''.'' \<notin> set b"
      using split_on_no_sep [of a "CHR ''.''" r] split_on_no_sep [of b "CHR ''.''" r] ab by simp
    moreover obtain m n where "parse_u8 a = Ok m" "parse_u8 b = Ok n"
      using \<open>?L\<close> r ab by (auto simp: validate_version_def split: res.splits)
    ultimately show ?R using v rab
      by (intro exI [of _ a] exI [of _ b] exI [of _ m] exI [of _ n]) auto
  next
    assume ?R
    then obtain a b m n where h: "v = ''HTTP'' @ CHR ''/'' # (a @ CHR ''.'' # b)" "parse_u8 a = Ok m"
      "parse_u8 b = Ok n" "CHR ''/'' \<notin> set (a @ b)" "CHR ''.'' \<notin> set (a @ b)" by auto
    have "split_on (CHR ''/'') v = [''HTTP'', a @ CHR ''.'' # b]"
      unfolding h(1) by (subst split_on_append) (use h(4) in \<open>auto simp: split_on_single\<close>)
    moreover have "split_on (CHR ''.'') (a @ CHR ''.'' # b) = [a, b]"
      by (subst split_on_append) (use h(5) in \<open>auto simp: split_on_single\<close>)
    ultimately show ?L using h(2,3) by (simp add: validate_version_def)
  qed
qed simp



end
