(* ===== verification/Route_Trie.thy ===== *)
theory Route_Trie
  imports Kv_Store
begin

text \<open>
  The byte trie of \<^verbatim>\<open>router/trie.rs\<close>: a node has a vector of 256 optional children,
  indexed by the next byte of the key, and an optional value; the root holds no value. The
  operations are the code's, with its case order; the abstraction \<open>node_get\<close> reads a node
  as a partial map from keys to values.
\<close>

section \<open>Nodes\<close>

datatype 'v node = Node (children: "'v node option list") (val: "'v option")

definition empty_children :: "'v node option list" where
  "empty_children = replicate 256 None"

definition node_new :: "'v node" where
  "node_new = Node empty_children None"

fun node_add :: "byte list \<Rightarrow> 'v \<Rightarrow> 'v node \<Rightarrow> 'v node" where
  "node_add [] v (Node cs w) = Node cs (Some v)"
| "node_add (k # ks) v (Node cs w) =
     (let child = (case cs ! code k of None \<Rightarrow> node_new | Some n \<Rightarrow> n)
      in Node (cs[code k := Some (node_add ks v child)]) w)"

definition add_value_to_children ::
  "'v node option list \<Rightarrow> byte list \<Rightarrow> 'v \<Rightarrow> 'v node option list" where
  "add_value_to_children cs key v =
     (let child = (case cs ! code (hd key) of None \<Rightarrow> node_new | Some n \<Rightarrow> n)
      in cs[code (hd key) := Some (node_add (tl key) v child)])"

fun node_get :: "'v node \<Rightarrow> byte list \<Rightarrow> 'v option" where
  "node_get (Node cs v) [] = v"
| "node_get (Node cs v) (k # ks) =
     (case cs ! code k of None \<Rightarrow> None | Some child \<Rightarrow> node_get child ks)"

fun node_get_prefix :: "'v node \<Rightarrow> byte list \<Rightarrow> 'v option \<Rightarrow> 'v option" where
  "node_get_prefix (Node cs v) [] prefix_value = (if v = None then prefix_value else v)"
| "node_get_prefix (Node cs v) (k # ks) prefix_value =
     (case cs ! code k of
        None \<Rightarrow> (if v \<noteq> None then v else prefix_value)
      | Some child \<Rightarrow>
          let next_parent = (case v of None \<Rightarrow> prefix_value | Some w \<Rightarrow> Some w)
          in node_get_prefix child ks next_parent)"

fun node_move_out :: "'v node \<Rightarrow> byte list \<Rightarrow> 'v option \<times> 'v node" where
  "node_move_out (Node cs v) [] = (v, Node cs None)"
| "node_move_out (Node cs v) (k # ks) =
     (case cs ! code k of
        None \<Rightarrow> (None, Node cs v)
      | Some child \<Rightarrow>
          let (r, child') = node_move_out child ks
          in (r, Node (cs[code k := Some child']) v))"

section \<open>The trie\<close>

record 'v trie =
  root_children :: "'v node option list"

definition trie_new :: "'v trie" where
  "trie_new = \<lparr>root_children = empty_children\<rparr>"

text \<open>\<^verbatim>\<open>assert!(!key.is_empty())\<close> panics: the result is \<open>None\<close>.\<close>

definition trie_add :: "byte list \<Rightarrow> 'v \<Rightarrow> 'v trie \<Rightarrow> 'v trie option" where
  "trie_add key v t =
     (if key = [] then None
      else Some (t\<lparr>root_children := add_value_to_children (root_children t) key v\<rparr>))"

definition trie_get :: "'v trie \<Rightarrow> byte list \<Rightarrow> 'v option" where
  "trie_get t key =
     (case key of
        [] \<Rightarrow> None
      | k # ks \<Rightarrow>
          (case root_children t ! code k of
             None \<Rightarrow> None
           | Some child \<Rightarrow> node_get child ks))"

definition trie_move_out :: "'v trie \<Rightarrow> byte list \<Rightarrow> 'v option \<times> 'v trie" where
  "trie_move_out t key =
     (case key of
        [] \<Rightarrow> (None, t)
      | k # ks \<Rightarrow>
          (case root_children t ! code k of
             None \<Rightarrow> (None, t)
           | Some child \<Rightarrow>
               let (r, child') = node_move_out child ks
               in (r, t\<lparr>root_children := (root_children t)[code k := Some child']\<rparr>)))"

definition trie_get_prefix :: "'v trie \<Rightarrow> byte list \<Rightarrow> 'v option" where
  "trie_get_prefix t key =
     (case key of
        [] \<Rightarrow> None
      | k # ks \<Rightarrow>
          (case root_children t ! code k of
             None \<Rightarrow> None
           | Some child \<Rightarrow> node_get_prefix child ks None))"

section \<open>Well-formed nodes: every vector of children has 256 slots\<close>

fun node_wf :: "'v node \<Rightarrow> bool" where
  "node_wf (Node cs v) \<longleftrightarrow>
     length cs = 256 \<and> (\<forall>c \<in> set cs. case c of None \<Rightarrow> True | Some n \<Rightarrow> node_wf n)"

definition children_wf :: "'v node option list \<Rightarrow> bool" where
  "children_wf cs \<longleftrightarrow>
     length cs = 256 \<and> (\<forall>c \<in> set cs. case c of None \<Rightarrow> True | Some n \<Rightarrow> node_wf n)"

definition trie_wf :: "'v trie \<Rightarrow> bool" where
  "trie_wf t \<longleftrightarrow> children_wf (root_children t)"

lemma node_wf_children [simp]: "node_wf (Node cs v) \<longleftrightarrow> children_wf cs"
  by (simp add: children_wf_def)

declare node_wf.simps [simp del]

lemma children_wf_length: "children_wf cs \<Longrightarrow> length cs = 256"
  by (simp add: children_wf_def)

lemma children_wf_bound: "children_wf cs \<Longrightarrow> code k < length cs"
  by (simp add: children_wf_def)

lemma children_wf_nth: "children_wf cs \<Longrightarrow> cs ! code k = Some n \<Longrightarrow> node_wf n"
  using nth_mem [of "code k" cs] by (force simp: children_wf_def)

lemma children_wf_update: "children_wf cs \<Longrightarrow> node_wf n \<Longrightarrow> children_wf (cs[i := Some n])"
  unfolding children_wf_def by (auto dest!: set_update_subset_insert [THEN subsetD])

lemma empty_children_wf [simp]: "children_wf empty_children"
  by (simp add: children_wf_def empty_children_def)

lemma empty_children_nth [simp]: "empty_children ! code k = None"
  by (simp add: empty_children_def)

lemma node_new_wf [simp]: "node_wf node_new"
  by (simp add: node_new_def)

lemma node_new_get [simp]: "node_get node_new ks = None"
  by (cases ks) (simp_all add: node_new_def)

lemma node_add_Cons:
  "node_add (k # ks) v (Node cs w) = Node (add_value_to_children cs (k # ks) v) w"
  by (simp add: add_value_to_children_def)

lemma node_move_out_Cons:
  "node_move_out (Node cs v) (k # ks) =
     (case cs ! code k of
        None \<Rightarrow> (None, Node cs v)
      | Some child \<Rightarrow> (fst (node_move_out child ks),
          Node (cs[code k := Some (snd (node_move_out child ks))]) v))"
  by (auto split: option.splits prod.splits)

lemma node_add_wf: "node_wf n \<Longrightarrow> node_wf (node_add ks v n)"
  by (induction ks v n rule: node_add.induct)
    (auto simp: Let_def intro!: children_wf_update dest: children_wf_nth split: option.splits)

lemma node_move_out_wf: "node_wf n \<Longrightarrow> node_wf (snd (node_move_out n ks))"
  by (induction n ks rule: node_move_out.induct)
    (auto simp: node_move_out_Cons simp del: node_move_out.simps(2) intro!: children_wf_update
      dest: children_wf_nth split: option.splits)

lemma node_get_add: "node_wf n \<Longrightarrow> node_get (node_add ks v n) ks' = ((node_get n)(ks \<mapsto> v)) ks'"
proof (induction ks v n arbitrary: ks' rule: node_add.induct)
  case (1 v cs w)
  then show ?case by (cases ks') simp_all
next
  case (2 k ks v cs w)
  then show ?case
    by (cases ks')
      (auto simp: Let_def nth_list_update children_wf_bound dest: children_wf_nth split: option.splits)
qed

lemma node_move_out_fst: "fst (node_move_out n ks) = node_get n ks"
  by (induction n ks rule: node_move_out.induct) (auto split: option.splits prod.splits)

lemma node_move_out_snd:
  "node_wf n \<Longrightarrow> node_get (snd (node_move_out n ks)) ks' = ((node_get n)(ks := None)) ks'"
proof (induction n ks arbitrary: ks' rule: node_move_out.induct)
  case (1 cs v)
  then show ?case by (cases ks') simp_all
next
  case (2 cs v k ks)
  then show ?case
    by (cases ks')
      (auto simp: node_move_out_Cons nth_list_update children_wf_bound
        simp del: node_move_out.simps(2) dest: children_wf_nth split: option.splits)
qed

section \<open>The trie as a map\<close>

lemma add_value_to_children_wf:
  "children_wf cs \<Longrightarrow> children_wf (add_value_to_children cs key v)"
  by (auto simp: add_value_to_children_def Let_def node_add_wf intro!: children_wf_update
      dest: children_wf_nth split: option.splits)

lemma trie_new_wf [simp]: "trie_wf trie_new"
  by (simp add: trie_wf_def trie_new_def)

lemma trie_new_get [simp]: "trie_get trie_new = Map.empty"
  by (auto simp: fun_eq_iff trie_get_def trie_new_def split: list.split)

text \<open>The trie through the root node that has its children and no value.\<close>

definition root_node :: "'v trie \<Rightarrow> 'v node" where
  "root_node t = Node (root_children t) None"

lemma root_node_wf [simp]: "node_wf (root_node t) \<longleftrightarrow> trie_wf t"
  by (simp add: root_node_def trie_wf_def)

lemma trie_get_root: "trie_get t key = node_get (root_node t) key"
  by (cases key) (simp_all add: trie_get_def root_node_def)

lemma trie_get_prefix_root: "trie_get_prefix t key = node_get_prefix (root_node t) key None"
  by (cases key) (simp_all add: trie_get_prefix_def root_node_def split: option.split)

lemma trie_add_root:
  "key \<noteq> [] \<Longrightarrow> trie_add key v t = Some t' \<Longrightarrow> root_node t' = node_add key v (root_node t)"
  by (cases key) (auto simp: trie_add_def root_node_def add_value_to_children_def)

lemma trie_move_out_root:
  "key \<noteq> [] \<Longrightarrow> fst (trie_move_out t key) = fst (node_move_out (root_node t) key)"
  "key \<noteq> [] \<Longrightarrow> root_node (snd (trie_move_out t key)) = snd (node_move_out (root_node t) key)"
  by (cases key; auto simp: trie_move_out_def root_node_def split: option.splits prod.splits)+

text \<open>The total forms of the operations, for the store interface.\<close>

definition trie_put :: "byte list \<Rightarrow> 'v \<Rightarrow> 'v trie \<Rightarrow> 'v trie" where
  "trie_put key v t = (case trie_add key v t of None \<Rightarrow> t | Some t' \<Rightarrow> t')"

definition trie_del :: "byte list \<Rightarrow> 'v trie \<Rightarrow> 'v trie" where
  "trie_del key t = snd (trie_move_out t key)"

lemma trie_add_put: "key \<noteq> [] \<Longrightarrow> trie_add key v t = Some (trie_put key v t)"
  by (simp add: trie_put_def trie_add_def)

lemma root_node_put: "key \<noteq> [] \<Longrightarrow> root_node (trie_put key v t) = node_add key v (root_node t)"
  using trie_add_put [of key v t] by (rule trie_add_root [rotated])

lemma trie_put_wf: "trie_wf t \<Longrightarrow> key \<noteq> [] \<Longrightarrow> trie_wf (trie_put key v t)"
  using node_add_wf [of "root_node t" key v] by (simp flip: root_node_put)

lemma trie_del_wf: "trie_wf t \<Longrightarrow> trie_wf (trie_del key t)"
  using node_move_out_wf [of "root_node t" key]
  by (cases "key = []") (simp_all add: trie_del_def trie_move_out_def flip: trie_move_out_root)

interpretation trie: kv_store trie_get trie_put trie_del "\<lambda>key. key \<noteq> []" trie_wf
proof unfold_locales
  fix t :: "'a trie" and key :: "byte list" and v :: 'a
  assume t: "trie_wf t"
  show "trie_wf (trie_del key t)" by (rule trie_del_wf [OF t])
  show "trie_get (trie_del key t) = (trie_get t)(key := None)"
  proof (cases "key = []")
    case True
    then show ?thesis
      by (auto simp: trie_del_def trie_move_out_def trie_get_def fun_eq_iff)
  next
    case False
    then show ?thesis
      using t by (simp add: fun_eq_iff trie_get_root trie_del_def trie_move_out_root node_move_out_snd)
  qed
next
  fix t :: "'a trie" and key :: "byte list" and v :: 'a
  assume t: "trie_wf t" and key: "key \<noteq> []"
  show "trie_wf (trie_put key v t)" by (rule trie_put_wf [OF t key])
  show "trie_get (trie_put key v t) = (trie_get t)(key \<mapsto> v)"
    using t key by (simp add: fun_eq_iff trie_get_root root_node_put node_get_add)
qed

lemma trie_move_out_fst: "fst (trie_move_out t key) = trie_get t key"
  by (cases "key = []")
    (auto simp: trie_get_root trie_move_out_root node_move_out_fst,
     simp_all add: trie_move_out_def root_node_def)

section \<open>Longest prefix\<close>

text \<open>
  The reference: walk down the key with the best value so far. It has no trie in it, only the
  map, and is characterised by the longest prefix of the key that the map has.
\<close>

fun best_prefix :: "(byte list \<Rightarrow> 'v option) \<Rightarrow> byte list \<Rightarrow> 'v option \<Rightarrow> 'v option" where
  "best_prefix m [] p = (case m [] of None \<Rightarrow> p | Some v \<Rightarrow> Some v)"
| "best_prefix m (k # ks) p =
     best_prefix (\<lambda>x. m (k # x)) ks (case m [] of None \<Rightarrow> p | Some v \<Rightarrow> Some v)"

lemma best_prefix_empty: "(\<And>x. m x = None) \<Longrightarrow> best_prefix m ks p = p"
  by (induction ks arbitrary: m p) auto

lemma node_get_prefix_best: "node_get_prefix n ks p = best_prefix (node_get n) ks p"
proof (induction n ks p rule: node_get_prefix.induct)
  case (1 cs v p)
  then show ?case by (auto split: option.splits)
next
  case (2 cs v k ks p)
  then show ?case
    by (cases "cs ! code k"; cases v) (auto simp: best_prefix_empty)
qed

lemma ex_le_Suc: "(\<exists>n \<le> Suc L. P n) \<longleftrightarrow> P 0 \<or> (\<exists>n \<le> L. P (Suc n))"
  by (metis Suc_le_mono le0 not0_implies_Suc)

lemma all_le_Suc: "(\<forall>n \<le> Suc L. P n) \<longleftrightarrow> P 0 \<and> (\<forall>n \<le> L. P (Suc n))"
  using ex_le_Suc [of L "\<lambda>n. \<not> P n"] by blast

definition longest_match :: "(byte list \<Rightarrow> 'v option) \<Rightarrow> byte list \<Rightarrow> nat \<Rightarrow> 'v \<Rightarrow> bool" where
  "longest_match m key n v \<longleftrightarrow>
     m (take n key) = Some v \<and> (\<forall>j \<le> length key. n < j \<longrightarrow> m (take j key) = None)"

lemma longest_match_Cons_Suc:
  "longest_match m (k # ks) (Suc n) v \<longleftrightarrow> longest_match (\<lambda>x. m (k # x)) ks n v"
  by (auto simp: longest_match_def all_le_Suc)

lemma longest_match_Cons_0:
  "longest_match m (k # ks) 0 v \<longleftrightarrow> m [] = Some v \<and> (\<forall>j \<le> length ks. m (k # take j ks) = None)"
  by (auto simp: longest_match_def all_le_Suc)

lemma best_prefix_iff:
  "best_prefix m ks p = Some v \<longleftrightarrow>
     (\<exists>n \<le> length ks. longest_match m ks n v)
     \<or> p = Some v \<and> (\<forall>j \<le> length ks. m (take j ks) = None)"
proof (induction ks arbitrary: m p)
  case Nil
  then show ?case by (auto simp: longest_match_def split: option.splits)
next
  case (Cons k ks)
  show ?case
    by (simp add: Cons.IH ex_le_Suc all_le_Suc longest_match_Cons_Suc longest_match_Cons_0)
      (auto split: option.splits)
qed

lemma trie_get_prefix_iff:
  "trie_get_prefix t key = Some v \<longleftrightarrow> (\<exists>n \<le> length key. longest_match (trie_get t) key n v)"
  by (simp add: trie_get_prefix_root node_get_prefix_best best_prefix_iff trie_get_root [abs_def])

lemma trie_get_prefix_None:
  "trie_get_prefix t key = None \<longleftrightarrow> (\<forall>n \<le> length key. trie_get t (take n key) = None)"
proof -
  have "best_prefix m ks p = None \<longleftrightarrow> p = None \<and> (\<forall>n \<le> length ks. m (take n ks) = None)"
    for m :: "byte list \<Rightarrow> 'a option" and ks p
    by (induction ks arbitrary: m p) (auto simp: all_le_Suc split: option.splits)
  then show ?thesis
    by (simp add: trie_get_prefix_root node_get_prefix_best trie_get_root [abs_def])
qed

text \<open>
  What the router relies on: a store of values by byte strings that also answers with the
  value of the longest stored prefix of a key.
\<close>

locale prefix_store =
  kv_store get put del ok_key inv
  for get :: "'m \<Rightarrow> byte list \<Rightarrow> 'v option" and put del ok_key inv +
  fixes get_prefix :: "'m \<Rightarrow> byte list \<Rightarrow> 'v option"
  assumes get_prefix_iff:
    "inv m \<Longrightarrow> get_prefix m key = Some v \<longleftrightarrow> (\<exists>n \<le> length key. longest_match (get m) key n v)"
begin

lemma get_prefix_exact: "inv m \<Longrightarrow> get m key = Some v \<Longrightarrow> get_prefix m key = Some v"
  by (auto simp: get_prefix_iff longest_match_def intro!: exI [of _ "length key"])

lemma get_prefix_cong:
  assumes "inv m" and "inv m'" and "\<And>n. n \<le> length key \<Longrightarrow> get m (take n key) = get m' (take n key)"
  shows "get_prefix m key = get_prefix m' key"
proof -
  have "get_prefix m key = Some v \<longleftrightarrow> get_prefix m' key = Some v" for v
    using assms by (auto simp: get_prefix_iff longest_match_def)
  then show ?thesis by (metis not_None_eq)
qed

text \<open>A stored key is the answer for itself, and only keys that extend it can change.\<close>

lemma get_prefix_put_same: "inv m \<Longrightarrow> ok_key k \<Longrightarrow> get_prefix (put k v m) k = Some v"
  by (rule get_prefix_exact) (simp_all add: inv_put get_put)

lemma get_prefix_put_other:
  assumes "inv m" and "ok_key k" and "take (length k) key \<noteq> k"
  shows "get_prefix (put k v m) key = get_prefix m key"
proof (rule get_prefix_cong)
  fix n assume "n \<le> length key"
  then have "take n key \<noteq> k" using assms(3) by auto
  then show "get (put k v m) (take n key) = get m (take n key)"
    using assms(1,2) by (simp add: get_put)
qed (use assms in \<open>simp_all add: inv_put\<close>)

end

interpretation routes: prefix_store trie_get trie_put trie_del "\<lambda>key. key \<noteq> []" trie_wf trie_get_prefix
  by unfold_locales (rule trie_get_prefix_iff)

section \<open>Properties\<close>

text \<open>
  C16. The trie refines a partial map: adding a value under a key updates the map of
  \<^verbatim>\<open>get_value\<close> at that key only, moving a value out returns what the map had and removes
  that key only, and both keep every vector of children at its 256 slots, so that no index by
  a byte is out of bounds.
\<close>

theorem trie_refines_map:
  assumes "trie_wf t" and "key \<noteq> []"
  shows "trie_add key v t = Some (trie_put key v t)
    \<and> trie_get (trie_put key v t) = (trie_get t)(key \<mapsto> v)
    \<and> fst (trie_move_out t key) = trie_get t key
    \<and> trie_get (snd (trie_move_out t key)) = (trie_get t)(key := None)
    \<and> trie_wf (trie_put key v t) \<and> trie_wf (snd (trie_move_out t key))"
  using assms trie.get_put [of t key v] trie.get_del [of t key] trie.inv_put [of t key v]
    trie.inv_del [of t key]
  by (simp add: trie_add_put trie_move_out_fst trie_del_def)

theorem trie_refines_map_witness:
  "trie_wf trie_new \<and> trie_add ''/a'' (1::nat) trie_new = Some (trie_put ''/a'' 1 trie_new)
   \<and> trie_get (trie_put ''/a'' 1 trie_new) = [''/a'' \<mapsto> (1::nat)]"
  using trie_refines_map [of "trie_new :: nat trie" "''/a''" 1] by simp

text \<open>
  C17. \<^verbatim>\<open>get_value_prefix\<close> returns the value of the longest prefix of the key that has
  one, and nothing exactly when no prefix has one.
\<close>

theorem trie_get_prefix_longest:
  "(trie_get_prefix t key = Some v \<longleftrightarrow>
      (\<exists>n \<le> length key. trie_get t (take n key) = Some v
         \<and> (\<forall>j \<le> length key. n < j \<longrightarrow> trie_get t (take j key) = None)))
   \<and> (trie_get_prefix t key = None \<longleftrightarrow> (\<forall>n \<le> length key. trie_get t (take n key) = None))"
  by (simp add: trie_get_prefix_iff trie_get_prefix_None longest_match_def)

theorem trie_get_prefix_longest_witness:
  "trie_get_prefix (trie_put ''/a'' (1::nat) trie_new) ''/ab'' = Some 1"
proof -
  have g: "trie_get (trie_put ''/a'' (1::nat) trie_new) = [''/a'' \<mapsto> 1]"
    using trie.get_put [of trie_new "''/a''" "1::nat"] by simp
  have "\<exists>n \<le> length ''/ab''. trie_get (trie_put ''/a'' (1::nat) trie_new) (take n ''/ab'') = Some 1
      \<and> (\<forall>j \<le> length ''/ab''. n < j \<longrightarrow> trie_get (trie_put ''/a'' (1::nat) trie_new) (take j ''/ab'') = None)"
    unfolding g by (intro exI [of _ 2]) (auto simp: le_Suc_eq numeral_eq_Suc)
  then show ?thesis
    using trie_get_prefix_longest [of "trie_put ''/a'' (1::nat) trie_new" "''/ab''" 1] by blast
qed

end
