(* ===== verification/Router.thy ===== *)
theory Router
  imports Route_Trie Http_Types "HOL-Library.Sublist"
begin

text \<open>
  \<^verbatim>\<open>router/mod.rs\<close>: a router keeps, for each registered path, one optional handler per
  HTTP method. Handlers are values of any type \<open>'h\<close> here; the server instantiates it.
\<close>

section \<open>Method handlers and the router\<close>

record 'h method_handlers =
  actions :: "'h option list"

definition method_handlers_new :: "'h method_handlers" where
  "method_handlers_new = \<lparr>actions = replicate (method_index get_last + 1) None\<rparr>"

definition get_action :: "'h method_handlers \<Rightarrow> http_method \<Rightarrow> 'h option" where
  "get_action mh m = actions mh ! method_index m"

record 'h router =
  routes :: "'h method_handlers trie"

definition router_new :: "'h router" where
  "router_new = \<lparr>routes = trie_new\<rparr>"

text \<open>\<open>None\<close> is the panic of the trie's assertion on an empty route.\<close>

definition router_add :: "string \<Rightarrow> http_method \<Rightarrow> 'h \<Rightarrow> 'h router \<Rightarrow> 'h router option" where
  "router_add route method action r =
     (let (moved, routes1) = trie_move_out (routes r) route;
          router_handlers = (case moved of None \<Rightarrow> method_handlers_new | Some route_actions \<Rightarrow> route_actions);
          router_handlers1 =
            router_handlers\<lparr>actions := (actions router_handlers)[method_index method := Some action]\<rparr>
      in (case trie_add route router_handlers1 routes1 of
            None \<Rightarrow> None
          | Some routes2 \<Rightarrow> Some (r\<lparr>routes := routes2\<rparr>)))"

definition router_get :: "'h router \<Rightarrow> string \<Rightarrow> http_method \<Rightarrow> 'h option" where
  "router_get r route method =
     (case trie_get (routes r) route of
        None \<Rightarrow> None
      | Some method_actions \<Rightarrow> get_action method_actions method)"

definition router_get_prefix :: "'h router \<Rightarrow> string \<Rightarrow> http_method \<Rightarrow> 'h option" where
  "router_get_prefix r route method =
     (case trie_get_prefix (routes r) route of
        None \<Rightarrow> None
      | Some method_actions \<Rightarrow> get_action method_actions method)"

text \<open>Registering a list of routes, as the programs do before they start the server.\<close>

fun router_add_all :: "(string \<times> http_method \<times> 'h) list \<Rightarrow> 'h router \<Rightarrow> 'h router option" where
  "router_add_all [] r = Some r"
| "router_add_all ((route, m, h) # rs) r =
     (case router_add route m h r of None \<Rightarrow> None | Some r' \<Rightarrow> router_add_all rs r')"

section \<open>Invariant\<close>

definition router_inv :: "'h router \<Rightarrow> bool" where
  "router_inv r \<longleftrightarrow> trie_wf (routes r) \<and>
     (\<forall>route mh. trie_get (routes r) route = Some mh \<longrightarrow>
        length (actions mh) = method_index get_last + 1)"

lemma router_new_inv [simp]: "router_inv router_new"
  by (simp add: router_inv_def router_new_def)

lemma length_method_handlers_new [simp]:
  "length (actions method_handlers_new) = method_index get_last + 1"
  by (simp add: method_handlers_new_def)

lemma get_action_new [simp]: "get_action method_handlers_new m = None"
  using method_index_bound [of m] unfolding get_action_def method_handlers_new_def
  by (simp del: method_index_bound replicate.simps add: nth_replicate)

definition handlers_at :: "'h router \<Rightarrow> string \<Rightarrow> 'h method_handlers" where
  "handlers_at r route =
     (case trie_get (routes r) route of None \<Rightarrow> method_handlers_new | Some mh \<Rightarrow> mh)"

definition set_action :: "'h method_handlers \<Rightarrow> http_method \<Rightarrow> 'h \<Rightarrow> 'h method_handlers" where
  "set_action mh m h = mh\<lparr>actions := (actions mh)[method_index m := Some h]\<rparr>"

lemma length_set_action [simp]: "length (actions (set_action mh m h)) = length (actions mh)"
  by (simp add: set_action_def)

lemma get_action_set_action:
  assumes "length (actions mh) = method_index get_last + 1"
  shows "get_action (set_action mh m h) = (get_action mh)(m \<mapsto> h)"
  using assms method_index_bound [of m]
  by (auto simp: fun_eq_iff get_action_def set_action_def nth_list_update)

lemma handlers_at_length:
  "router_inv r \<Longrightarrow> length (actions (handlers_at r route)) = method_index get_last + 1"
  by (auto simp: handlers_at_def router_inv_def split: option.split)

lemma router_get_handlers_at: "router_get r route m = get_action (handlers_at r route) m"
  by (simp add: router_get_def handlers_at_def split: option.split)

lemma router_add_eq:
  assumes "route \<noteq> []"
  shows "router_add route m h r =
     Some (r\<lparr>routes := trie_put route (set_action (handlers_at r route) m h) (trie_del route (routes r))\<rparr>)"
  using assms trie_move_out_fst [of "routes r" route]
  by (auto simp: router_add_def Let_def trie_add_put trie_del_def handlers_at_def set_action_def
      split: prod.splits)

lemma router_add_empty: "router_add [] m h r = None"
  by (simp add: router_add_def trie_add_def Let_def split: prod.split)

lemma router_add_nonempty: "router_add route m h r = Some r' \<Longrightarrow> route \<noteq> []"
  using router_add_empty [of m h r] by auto

lemma trie_get_router_add:
  assumes "router_inv r" and "router_add route m h r = Some r'"
  shows "trie_get (routes r') = (trie_get (routes r))(route \<mapsto> set_action (handlers_at r route) m h)"
    and "trie_wf (routes r')"
proof -
  have ne: "route \<noteq> []" by (rule router_add_nonempty [OF assms(2)])
  have wf: "trie_wf (routes r)" using assms(1) by (simp add: router_inv_def)
  have r': "r' = r\<lparr>routes := trie_put route (set_action (handlers_at r route) m h)
      (trie_del route (routes r))\<rparr>"
    using assms(2) by (simp add: router_add_eq [OF ne])
  show "trie_get (routes r') = (trie_get (routes r))(route \<mapsto> set_action (handlers_at r route) m h)"
    unfolding r' using trie.get_update [OF wf ne] by simp
  show "trie_wf (routes r')"
    unfolding r' using trie.inv_update [OF wf ne] by simp
qed

lemma router_add_inv:
  assumes "router_inv r" and "router_add route m h r = Some r'"
  shows "router_inv r'"
  using trie_get_router_add [OF assms] assms(1) handlers_at_length [OF assms(1), of route]
  by (auto simp: router_inv_def)

lemma router_get_add:
  assumes "router_inv r" and "router_add route m h r = Some r'"
  shows "router_get r' route' m' =
     (if route' = route \<and> m' = m then Some h else router_get r route' m')"
  using trie_get_router_add(1) [OF assms]
    get_action_set_action [OF handlers_at_length [OF assms(1), of route], of m h]
  by (auto simp: router_get_handlers_at handlers_at_def fun_eq_iff)

lemma router_add_all_inv:
  "router_add_all rs r = Some r' \<Longrightarrow> router_inv r \<Longrightarrow> router_inv r'"
  by (induction rs r rule: router_add_all.induct)
    (auto dest: router_add_inv split: option.splits)

lemma router_add_all_get:
  assumes "router_add_all rs r = Some r'" and "router_inv r"
  shows "router_get r' route m =
     (case map_of (rev (map (\<lambda>(p, m, h). ((p, m), h)) rs)) (route, m) of
        None \<Rightarrow> router_get r route m | Some h \<Rightarrow> Some h)"
  using assms
proof (induction rs r rule: router_add_all.induct)
  case (2 p n h rs r)
  from "2.prems"(1) obtain r1 where r1: "router_add p n h r = Some r1"
    and rest: "router_add_all rs r1 = Some r'" by (auto split: option.splits)
  from "2.IH" [OF r1 rest router_add_inv [OF "2.prems"(2) r1]]
  show ?case
    using router_get_add [OF "2.prems"(2) r1]
    by (auto simp: map_add_def split: option.splits)
qed simp

section \<open>Properties\<close>

text \<open>
  C24. Routes registered from the empty router: looking a path and a method up exactly gives
  the handler registered last for that pair, every registered route is non-empty, and the
  vectors of actions keep one slot per method.
\<close>

theorem router_add_all_lookup:
  assumes "router_add_all rs router_new = Some r"
  shows "router_get r route m = map_of (rev (map (\<lambda>(p, m, h). ((p, m), h)) rs)) (route, m)
    \<and> router_inv r"
proof -
  have "router_get router_new route m = None" by (simp add: router_get_def router_new_def)
  then show ?thesis
    using router_add_all_get [OF assms router_new_inv, of route m]
      router_add_all_inv [OF assms router_new_inv] by (simp split: option.splits)
qed

theorem router_add_all_lookup_witness:
  "\<exists>r. router_add_all [(''/a'', GET, 1::nat), (''/a'', POST, 2), (''/a'', GET, 3)] router_new = Some r
     \<and> router_get r ''/a'' GET = Some 3 \<and> router_get r ''/a'' POST = Some 2"
proof -
  let ?rs = "[(''/a'', GET, 1::nat), (''/a'', POST, 2), (''/a'', GET, 3)]"
  obtain r where r: "router_add_all ?rs router_new = Some r"
    by (auto simp: router_add_eq)
  show ?thesis
    using router_add_all_lookup [OF r, of "''/a''" GET] router_add_all_lookup [OF r, of "''/a''" POST] r
    by auto
qed

text \<open>
  The handler of a request is taken from the longest registered prefix of its path, at
  the byte level, and from no other one: when that path has no handler for the method there is
  none, even if a shorter registered path has one.
\<close>

theorem router_get_prefix_spec:
  "router_get_prefix r route m =
     (if \<forall>n \<le> length route. trie_get (routes r) (take n route) = None then None
      else router_get r (take (GREATEST n. n \<le> length route \<and> trie_get (routes r) (take n route) \<noteq> None) route) m)"
proof (cases "\<forall>n \<le> length route. trie_get (routes r) (take n route) = None")
  case True
  then have "trie_get_prefix (routes r) route = None" by (simp add: trie_get_prefix_None)
  with True show ?thesis by (simp add: router_get_prefix_def)
next
  case False
  let ?P = "\<lambda>n. n \<le> length route \<and> trie_get (routes r) (take n route) \<noteq> None"
  obtain v where v: "trie_get_prefix (routes r) route = Some v"
    using False trie_get_prefix_None [of "routes r" route] by auto
  then obtain n where n: "n \<le> length route" "longest_match (trie_get (routes r)) route n v"
    by (auto simp: trie_get_prefix_iff)
  then have "(GREATEST n. ?P n) = n"
    by (intro Greatest_equality) (auto simp: longest_match_def not_less [symmetric])
  with False n v show ?thesis
    by (auto simp: router_get_prefix_def router_get_def longest_match_def)
qed

theorem router_get_prefix_spec_witness:
  "router_get_prefix (router_new :: nat router) ''/a'' GET = None"
  using router_get_prefix_spec [of "router_new :: nat router" "''/a''" GET]
  by (simp add: router_new_def)

text \<open>
  Registering a handler makes it the answer for its path, and leaves the answers for every
  path that does not begin with the route's bytes as they were.
\<close>

theorem router_add_prefix:
  assumes "router_inv r" and "router_add route m h r = Some r'"
  shows "router_get_prefix r' route m = Some h
    \<and> (take (length route) path \<noteq> route \<longrightarrow> router_get_prefix r' path m' = router_get_prefix r path m')"
proof -
  have ne: "route \<noteq> []" by (rule router_add_nonempty [OF assms(2)])
  have wf: "trie_wf (trie_del route (routes r))" "trie_wf (routes r)"
    using assms(1) by (simp_all add: router_inv_def trie.inv_del)
  let ?mh = "set_action (handlers_at r route) m h"
  have r': "routes r' = trie_put route ?mh (trie_del route (routes r))"
    using assms(2) by (auto simp: router_add_eq [OF ne])
  have "trie_get_prefix (routes r') route = Some ?mh"
    unfolding r' by (rule routes.get_prefix_put_same [OF wf(1) ne])
  moreover have "get_action ?mh m = Some h"
    by (simp add: get_action_set_action [OF handlers_at_length [OF assms(1)]])
  moreover have "trie_get_prefix (routes r') path = trie_get_prefix (routes r) path"
    if "take (length route) path \<noteq> route"
  proof (rule routes.get_prefix_cong)
    fix n assume "n \<le> length path"
    then have "take n path \<noteq> route" using that by auto
    then show "trie_get (routes r') (take n path) = trie_get (routes r) (take n path)"
      by (simp add: trie_get_router_add(1) [OF assms])
  qed (simp_all add: wf trie_get_router_add(2) [OF assms])
  ultimately show ?thesis by (simp add: router_get_prefix_def)
qed

theorem router_add_prefix_witness:
  "\<exists>r'. router_add ''/a'' GET (7::nat) router_new = Some r'
     \<and> router_get_prefix r' ''/a'' GET = Some 7
     \<and> router_get_prefix r' ''/b'' GET = router_get_prefix router_new ''/b'' GET"
proof -
  obtain r' where r': "router_add ''/a'' GET (7::nat) router_new = Some r'"
    by (simp add: router_add_eq)
  show ?thesis
    using router_add_prefix [OF router_new_inv r', of "''/b''" GET] r' by auto
qed



end
