(* ===== verification/Url_Path.thy ===== *)
theory Url_Path
  imports Std_Strings
begin

text \<open>
  Paths: the part of \<^verbatim>\<open>std::path\<close> (on Unix) that \<^verbatim>\<open>router/mod.rs\<close> and the
  handlers use, and \<^verbatim>\<open>Normalize for PathBuf\<close>, with the stack machine it refines and
  the shape of its results.
\<close>

section \<open>\<^verbatim>\<open>std::path\<close> on Unix\<close>

datatype component = Prefix string | RootDir | CurDir | ParentDir | Normal string

abbreviation slash :: byte where "slash \<equiv> CHR ''/''"

definition has_root :: "string \<Rightarrow> bool" where
  "has_root p \<longleftrightarrow> (case p of [] \<Rightarrow> False | c # _ \<Rightarrow> c = slash)"

text \<open>Empty segments and single dots yield no component (but for a leading dot).\<close>

definition segment_component :: "string \<Rightarrow> component option" where
  "segment_component s =
     (if s = [] \<or> s = ''.'' then None else if s = ''..'' then Some ParentDir else Some (Normal s))"

definition components :: "string \<Rightarrow> component list" where
  "components p =
     (if has_root p then RootDir # List.map_filter segment_component (split_on slash (tl p))
      else (let segs = split_on slash p in
        (if hd segs = ''.'' then [CurDir] else []) @ List.map_filter segment_component segs))"

definition drop_trailing :: "('a \<Rightarrow> bool) \<Rightarrow> 'a list \<Rightarrow> 'a list" where
  "drop_trailing f xs = rev (dropWhile f (rev xs))"

definition skipped :: "string \<Rightarrow> bool" where
  "skipped s \<longleftrightarrow> segment_component s = None"

text \<open>
  \<^verbatim>\<open>Path::parent\<close>: the path without its last component and without the separators and
  dots before it; a root and the empty path have none.
\<close>

definition path_parent :: "string \<Rightarrow> string option" where
  "path_parent p =
     (if p = [] then None
      else if has_root p then
        (let segs = drop_trailing skipped (split_on slash (tl p)) in
         if segs = [] then None
         else Some (slash # join_with slash (drop_trailing skipped (butlast segs))))
      else
        (let segs = split_on slash p; rest = drop_trailing skipped (tl segs) in
         if rest = [] then Some []
         else Some (join_with slash (hd segs # drop_trailing skipped (butlast rest)))))"

definition path_push :: "string \<Rightarrow> string \<Rightarrow> string" where
  "path_push p q =
     (if has_root q then q
      else if p \<noteq> [] \<and> last p \<noteq> slash then p @ slash # q
      else p @ q)"

section \<open>\<^verbatim>\<open>Normalize for PathBuf\<close>\<close>

fun normalize_loop :: "component list \<Rightarrow> string \<Rightarrow> (string, string) res" where
  "normalize_loop [] normalized = Ok normalized"
| "normalize_loop (RootDir # cs) normalized = normalize_loop cs (path_push normalized [slash])"
| "normalize_loop (Prefix _ # cs) normalized = normalize_loop cs (path_push normalized [slash])"
| "normalize_loop (CurDir # cs) normalized = normalize_loop cs normalized"
| "normalize_loop (ParentDir # cs) normalized =
     (case path_parent normalized of
        None \<Rightarrow> Err ''invalid path''
      | Some parent \<Rightarrow> normalize_loop cs (path_push [] parent))"
| "normalize_loop (Normal dir # cs) normalized = normalize_loop cs (path_push normalized dir)"

definition normalize :: "string \<Rightarrow> (string, string) res" where
  "normalize p = (if \<not> has_root p then Err ''invalid path'' else normalize_loop (components p) [])"

section \<open>The reference: a stack of segments\<close>

definition normal_segment :: "string \<Rightarrow> bool" where
  "normal_segment s \<longleftrightarrow> s \<noteq> [] \<and> s \<noteq> ''.'' \<and> s \<noteq> ''..'' \<and> slash \<notin> set s"

definition canonical :: "string list \<Rightarrow> string" where
  "canonical st = slash # join_with slash st"

fun resolve :: "string list \<Rightarrow> string list \<Rightarrow> string list option" where
  "resolve st [] = Some st"
| "resolve st (s # ss) =
     (if s = [] \<or> s = ''.'' then resolve st ss
      else if s = ''..'' then (if st = [] then None else resolve (butlast st) ss)
      else resolve (st @ [s]) ss)"

lemma join_with_snoc: "st \<noteq> [] \<Longrightarrow> join_with d (st @ [s]) = join_with d st @ d # s"
  by (induction d st rule: join_with.induct) auto

lemma join_with_last:
  "st \<noteq> [] \<Longrightarrow> last st \<noteq> [] \<Longrightarrow> join_with d st \<noteq> [] \<and> last (join_with d st) = last (last st)"
proof (induction d st rule: join_with.induct)
  case (3 d p q ps)
  then show ?case by (cases "ps = []") auto
qed auto

lemma normal_last: "normal_segment s \<Longrightarrow> s \<noteq> [] \<and> last s \<noteq> slash"
  by (auto simp: normal_segment_def dest: last_in_set)

lemma has_root_canonical [simp]: "has_root (canonical st)"
  by (simp add: has_root_def canonical_def)

lemma path_push_canonical:
  assumes "\<forall>s \<in> set st. normal_segment s" and "normal_segment d"
  shows "path_push (canonical st) d = canonical (st @ [d])"
proof (cases "st = []")
  case True
  then show ?thesis
    using assms(2) by (auto simp: path_push_def canonical_def has_root_def normal_segment_def split: list.split)
next
  case False
  then have "normal_segment (last st)" using assms(1) by simp
  then have "last (join_with slash st) \<noteq> slash" "join_with slash st \<noteq> []"
    using join_with_last [of st slash] normal_last False by fastforce+
  then show ?thesis
    using assms(2) False
    by (auto simp: path_push_def canonical_def has_root_def normal_segment_def join_with_snoc
        split: list.split)
qed

lemma normal_not_skipped: "normal_segment s \<Longrightarrow> \<not> skipped s"
  by (simp add: normal_segment_def skipped_def segment_component_def)

lemma drop_trailing_normal [simp]:
  "\<forall>s \<in> set st. normal_segment s \<Longrightarrow> drop_trailing skipped st = st"
  by (cases st rule: rev_cases) (auto simp: drop_trailing_def normal_not_skipped)

lemma skipped_Nil [simp]: "skipped []"
  by (simp add: skipped_def segment_component_def)

lemma path_parent_canonical:
  assumes "\<forall>s \<in> set st. normal_segment s"
  shows "path_parent (canonical st) = (if st = [] then None else Some (canonical (butlast st)))"
proof (cases "st = []")
  case True
  then show ?thesis by (simp add: path_parent_def canonical_def has_root_def drop_trailing_def)
next
  case False
  have "split_on slash (join_with slash st) = st"
    using False assms by (intro split_on_join) (auto simp: normal_segment_def)
  moreover have "\<forall>s \<in> set (butlast st). normal_segment s"
    using assms by (meson in_set_butlastD)
  ultimately show ?thesis
    using False assms by (simp add: path_parent_def canonical_def has_root_def)
qed

lemma normalize_loop_resolve:
  assumes "\<forall>s \<in> set st. normal_segment s" and "\<forall>s \<in> set segs. slash \<notin> set s"
  shows "normalize_loop (List.map_filter segment_component segs) (canonical st) =
     (case resolve st segs of None \<Rightarrow> Err ''invalid path'' | Some st' \<Rightarrow> Ok (canonical st'))"
  using assms
proof (induction segs arbitrary: st)
  case Nil
  then show ?case by (simp add: map_filter_simps)
next
  case (Cons s ss)
  have pp: "path_push [] (canonical st') = canonical st'" for st'
    by (simp add: path_push_def)
  have ss: "\<forall>x \<in> set ss. slash \<notin> set x" using Cons.prems(2) by simp
  consider "s = [] \<or> s = ''.''" | "s = ''..''" | "normal_segment s"
    using Cons.prems(2) by (auto simp: normal_segment_def)
  then show ?case
  proof cases
    case 1
    then have "segment_component s = None" by (simp add: segment_component_def)
    then show ?thesis
      using 1 Cons.IH [OF Cons.prems(1) ss] by (simp add: map_filter_simps)
  next
    case 2
    then have c: "segment_component s = Some ParentDir" by (simp add: segment_component_def)
    have "\<forall>x \<in> set (butlast st). normal_segment x" using Cons.prems(1) by (meson in_set_butlastD)
    from Cons.IH [OF this ss] show ?thesis
      using c 2 by (simp add: map_filter_simps path_parent_canonical [OF Cons.prems(1)] pp)
  next
    case 3
    then have c: "segment_component s = Some (Normal s)" and ns: "s \<noteq> []" "s \<noteq> ''.''" "s \<noteq> ''..''"
      by (auto simp: segment_component_def normal_segment_def)
    have "\<forall>x \<in> set (st @ [s]). normal_segment x" using Cons.prems(1) 3 by simp
    from Cons.IH [OF this ss] show ?thesis
      using c ns by (simp add: map_filter_simps path_push_canonical [OF Cons.prems(1) 3])
  qed
qed

lemma resolve_normal:
  "resolve st segs = Some st' \<Longrightarrow> \<forall>s \<in> set st. normal_segment s \<Longrightarrow> \<forall>s \<in> set segs. slash \<notin> set s
   \<Longrightarrow> \<forall>s \<in> set st'. normal_segment s"
proof (induction segs arbitrary: st)
  case (Cons s ss)
  have ss: "\<forall>x \<in> set ss. slash \<notin> set x" using Cons.prems(3) by simp
  have bl: "\<forall>x \<in> set (butlast st). normal_segment x" using Cons.prems(2) by (meson in_set_butlastD)
  consider "s = [] \<or> s = ''.''" | "s = ''..''" | "normal_segment s"
    using Cons.prems(3) by (auto simp: normal_segment_def)
  then show ?case
  proof cases
    case 1
    then have "resolve st ss = Some st'" using Cons.prems(1) by simp
    then show ?thesis by (rule Cons.IH [OF _ Cons.prems(2) ss])
  next
    case 2
    then have "resolve (butlast st) ss = Some st'" using Cons.prems(1) by (simp split: if_splits)
    then show ?thesis by (rule Cons.IH [OF _ bl ss])
  next
    case 3
    then have "resolve (st @ [s]) ss = Some st'" using Cons.prems(1) by (simp add: normal_segment_def)
    moreover have "\<forall>x \<in> set (st @ [s]). normal_segment x" using Cons.prems(2) 3 by simp
    ultimately show ?thesis by (rule Cons.IH [OF _ _ ss])
  qed
qed simp

lemma resolve_all_normal: "\<forall>s \<in> set segs. normal_segment s \<Longrightarrow> resolve st segs = Some (st @ segs)"
proof (induction segs arbitrary: st)
  case (Cons s ss)
  then have "resolve (st @ [s]) ss = Some ((st @ [s]) @ ss)" by simp
  moreover have "s \<noteq> []" "s \<noteq> ''.''" "s \<noteq> ''..''"
    using Cons.prems by (simp_all add: normal_segment_def)
  ultimately show ?case by simp
qed simp

lemma normalize_eq:
  "normalize p =
     (if \<not> has_root p then Err ''invalid path''
      else case resolve [] (split_on slash (tl p)) of
             None \<Rightarrow> Err ''invalid path'' | Some st \<Rightarrow> Ok (canonical st))"
proof -
  have "path_push [] [slash] = canonical []"
    by (simp add: path_push_def has_root_def canonical_def)
  then show ?thesis
    using normalize_loop_resolve [of "[]" "split_on slash (tl p)"]
    by (auto simp: normalize_def components_def split_on_no_sep)
qed

lemma split_canonical:
  "\<forall>s \<in> set st. normal_segment s \<Longrightarrow>
     split_on slash (tl (canonical st)) = (if st = [] then [[]] else st)"
  by (auto simp: canonical_def normal_segment_def intro!: split_on_join)

lemma normalize_OkE:
  assumes "normalize p = Ok q"
  obtains st where "q = canonical st" "\<forall>s \<in> set st. normal_segment s"
    "resolve [] (split_on slash (tl p)) = Some st" "has_root p"
proof -
  from assms obtain st where st: "resolve [] (split_on slash (tl p)) = Some st"
    and q: "q = canonical st" and root: "has_root p"
    by (auto simp: normalize_eq split: if_splits option.splits)
  from st have "\<forall>s \<in> set st. normal_segment s"
    by (rule resolve_normal) (auto dest: split_on_no_sep)
  with that st q root show thesis by blast
qed

lemma normalize_canonical: "\<forall>s \<in> set st. normal_segment s \<Longrightarrow> normalize (canonical st) = Ok (canonical st)"
  by (auto simp: normalize_eq split_canonical resolve_all_normal)

section \<open>Properties\<close>

text \<open>
  C19. \<^verbatim>\<open>normalize\<close> refines a stack machine on the segments of the path: empty segments
  and dots are skipped, two dots pop, and popping the empty stack (leaving the root) or a path
  without a root is the error; otherwise the result is the canonical path of the stack.
\<close>

theorem normalize_refines_resolve:
  "normalize p =
     (if \<not> has_root p then Err ''invalid path''
      else case resolve [] (split_on slash (tl p)) of
             None \<Rightarrow> Err ''invalid path'' | Some st \<Rightarrow> Ok (canonical st))"
  by (rule normalize_eq)

text \<open>
  A normalised path is rooted, has no empty, dot or dot-dot segment, and normalising it
  again changes nothing.
\<close>

theorem normalize_canonical_idempotent:
  assumes "normalize p = Ok q"
  shows "(\<exists>st. q = canonical st \<and> (\<forall>s \<in> set st. normal_segment s)) \<and> normalize q = Ok q"
  using assms by (metis normalize_OkE normalize_canonical)

theorem normalize_canonical_idempotent_witness:
  "normalize ''/a/../b//c/.././'' = Ok ''/b'' \<and> normalize ''/b'' = Ok ''/b''"
proof -
  have h: "normalize ''/a/../b//c/.././'' = Ok ''/b''"
    by (simp add: normalize_eq has_root_def canonical_def)
  from normalize_canonical_idempotent [OF h] h show ?thesis by blast
qed

end
