(* ===== verification/Timeout_Stream.thy ===== *)
theory Timeout_Stream
  imports Std_Io
begin

text \<open>
  \<^verbatim>\<open>streams/timeout_stream.rs\<close>: a stream that limits the time of all its reads together,
  and of all its writes together. The stream below it, its time-out setters and the clock are
  the fields of a record that the definitions take; instants and durations are nanoseconds.
\<close>

section \<open>Durations and operations\<close>

type_synonym duration = nat

definition from_secs :: "nat \<Rightarrow> duration" where
  "from_secs s = s * 10 ^ 9"

definition as_secs :: "duration \<Rightarrow> nat" where
  "as_secs d = d div 10 ^ 9"

lemma as_secs_from_secs [simp]: "as_secs (from_secs s) = s"
  by (simp add: as_secs_def from_secs_def)

record operation =
  op_timeout :: duration
  op_started :: "nat option"
  op_elapsed_secs :: nat

definition op_from_timeout :: "duration \<Rightarrow> operation" where
  "op_from_timeout t = \<lparr>op_timeout = t, op_started = None, op_elapsed_secs = 0\<rparr>"

definition op_next_timeout :: "operation \<Rightarrow> duration" where
  "op_next_timeout op =
     (if as_secs (op_timeout op) \<le> op_elapsed_secs op then from_secs 0
      else from_secs (as_secs (op_timeout op) - op_elapsed_secs op))"

definition op_start :: "nat \<Rightarrow> operation \<Rightarrow> operation" where
  "op_start now op = op\<lparr>op_started := Some now\<rparr>"

definition op_stop :: "nat \<Rightarrow> operation \<Rightarrow> operation" where
  "op_stop now op =
     (case op_started op of
        Some started \<Rightarrow> op\<lparr>op_elapsed_secs := op_elapsed_secs op + as_secs (now - started)\<rparr>
      | None \<Rightarrow> op)"

section \<open>The stream\<close>

record 's timed =
  tm_read :: "'s reader"
  tm_write :: "'s writer"
  tm_flush :: "('s, unit, io_error) prog"
  tm_set_read_timeout :: "duration option \<Rightarrow> ('s, unit, io_error) prog"
  tm_set_write_timeout :: "duration option \<Rightarrow> ('s, unit, io_error) prog"
  tm_now :: "'s \<Rightarrow> nat"

record 's timeout_stream =
  ts_stream :: 's
  ts_read :: "duration option"
  ts_write :: "duration option"
  ts_ongoing_read :: "operation option"
  ts_ongoing_write :: "operation option"

definition timeout_stream_from :: "'s \<Rightarrow> duration option \<Rightarrow> duration option \<Rightarrow> 's timeout_stream" where
  "timeout_stream_from s r w =
     \<lparr>ts_stream = s, ts_read = r, ts_write = w, ts_ongoing_read = None, ts_ongoing_write = None\<rparr>"

definition would_block_is_timeout :: "('a, io_error) res \<Rightarrow> ('a, io_error) res" where
  "would_block_is_timeout r =
     (case r of Err e \<Rightarrow> (if io_kind e = WouldBlock then Err (io_error_from TimedOut) else Err e) | _ \<Rightarrow> r)"

text \<open>What \<^verbatim>\<open>read\<close> and \<^verbatim>\<open>write\<close> share: the operation around one call to the stream below.\<close>

definition timed_call ::
  "(duration option \<Rightarrow> ('s, unit, io_error) prog) \<Rightarrow> ('s \<Rightarrow> nat) \<Rightarrow> ('s, 'a, io_error) prog
     \<Rightarrow> operation \<Rightarrow> 's \<Rightarrow> (('a, io_error) res \<times> operation \<times> 's) option" where
  "timed_call set_timeout now io op s =
     (if as_secs (op_next_timeout op) = 0 then Some (Err (io_error_from TimedOut), op, s)
      else (case set_timeout (Some (op_next_timeout op)) s of
          None \<Rightarrow> None
        | Some (Err e, s1) \<Rightarrow> Some (Err e, op, s1)
        | Some (Panic, s1) \<Rightarrow> Some (Panic, op, s1)
        | Some (Ok _, s1) \<Rightarrow>
            (case io s1 of
               None \<Rightarrow> None
             | Some (r, s2) \<Rightarrow> Some (would_block_is_timeout r, op_stop (now s2) (op_start (now s1) op), s2))))"

definition timeout_read :: "'s timed \<Rightarrow> 's timeout_stream reader" where
  "timeout_read tm n ts =
     (case ts_read ts of
        None \<Rightarrow>
          (case tm_read tm n (ts_stream ts) of
             None \<Rightarrow> None | Some (r, s) \<Rightarrow> Some (r, ts\<lparr>ts_stream := s\<rparr>))
      | Some timeout \<Rightarrow>
          let op = (case ts_ongoing_read ts of None \<Rightarrow> op_from_timeout timeout | Some op \<Rightarrow> op) in
          (case timed_call (tm_set_read_timeout tm) (tm_now tm) (tm_read tm n) op (ts_stream ts) of
             None \<Rightarrow> None
           | Some (r, op', s) \<Rightarrow> Some (r, ts\<lparr>ts_stream := s, ts_ongoing_read := Some op'\<rparr>)))"

definition timeout_write :: "'s timed \<Rightarrow> 's timeout_stream writer" where
  "timeout_write tm bs ts =
     (case ts_write ts of
        None \<Rightarrow>
          (case tm_write tm bs (ts_stream ts) of
             None \<Rightarrow> None | Some (r, s) \<Rightarrow> Some (r, ts\<lparr>ts_stream := s\<rparr>))
      | Some timeout \<Rightarrow>
          let op = (case ts_ongoing_write ts of None \<Rightarrow> op_from_timeout timeout | Some op \<Rightarrow> op) in
          (case timed_call (tm_set_write_timeout tm) (tm_now tm) (tm_write tm bs) op (ts_stream ts) of
             None \<Rightarrow> None
           | Some (r, op', s) \<Rightarrow> Some (r, ts\<lparr>ts_stream := s, ts_ongoing_write := Some op'\<rparr>)))"

definition timeout_flush :: "'s timed \<Rightarrow> ('s timeout_stream, unit, io_error) prog" where
  "timeout_flush tm ts =
     (case tm_flush tm (ts_stream ts) of None \<Rightarrow> None | Some (r, s) \<Rightarrow> Some (r, ts\<lparr>ts_stream := s\<rparr>))"

section \<open>The budget of an operation\<close>

definition op_left :: "operation \<Rightarrow> nat" where
  "op_left op = as_secs (op_timeout op) - op_elapsed_secs op"

lemma next_timeout_left: "op_next_timeout op = from_secs (op_left op)"
  by (simp add: op_next_timeout_def op_left_def)

lemma op_stop_start [simp]:
  "op_elapsed_secs (op_stop t2 (op_start t1 op)) = op_elapsed_secs op + as_secs (t2 - t1)"
  "op_timeout (op_stop t2 (op_start t1 op)) = op_timeout op"
  by (simp_all add: op_stop_def op_start_def)

lemma op_left_stop: "op_left (op_stop t2 (op_start t1 op)) = op_left op - as_secs (t2 - t1)"
  by (simp add: op_left_def)

lemma as_secs_mono: "a \<le> b \<Longrightarrow> as_secs a \<le> as_secs b"
  by (simp add: as_secs_def div_le_mono)

lemma timed_call_expired: "op_left op = 0 \<Longrightarrow> timed_call st now io op s = Some (Err (io_error_from TimedOut), op, s)"
  by (simp add: timed_call_def next_timeout_left)

section \<open>A stream that is fast enough keeps its laws\<close>

text \<open>
  The stream below sets its time-outs, and no call takes a whole second. Then the operation never
  counts anything, and a stream with a budget of at least a second is as good as the one below.
\<close>

definition fast_op :: "duration option \<Rightarrow> operation option \<Rightarrow> bool" where
  "fast_op t op \<longleftrightarrow>
     (case t of None \<Rightarrow> True
      | Some d \<Rightarrow> 0 < op_left (case op of None \<Rightarrow> op_from_timeout d | Some op' \<Rightarrow> op'))"

locale fast_source = byte_source "tm_read tm" content ok retries
  for tm :: "'s timed" and content ok retries +
  assumes set_read_ok: "ok s \<Longrightarrow> \<exists>s'. tm_set_read_timeout tm t s = Some (Ok (), s')
      \<and> ok s' \<and> content s' = content s \<and> retries s' = retries s"
    and read_fast: "ok s \<Longrightarrow> tm_read tm n s = Some (r, s') \<Longrightarrow> as_secs (tm_now tm s' - tm_now tm s) = 0"
begin

lemma timeout_source:
  "byte_source (timeout_read tm) (\<lambda>ts. content (ts_stream ts))
     (\<lambda>ts. ok (ts_stream ts) \<and> fast_op (ts_read ts) (ts_ongoing_read ts)) (\<lambda>ts. retries (ts_stream ts))"
proof
  fix ts :: "'s timeout_stream" and n :: nat
  assume h: "ok (ts_stream ts) \<and> fast_op (ts_read ts) (ts_ongoing_read ts)" "0 < n" "content (ts_stream ts) \<noteq> []"
  show "(\<exists>bs ts'. timeout_read tm n ts = Some (Ok bs, ts') \<and> bs \<noteq> [] \<and> length bs \<le> n
      \<and> content (ts_stream ts) = bs @ content (ts_stream ts')
      \<and> ok (ts_stream ts') \<and> fast_op (ts_read ts') (ts_ongoing_read ts'))
    \<or> (\<exists>e ts'. timeout_read tm n ts = Some (Err e, ts') \<and> io_kind e = Interrupted
      \<and> content (ts_stream ts') = content (ts_stream ts) \<and> retries (ts_stream ts') < retries (ts_stream ts)
      \<and> ok (ts_stream ts') \<and> fast_op (ts_read ts') (ts_ongoing_read ts'))"
  proof (cases "ts_read ts")
    case None
    from read_data [OF conjunct1 [OF h(1)] h(2,3)] None show ?thesis
      by (elim disjE exE conjE) (auto simp: timeout_read_def fast_op_def)
  next
    case (Some d)
    define op where "op = (case ts_ongoing_read ts of None \<Rightarrow> op_from_timeout d | Some op \<Rightarrow> op)"
    have left: "0 < op_left op" using h(1) Some by (simp add: fast_op_def op_def)
    obtain s1 where s1: "tm_set_read_timeout tm (Some (from_secs (op_left op))) (ts_stream ts) = Some (Ok (), s1)"
      "ok s1" "content s1 = content (ts_stream ts)" "retries s1 = retries (ts_stream ts)"
      using set_read_ok h(1) by blast
    have ne: "content s1 \<noteq> []" using s1(3) h(3) by simp
    have fast: "0 < op_left (op_stop (tm_now tm s2) (op_start (tm_now tm s1) op))"
      if "tm_read tm n s1 = Some (r, s2)" for r s2
      using read_fast [OF s1(2) that] left by (simp add: op_left_stop)
    from read_data [OF s1(2) h(2) ne] show ?thesis
      using Some s1 left fast
      by (elim disjE exE conjE)
        (auto simp: timeout_read_def timed_call_def next_timeout_left op_def [symmetric] Let_def
          would_block_is_timeout_def fast_op_def)
  qed
qed

text \<open>The end of the input comes through as well.\<close>

lemma timeout_eof_source:
  assumes "\<And>s n. ok s \<Longrightarrow> content s = [] \<Longrightarrow> \<exists>s'. tm_read tm n s = Some (Ok [], s') \<and> content s' = [] \<and> ok s'"
  shows "eof_source (timeout_read tm) (\<lambda>ts. content (ts_stream ts))
     (\<lambda>ts. ok (ts_stream ts) \<and> fast_op (ts_read ts) (ts_ongoing_read ts)) (\<lambda>ts. retries (ts_stream ts))"
proof (intro eof_source.intro eof_source_axioms.intro timeout_source)
  fix ts :: "'s timeout_stream" and n :: nat
  assume h: "ok (ts_stream ts) \<and> fast_op (ts_read ts) (ts_ongoing_read ts)" "content (ts_stream ts) = []"
  show "\<exists>ts'. timeout_read tm n ts = Some (Ok [], ts') \<and> content (ts_stream ts') = []
    \<and> ok (ts_stream ts') \<and> fast_op (ts_read ts') (ts_ongoing_read ts')"
  proof (cases "ts_read ts")
    case None
    with assms [of "ts_stream ts" n] h show ?thesis by (auto simp: timeout_read_def fast_op_def)
  next
    case (Some d)
    define op where "op = (case ts_ongoing_read ts of None \<Rightarrow> op_from_timeout d | Some op \<Rightarrow> op)"
    have left: "0 < op_left op" using h(1) Some by (simp add: fast_op_def op_def)
    obtain s1 where s1: "tm_set_read_timeout tm (Some (from_secs (op_left op))) (ts_stream ts) = Some (Ok (), s1)"
      "ok s1" "content s1 = []"
      using set_read_ok h by metis
    obtain s2 where s2: "tm_read tm n s1 = Some (Ok [], s2)" "content s2 = []" "ok s2"
      using assms [OF s1(2,3)] by blast
    have "0 < op_left (op_stop (tm_now tm s2) (op_start (tm_now tm s1) op))"
      using read_fast [OF s1(2) s2(1)] left by (simp add: op_left_stop)
    with Some s1 s2 left show ?thesis
      by (auto simp: timeout_read_def timed_call_def next_timeout_left op_def [symmetric] Let_def
          would_block_is_timeout_def fast_op_def)
  qed
qed

end

locale fast_sink = full_sink "tm_write tm" appended wok wretries
  for tm :: "'s timed" and appended wok wretries +
  assumes set_write_ok: "wok s \<Longrightarrow> \<exists>s'. tm_set_write_timeout tm t s = Some (Ok (), s')
      \<and> wok s' \<and> appended s [] s'"
    and write_fast: "wok s \<Longrightarrow> tm_write tm bs s = Some (r, s') \<Longrightarrow> as_secs (tm_now tm s' - tm_now tm s) = 0"
begin

lemma timeout_write_full:
  assumes "wok (ts_stream ts) \<and> fast_op (ts_write ts) (ts_ongoing_write ts)"
  shows "\<exists>ts'. timeout_write tm bs ts = Some (Ok (length bs), ts')
    \<and> appended (ts_stream ts) bs (ts_stream ts') \<and> wok (ts_stream ts')
    \<and> fast_op (ts_write ts') (ts_ongoing_write ts')"
proof (cases "ts_write ts")
  case None
  then show ?thesis using assms write_full [of "ts_stream ts" bs] by (auto simp: timeout_write_def fast_op_def)
next
  case (Some d)
  define op where "op = (case ts_ongoing_write ts of None \<Rightarrow> op_from_timeout d | Some op \<Rightarrow> op)"
  have left: "0 < op_left op" using assms Some by (simp add: fast_op_def op_def)
  obtain s1 where s1: "tm_set_write_timeout tm (Some (from_secs (op_left op))) (ts_stream ts) = Some (Ok (), s1)"
    "wok s1" "appended (ts_stream ts) [] s1"
    using set_write_ok assms by blast
  obtain s2 where s2: "tm_write tm bs s1 = Some (Ok (length bs), s2)" "appended s1 bs s2" "wok s2"
    using write_full [OF s1(2)] by blast
  have "0 < op_left (op_stop (tm_now tm s2) (op_start (tm_now tm s1) op))"
    using write_fast [OF s1(2) s2(1)] left by (simp add: op_left_stop)
  then show ?thesis
    using Some s1 s2 left appended_trans [OF s1(3) s2(2)]
    by (auto simp: timeout_write_def timed_call_def next_timeout_left op_def [symmetric] Let_def
        would_block_is_timeout_def fast_op_def)
qed

lemma timeout_sink:
  "full_sink (timeout_write tm) (\<lambda>ts bs ts'. appended (ts_stream ts) bs (ts_stream ts'))
     (\<lambda>ts. wok (ts_stream ts) \<and> fast_op (ts_write ts) (ts_ongoing_write ts)) (\<lambda>ts. wretries (ts_stream ts))"
proof
  fix ts :: "'s timeout_stream" and bs :: "byte list"
  assume h: "wok (ts_stream ts) \<and> fast_op (ts_write ts) (ts_ongoing_write ts)"
  note full = timeout_write_full [OF h, of bs]
  then show "\<exists>ts'. timeout_write tm bs ts = Some (Ok (length bs), ts')
    \<and> appended (ts_stream ts) bs (ts_stream ts')
    \<and> wok (ts_stream ts') \<and> fast_op (ts_write ts') (ts_ongoing_write ts')" .
  assume "bs \<noteq> []"
  then show "(\<exists>n ts'. timeout_write tm bs ts = Some (Ok n, ts') \<and> 0 < n \<and> n \<le> length bs
      \<and> appended (ts_stream ts) (take n bs) (ts_stream ts')
      \<and> wok (ts_stream ts') \<and> fast_op (ts_write ts') (ts_ongoing_write ts'))
    \<or> (\<exists>e ts'. timeout_write tm bs ts = Some (Err e, ts') \<and> io_kind e = Interrupted
      \<and> appended (ts_stream ts) [] (ts_stream ts') \<and> wretries (ts_stream ts') < wretries (ts_stream ts)
      \<and> wok (ts_stream ts') \<and> fast_op (ts_write ts') (ts_ongoing_write ts'))"
    using full by auto
qed (auto intro: appended_Nil appended_trans)

end

section \<open>A peer that sends one byte in just under a second\<close>

definition drip_read :: "(nat \<times> byte list) reader" where
  "drip_read n s = (if n = 0 \<or> snd s = [] then Some (Ok [], s)
     else Some (Ok [hd (snd s)], (fst s + 999999999, tl (snd s))))"

definition drip :: "(nat \<times> byte list) timed" where
  "drip = \<lparr>tm_read = drip_read, tm_write = \<lambda>bs s. Some (Ok (length bs), s), tm_flush = ret (),
     tm_set_read_timeout = \<lambda>_. ret (), tm_set_write_timeout = \<lambda>_. ret (), tm_now = fst\<rparr>"

interpretation drip: fast_source drip snd "\<lambda>s. fst s + 999999999 * length (snd s) = finish" "\<lambda>_. 0"
proof
  fix s :: "nat \<times> byte list" and n :: nat
  assume "fst s + 999999999 * length (snd s) = finish" "0 < n" "snd s \<noteq> []"
  then show "(\<exists>bs s'. tm_read drip n s = Some (Ok bs, s') \<and> bs \<noteq> [] \<and> length bs \<le> n
      \<and> snd s = bs @ snd s' \<and> fst s' + 999999999 * length (snd s') = finish)
    \<or> (\<exists>e s'. tm_read drip n s = Some (Err e, s') \<and> io_kind e = Interrupted \<and> snd s' = snd s
      \<and> (0::nat) < 0 \<and> fst s' + 999999999 * length (snd s') = finish)"
    by (cases "snd s") (simp_all add: drip_def drip_read_def Suc_le_eq)
next
  fix s s' :: "nat \<times> byte list" and n r
  assume "tm_read drip n s = Some (r, s')"
  then show "as_secs (tm_now drip s' - tm_now drip s) = 0"
    by (auto simp: drip_def drip_read_def as_secs_def split: if_splits)
qed (simp add: drip_def)

section \<open>Properties\<close>

definition current_read :: "duration \<Rightarrow> 's timeout_stream \<Rightarrow> operation" where
  "current_read d ts = (case ts_ongoing_read ts of None \<Rightarrow> op_from_timeout d | Some op \<Rightarrow> op)"



text \<open>
  C27. Whole seconds are counted for each read on its own, so a peer that sends one byte in just
  under a second is never timed out: with a budget of one second, a line of any length is read to
  its end, and the clock has gone on by almost a second for every byte.
\<close>

theorem slow_peer_never_times_out:
  "LF \<notin> set line \<Longrightarrow>
   \<exists>b. read_until (timeout_read drip) LF []
          (bufreader_new (timeout_stream_from (0, line @ [LF]) (Some (from_secs 1)) None))
        = Some (Ok (line @ [LF]), b)
     \<and> tm_now drip (ts_stream (br_src b)) = 999999999 * length (line @ [LF])"
proof -
  assume line: "LF \<notin> set line"
  let ?b = "bufreader_new (timeout_stream_from (0, line @ [LF]) (Some (from_secs 1)) None)"
  let ?finish = "999999999 * length (line @ [LF])"
  note src = drip.timeout_source [of ?finish]
  have ok: "fst (ts_stream (br_src ?b)) + 999999999 * length (snd (ts_stream (br_src ?b))) = ?finish
      \<and> fast_op (ts_read (br_src ?b)) (ts_ongoing_read (br_src ?b))"
    by (simp add: timeout_stream_from_def fast_op_def op_from_timeout_def op_left_def)
  have content: "br_content (\<lambda>ts. snd (ts_stream ts)) ?b = line @ LF # []"
    by (simp add: timeout_stream_from_def)
  from byte_source.read_until_found [OF src ok content line, of "[]"]
  obtain b where "read_until (timeout_read drip) LF [] ?b = Some (Ok (line @ [LF]), b)"
    "br_content (\<lambda>ts. snd (ts_stream ts)) b = []"
    "fst (ts_stream (br_src b)) + 999999999 * length (snd (ts_stream (br_src b))) = ?finish"
    by auto
  then show ?thesis by (auto simp: br_content_def drip_def)
qed

theorem slow_peer_never_times_out_witness:
  "\<exists>b. read_until (timeout_read drip) LF []
          (bufreader_new (timeout_stream_from (0, ''GET'' @ [LF]) (Some (from_secs 1)) None))
        = Some (Ok (''GET'' @ [LF]), b)"
  using slow_peer_never_times_out [of "''GET''"] by auto

end
