(* ===== verification/Cancellable_Stream.thy ===== *)
theory Cancellable_Stream
  imports Timeout_Stream
begin

text \<open>
  \<^verbatim>\<open>streams/cancellable_stream.rs\<close>: blocking reads and writes with time-outs over a
  non-blocking stream and a poller, which another thread can cancel. The stream below
  (\<^verbatim>\<open>BaseStream\<close>), the poller of the \<^verbatim>\<open>polling\<close> crate and the clock are the
  fields of a record that the definitions take; their state includes what other threads do to
  the \<^verbatim>\<open>done\<close> flag.
\<close>

section \<open>The stream and what is below it\<close>

record event =
  ev_key :: nat
  ev_readable :: bool
  ev_writable :: bool

definition event_readable :: "nat \<Rightarrow> event" where
  "event_readable k = \<lparr>ev_key = k, ev_readable = True, ev_writable = False\<rparr>"

definition event_writable :: "nat \<Rightarrow> event" where
  "event_writable k = \<lparr>ev_key = k, ev_readable = False, ev_writable = True\<rparr>"

definition event_all :: "nat \<Rightarrow> event" where
  "event_all k = \<lparr>ev_key = k, ev_readable = True, ev_writable = True\<rparr>"

record 's os =
  os_poller_new :: "('s, unit, io_error) prog"
  os_add :: "event \<Rightarrow> ('s, unit, io_error) prog"
  os_modify :: "event \<Rightarrow> ('s, unit, io_error) prog"
  os_wait :: "duration option \<Rightarrow> ('s, event list, io_error) prog"
  os_read :: "'s reader"
  os_write :: "'s writer"
  os_flush :: "('s, unit, io_error) prog"
  os_shutdown :: "('s, unit, io_error) prog"
  os_set_nonblocking :: "bool \<Rightarrow> ('s, unit, io_error) prog"
  os_set_read_timeout :: "duration option \<Rightarrow> ('s, unit, io_error) prog"
  os_set_write_timeout :: "duration option \<Rightarrow> ('s, unit, io_error) prog"
  os_done :: "'s \<Rightarrow> bool"
  os_set_done :: "'s \<Rightarrow> 's"
  os_now :: "'s \<Rightarrow> nat"

record 's cancellable =
  cs_stream :: 's
  cs_read_timeout :: "duration option"
  cs_write_timeout :: "duration option"

definition cancellable_new :: "'s os \<Rightarrow> ('s, 's cancellable, io_error) prog" where
  "cancellable_new os =
     and_then (os_poller_new os) (\<lambda>_.
     and_then (os_set_nonblocking os True) (\<lambda>_.
     and_then (os_add os (event_all 1)) (\<lambda>_ s.
       Some (Ok \<lparr>cs_stream = s, cs_read_timeout = None, cs_write_timeout = None\<rparr>, s))))"

definition set_read_timeout :: "duration option \<Rightarrow> ('s cancellable, unit, io_error) prog" where
  "set_read_timeout d c = Some (Ok (), c\<lparr>cs_read_timeout := d\<rparr>)"

definition set_write_timeout :: "duration option \<Rightarrow> ('s cancellable, unit, io_error) prog" where
  "set_write_timeout d c = Some (Ok (), c\<lparr>cs_write_timeout := d\<rparr>)"

definition on_stream :: "('s, 'a, 'e) prog \<Rightarrow> ('s cancellable, 'a, 'e) prog" where
  "on_stream m c = (case m (cs_stream c) of None \<Rightarrow> None | Some (r, s) \<Rightarrow> Some (r, c\<lparr>cs_stream := s\<rparr>))"

definition cancellable_shutdown :: "'s os \<Rightarrow> ('s cancellable, unit, io_error) prog" where
  "cancellable_shutdown os c = on_stream (os_shutdown os) (c\<lparr>cs_stream := os_set_done os (cs_stream c)\<rparr>)"

definition cancellable_flush :: "'s os \<Rightarrow> ('s cancellable, unit, io_error) prog" where
  "cancellable_flush os = on_stream (os_flush os)"

text \<open>Why a wait that returned no event ended.\<close>

definition no_event_error :: "'s os \<Rightarrow> 's \<Rightarrow> io_error" where
  "no_event_error os s = io_error_from (if os_done os s then NotConnected else TimedOut)"

section \<open>\<^verbatim>\<open>read_int\<close>\<close>

text \<open>The loop over the events; \<open>acc\<close> are the bytes read so far of the \<open>n\<close> that fit.\<close>

fun read_events :: "'s os \<Rightarrow> nat \<Rightarrow> byte list \<Rightarrow> event list \<Rightarrow> ('s, byte list, io_error) prog" where
  "read_events os n acc [] s = Some (Ok acc, s)"
| "read_events os n acc (evt # evts) s =
     (if ev_key evt \<noteq> 1 then read_events os n acc evts s
      else (case os_read os (n - length acc) s of
          None \<Rightarrow> None
        | Some (r, s') \<Rightarrow>
            (case (if r = Ok [] \<and> os_done os s' then Err (io_error_from NotConnected) else r) of
               Ok bs \<Rightarrow>
                 if length (acc @ bs) = n then Some (Ok (acc @ bs), s')
                 else read_events os n (acc @ bs) evts s'
             | Err e \<Rightarrow> Some (Err (if io_kind e = WouldBlock then io_error_from Interrupted else e), s')
             | Panic \<Rightarrow> Some (Panic, s'))))"

definition read_int :: "'s os \<Rightarrow> 's cancellable reader" where
  "read_int os n c =
     on_stream
       (and_then (os_modify os (event_readable 1)) (\<lambda>_.
        and_then (os_wait os (cs_read_timeout c)) (\<lambda>events.
          if length events = 0 then (\<lambda>s. Some (Err (no_event_error os s), s))
          else and_then (read_events os n [] events) (\<lambda>bs.
            if length bs = 0 then fail (io_error_from ConnectionReset) else ret bs)))) c"

section \<open>\<^verbatim>\<open>write_int\<close>\<close>

text \<open>The loop over the events of one wait; the result is the number of bytes written then.\<close>

fun write_events :: "'s os \<Rightarrow> byte list \<Rightarrow> event list \<Rightarrow> ('s, nat, io_error) prog" where
  "write_events os bs [] s = Some (Ok 0, s)"
| "write_events os bs (evt # evts) s =
     (if ev_key evt \<noteq> 1 \<or> \<not> ev_writable evt then write_events os bs evts s
      else (case os_write os bs s of
          None \<Rightarrow> None
        | Some (Ok n, s') \<Rightarrow> Some (Ok n, s')
        | Some (Panic, s') \<Rightarrow> Some (Panic, s')
        | Some (Err e, s') \<Rightarrow>
            if io_kind e = WouldBlock then Some (Ok 0, s')
            else and_then (os_set_nonblocking os False) (\<lambda>_. fail e) s'))"

partial_function (option) write_loop ::
  "'s os \<Rightarrow> duration option \<Rightarrow> byte list \<Rightarrow> nat \<Rightarrow> 's \<Rightarrow> ((nat, io_error) res \<times> 's) option" where
  "write_loop os timeout buf written s =
     (if written < length buf then
        (case and_then (os_modify os (event_writable 1)) (\<lambda>_.
              and_then (os_wait os timeout) (\<lambda>events.
                if length events = 0 then (\<lambda>s. Some (Err (no_event_error os s), s))
                else write_events os (drop written buf) events)) s of
           None \<Rightarrow> None
         | Some (r, s') \<Rightarrow>
             (case r of
                Ok n \<Rightarrow> write_loop os timeout buf (written + n) s'
              | Err e \<Rightarrow> Some (Err e, s')
              | Panic \<Rightarrow> Some (Panic, s')))
      else Some (Ok written, s))"

definition write_int :: "'s os \<Rightarrow> 's cancellable writer" where
  "write_int os buf c = on_stream (write_loop os (cs_write_timeout c) buf 0) c"

text \<open>\<^verbatim>\<open>Timeout for CancellableStream\<close> hands on to the setters of the stream.\<close>

definition timeout_set_read :: "duration option \<Rightarrow> ('s cancellable, unit, io_error) prog" where
  [simp]: "timeout_set_read d = set_read_timeout d"

definition timeout_set_write :: "duration option \<Rightarrow> ('s cancellable, unit, io_error) prog" where
  [simp]: "timeout_set_write d = set_write_timeout d"

text \<open>The stream as the server uses it, below a \<^verbatim>\<open>TimeoutStream\<close>.\<close>

definition cancellable_timed :: "'s os \<Rightarrow> 's cancellable timed" where
  "cancellable_timed os =
     \<lparr>tm_read = read_int os, tm_write = write_int os, tm_flush = cancellable_flush os,
      tm_set_read_timeout = timeout_set_read, tm_set_write_timeout = timeout_set_write,
      tm_now = (\<lambda>c. os_now os (cs_stream c))\<rparr>"

section \<open>The interface of the system\<close>

text \<open>
  What the code relies on below it, for a connection that is not shut down: registering an
  interest changes nothing, a wait reports the one registered source (the documentation of
  \<^verbatim>\<open>polling\<close>), a read delivers bytes that are there or would block, and a write takes
  some bytes or would block, finitely often in a row.
\<close>

locale socket =
  fixes os :: "'s os" and incoming outgoing :: "'s \<Rightarrow> byte list" and up :: "'s \<Rightarrow> bool"
    and tries :: "'s \<Rightarrow> nat"
  assumes modify_ok: "up s \<Longrightarrow> \<exists>s'. os_modify os e s = Some (Ok (), s') \<and> up s'
      \<and> incoming s' = incoming s \<and> outgoing s' = outgoing s \<and> tries s' = tries s"
    and wait_ok: "up s \<Longrightarrow> \<exists>s' e. os_wait os t s = Some (Ok [e], s') \<and> ev_key e = 1 \<and> ev_writable e
      \<and> up s' \<and> incoming s' = incoming s \<and> outgoing s' = outgoing s \<and> tries s' = tries s"
    and read_ok: "up s \<Longrightarrow> 0 < n \<Longrightarrow> incoming s \<noteq> [] \<Longrightarrow>
      (\<exists>bs s'. os_read os n s = Some (Ok bs, s') \<and> bs \<noteq> [] \<and> length bs \<le> n
         \<and> incoming s = bs @ incoming s' \<and> outgoing s' = outgoing s \<and> up s')
      \<or> (\<exists>e s'. os_read os n s = Some (Err e, s') \<and> io_kind e = WouldBlock \<and> up s'
         \<and> incoming s' = incoming s \<and> outgoing s' = outgoing s \<and> tries s' < tries s)"
    and write_ok: "up s \<Longrightarrow> bs \<noteq> [] \<Longrightarrow>
      (\<exists>n s'. os_write os bs s = Some (Ok n, s') \<and> 0 < n \<and> n \<le> length bs
         \<and> outgoing s' = outgoing s @ take n bs \<and> incoming s' = incoming s \<and> up s')
      \<or> (\<exists>e s'. os_write os bs s = Some (Err e, s') \<and> io_kind e = WouldBlock \<and> up s'
         \<and> incoming s' = incoming s \<and> outgoing s' = outgoing s \<and> tries s' < tries s)"
begin

text \<open>Reading is a byte source: a read that would block is reported as interrupted.\<close>

lemma read_source:
  "byte_source (read_int os) (\<lambda>c. incoming (cs_stream c))
     (\<lambda>c. up (cs_stream c) \<and> outgoing (cs_stream c) = sent) (\<lambda>c. tries (cs_stream c))"
proof
  fix c :: "'s cancellable" and n :: nat
  assume "up (cs_stream c) \<and> outgoing (cs_stream c) = sent"
  then have h: "up (cs_stream c)" and sent: "outgoing (cs_stream c) = sent" by auto
  assume n: "0 < n" "incoming (cs_stream c) \<noteq> []"
  obtain s1 where s1: "os_modify os (event_readable 1) (cs_stream c) = Some (Ok (), s1)" "up s1"
    "incoming s1 = incoming (cs_stream c)" "outgoing s1 = sent" "tries s1 = tries (cs_stream c)"
    using modify_ok [OF h] sent by blast
  obtain s2 e where s2: "os_wait os (cs_read_timeout c) s1 = Some (Ok [e], s2)" "ev_key e = 1" "up s2"
    "incoming s2 = incoming s1" "outgoing s2 = outgoing s1" "tries s2 = tries s1"
    using wait_ok [OF s1(2)] by blast
  have "incoming s2 \<noteq> []" using s1 s2 n by simp
  from read_ok [OF s2(3) n(1) this]
  show "(\<exists>bs c'. read_int os n c = Some (Ok bs, c') \<and> bs \<noteq> [] \<and> length bs \<le> n
        \<and> incoming (cs_stream c) = bs @ incoming (cs_stream c')
        \<and> up (cs_stream c') \<and> outgoing (cs_stream c') = sent)
    \<or> (\<exists>e c'. read_int os n c = Some (Err e, c') \<and> io_kind e = Interrupted
        \<and> incoming (cs_stream c') = incoming (cs_stream c) \<and> tries (cs_stream c') < tries (cs_stream c)
        \<and> up (cs_stream c') \<and> outgoing (cs_stream c') = sent)"
    using s1 s2
    by (elim disjE exE conjE) (auto simp: read_int_def on_stream_def and_then_def)
qed

text \<open>One \<^verbatim>\<open>write\<close> does not return before everything is written.\<close>

lemma write_loop_all:
  assumes "up s" and "written \<le> length buf"
  shows "\<exists>s'. write_loop os t buf written s = Some (Ok (length buf), s') \<and> up s'
    \<and> outgoing s' = outgoing s @ drop written buf \<and> incoming s' = incoming s"
  using assms
proof (induction "(written, s)" arbitrary: written s rule:
    wf_induct_rule [OF wf_measures [of "[\<lambda>(k, s). length buf - k, \<lambda>(k, s). tries s]"]])
  case (1 written s)
  show ?case
  proof (cases "written < length buf")
    case False
    then show ?thesis using "1.prems" by (subst write_loop.simps) simp
  next
    case True
    obtain s1 where s1: "os_modify os (event_writable 1) s = Some (Ok (), s1)" "up s1"
      "incoming s1 = incoming s" "outgoing s1 = outgoing s" "tries s1 = tries s"
      using modify_ok [OF "1.prems"(1)] by blast
    obtain s2 e where s2: "os_wait os t s1 = Some (Ok [e], s2)" "ev_key e = 1" "ev_writable e" "up s2"
      "incoming s2 = incoming s" "outgoing s2 = outgoing s" "tries s2 = tries s"
      using wait_ok [OF s1(2)] s1 by metis
    have "drop written buf \<noteq> []" using True by simp
    from write_ok [OF s2(4) this] show ?thesis
    proof (elim disjE exE conjE)
      fix n s' assume h: "os_write os (drop written buf) s2 = Some (Ok n, s')" "0 < n"
        "n \<le> length (drop written buf)" "outgoing s' = outgoing s2 @ take n (drop written buf)"
        "incoming s' = incoming s2" "up s'"
      have lt: "((written + n, s'), (written, s)) \<in> measures [\<lambda>(k, s). length buf - k, \<lambda>(k, s). tries s]"
        using diff_less_mono2 [of written "written + n" "length buf"] True h(2) by simp
      have "written + n \<le> length buf" using h(3) True by simp
      from "1.hyps" [OF lt h(6) this] obtain s3 where s3:
        "write_loop os t buf (written + n) s' = Some (Ok (length buf), s3)" "up s3"
        "outgoing s3 = outgoing s' @ drop (written + n) buf" "incoming s3 = incoming s'" by blast
      have "take n (drop written buf) @ drop (written + n) buf = drop written buf"
        by (metis add.commute append_take_drop_id drop_drop)
      then show ?thesis
        using True s1(1) s2 h s3 by (subst write_loop.simps) (simp add: and_then_def)
    next
      fix e' s' assume h: "os_write os (drop written buf) s2 = Some (Err e', s')" "io_kind e' = WouldBlock"
        "up s'" "incoming s' = incoming s2" "outgoing s' = outgoing s2" "tries s' < tries s2"
      have lt: "((written, s'), (written, s)) \<in> measures [\<lambda>(k, s). length buf - k, \<lambda>(k, s). tries s]"
        using h(6) s2(7) by simp
      from "1.hyps" [OF lt h(3) "1.prems"(2)] show ?thesis
        using True s1(1) s2 h by (subst write_loop.simps) (simp add: and_then_def)
    qed
  qed
qed

lemma write_int_all:
  assumes "up (cs_stream c)"
  shows "\<exists>c'. write_int os bs c = Some (Ok (length bs), c') \<and> up (cs_stream c')
    \<and> outgoing (cs_stream c') = outgoing (cs_stream c) @ bs
    \<and> incoming (cs_stream c') = incoming (cs_stream c)"
  using write_loop_all [OF assms, of 0 bs "cs_write_timeout c"]
  by (auto simp: write_int_def on_stream_def)

lemma write_sink:
  "full_sink (write_int os) (\<lambda>c bs c'. outgoing (cs_stream c') = outgoing (cs_stream c) @ bs
       \<and> incoming (cs_stream c') = incoming (cs_stream c))
     (\<lambda>c. up (cs_stream c)) (\<lambda>c. tries (cs_stream c))"
proof
  fix c :: "'s cancellable" and bs :: "byte list"
  assume up: "up (cs_stream c)"
  from write_int_all [OF this, of bs]
  show full: "\<exists>c'. write_int os bs c = Some (Ok (length bs), c')
    \<and> (outgoing (cs_stream c') = outgoing (cs_stream c) @ bs
       \<and> incoming (cs_stream c') = incoming (cs_stream c)) \<and> up (cs_stream c')" by blast
  assume "bs \<noteq> []"
  then show "(\<exists>n c'. write_int os bs c = Some (Ok n, c') \<and> 0 < n \<and> n \<le> length bs
      \<and> (outgoing (cs_stream c') = outgoing (cs_stream c) @ take n bs
         \<and> incoming (cs_stream c') = incoming (cs_stream c)) \<and> up (cs_stream c'))
    \<or> (\<exists>e c'. write_int os bs c = Some (Err e, c') \<and> io_kind e = Interrupted
      \<and> (outgoing (cs_stream c') = outgoing (cs_stream c) @ []
         \<and> incoming (cs_stream c') = incoming (cs_stream c))
      \<and> tries (cs_stream c') < tries (cs_stream c) \<and> up (cs_stream c'))"
    using full by auto
qed auto

end

section \<open>A socket in memory\<close>

text \<open>It delivers and takes at most \<open>k + 1\<close> bytes at a time; at the end of its input, none.\<close>

record mem_socket =
  ms_in :: "byte list"
  ms_out :: "byte list"
  ms_done :: bool

definition mem_os :: "nat \<Rightarrow> mem_socket os" where
  "mem_os k =
     \<lparr>os_poller_new = ret (), os_add = (\<lambda>_. ret ()), os_modify = (\<lambda>_. ret ()),
      os_wait = (\<lambda>_. ret [event_all 1]),
      os_read = (\<lambda>n s. Some (Ok (take (min n (Suc k)) (ms_in s)), s\<lparr>ms_in := drop (min n (Suc k)) (ms_in s)\<rparr>)),
      os_write = (\<lambda>bs s. Some (Ok (length (take (Suc k) bs)), s\<lparr>ms_out := ms_out s @ take (Suc k) bs\<rparr>)),
      os_flush = ret (), os_shutdown = ret (), os_set_nonblocking = (\<lambda>_. ret ()),
      os_set_read_timeout = (\<lambda>_. ret ()), os_set_write_timeout = (\<lambda>_. ret ()),
      os_done = ms_done, os_set_done = (\<lambda>s. s\<lparr>ms_done := True\<rparr>), os_now = (\<lambda>_. 0)\<rparr>"

interpretation mem: socket "mem_os k" ms_in ms_out "\<lambda>s. \<not> ms_done s" "\<lambda>_. 0"
  by unfold_locales (auto simp: mem_os_def event_all_def min_def)

interpretation mem_stream: fast_source "cancellable_timed (mem_os k)" "\<lambda>c. ms_in (cs_stream c)"
  "\<lambda>c. \<not> ms_done (cs_stream c) \<and> ms_out (cs_stream c) = sent" "\<lambda>_. 0"
proof (rule fast_source.intro)
  show "byte_source (tm_read (cancellable_timed (mem_os k))) (\<lambda>c. ms_in (cs_stream c))
      (\<lambda>c. \<not> ms_done (cs_stream c) \<and> ms_out (cs_stream c) = sent) (\<lambda>_. 0)"
    using mem.read_source [of k sent] by (simp add: cancellable_timed_def)
  show "fast_source_axioms (cancellable_timed (mem_os k)) (\<lambda>c. ms_in (cs_stream c))
      (\<lambda>c. \<not> ms_done (cs_stream c) \<and> ms_out (cs_stream c) = sent) (\<lambda>_. 0)"
    by unfold_locales (simp_all add: cancellable_timed_def set_read_timeout_def mem_os_def as_secs_def)
qed

interpretation mem_stream_sink: fast_sink "cancellable_timed (mem_os k)"
  "\<lambda>c bs c'. ms_out (cs_stream c') = ms_out (cs_stream c) @ bs \<and> ms_in (cs_stream c') = ms_in (cs_stream c)"
  "\<lambda>c. \<not> ms_done (cs_stream c)" "\<lambda>_. 0"
proof (rule fast_sink.intro)
  show "full_sink (tm_write (cancellable_timed (mem_os k)))
      (\<lambda>c bs c'. ms_out (cs_stream c') = ms_out (cs_stream c) @ bs \<and> ms_in (cs_stream c') = ms_in (cs_stream c))
      (\<lambda>c. \<not> ms_done (cs_stream c)) (\<lambda>_. 0)"
    using mem.write_sink [of k] by (simp add: cancellable_timed_def)
  show "fast_sink_axioms (cancellable_timed (mem_os k))
      (\<lambda>c bs c'. ms_out (cs_stream c') = ms_out (cs_stream c) @ bs \<and> ms_in (cs_stream c') = ms_in (cs_stream c))
      (\<lambda>c. \<not> ms_done (cs_stream c))"
    by unfold_locales (simp_all add: cancellable_timed_def set_write_timeout_def mem_os_def as_secs_def)
qed

section \<open>Properties\<close>

text \<open>
  On a connection that is up, one write of the stream takes the whole buffer, in order,
  however few bytes the non-blocking stream takes at a time and however often it would block;
  this is what the start lines, written with a single \<^verbatim>\<open>write\<close>, rely on.
\<close>

theorem write_int_takes_all:
  assumes "socket os incoming outgoing up tries" and "up (cs_stream c)"
  shows "\<exists>c'. write_int os bs c = Some (Ok (length bs), c') \<and> up (cs_stream c')
    \<and> outgoing (cs_stream c') = outgoing (cs_stream c) @ bs"
  using socket.write_int_all [OF assms, of bs] by blast

theorem write_int_takes_all_witness:
  "\<exists>c'. write_int (mem_os 2) ''HTTP/1.1 200 OK''
       \<lparr>cs_stream = \<lparr>ms_in = [], ms_out = ''x'', ms_done = False\<rparr>, cs_read_timeout = None,
        cs_write_timeout = Some 5\<rparr> = Some (Ok 15, c')
     \<and> ms_out (cs_stream c') = ''xHTTP/1.1 200 OK''"
  using write_int_takes_all [OF mem.socket_axioms [of 2], of "\<lparr>cs_stream = \<lparr>ms_in = [], ms_out = ''x'',
    ms_done = False\<rparr>, cs_read_timeout = None, cs_write_timeout = Some 5\<rparr>" "''HTTP/1.1 200 OK''"]
  by auto

text \<open>
  On a connection that is up, a read delivers a non-empty piece from the front of what is
  incoming, or asks to be tried again, leaving everything as it was.
\<close>

theorem read_int_delivers:
  assumes "socket os incoming outgoing up tries" and "up (cs_stream c)" and "0 < n"
    and "incoming (cs_stream c) \<noteq> []"
  shows "(\<exists>bs c'. read_int os n c = Some (Ok bs, c') \<and> bs \<noteq> [] \<and> length bs \<le> n
        \<and> incoming (cs_stream c) = bs @ incoming (cs_stream c'))
    \<or> (\<exists>e c'. read_int os n c = Some (Err e, c') \<and> io_kind e = Interrupted
        \<and> incoming (cs_stream c') = incoming (cs_stream c) \<and> tries (cs_stream c') < tries (cs_stream c))"
  using byte_source.read_data [OF socket.read_source [OF assms(1), of "outgoing (cs_stream c)"], of c n] assms(2-4) by blast

theorem read_int_delivers_witness:
  "\<exists>bs c'. read_int (mem_os 2) 10 \<lparr>cs_stream = \<lparr>ms_in = ''GET'', ms_out = [], ms_done = False\<rparr>,
       cs_read_timeout = None, cs_write_timeout = None\<rparr> = Some (Ok bs, c') \<and> bs \<noteq> []"
  using read_int_delivers [OF mem.socket_axioms [of 2], of "\<lparr>cs_stream = \<lparr>ms_in = ''GET'', ms_out = [],
    ms_done = False\<rparr>, cs_read_timeout = None, cs_write_timeout = None\<rparr>" 10]
  by auto

text \<open>
  How a read ends without bytes: when the wait reports no event, it is not connected if the
  stream was cancelled and timed out otherwise; when the peer has closed, it is not connected if
  the stream was cancelled and a reset otherwise, never an end of file.
\<close>

theorem read_int_ends:
  assumes "os_modify os (event_readable 1) (cs_stream c) = Some (Ok (), s1)"
    and "os_wait os (cs_read_timeout c) s1 = Some (Ok events, s2)"
    and "events = [] \<or> (\<exists>e. events = [e] \<and> ev_key e = 1 \<and> os_read os n s2 = Some (Ok [], s3) \<and> 0 < n)"
  shows "read_int os n c =
    (if events = [] then Some (Err (io_error_from (if os_done os s2 then NotConnected else TimedOut)), c\<lparr>cs_stream := s2\<rparr>)
     else Some (Err (io_error_from (if os_done os s3 then NotConnected else ConnectionReset)), c\<lparr>cs_stream := s3\<rparr>))"
  using assms by (auto simp: read_int_def on_stream_def and_then_def no_event_error_def)

theorem read_int_ends_witness:
  "\<exists>c'. read_int (mem_os 2) 10 \<lparr>cs_stream = \<lparr>ms_in = [], ms_out = [], ms_done = False\<rparr>,
       cs_read_timeout = None, cs_write_timeout = None\<rparr> = Some (Err (io_error_from ConnectionReset), c')"
  using read_int_ends [of "mem_os 2" "\<lparr>cs_stream = \<lparr>ms_in = [], ms_out = [], ms_done = False\<rparr>,
       cs_read_timeout = None, cs_write_timeout = None\<rparr>" "\<lparr>ms_in = [], ms_out = [], ms_done = False\<rparr>"
       "[event_all 1]" "\<lparr>ms_in = [], ms_out = [], ms_done = False\<rparr>" 10 "\<lparr>ms_in = [], ms_out = [], ms_done = False\<rparr>"]
  by (simp add: mem_os_def event_all_def)

end
