(* ===== verification/Server_Connection.thy ===== *)
theory Server_Connection
  imports Http_Message Router Url_Path Cancellable_Stream
begin

text \<open>
  How the server (\<^verbatim>\<open>lib.rs\<close>) talks on one connection: \<^verbatim>\<open>run_action\<close>,
  \<^verbatim>\<open>is_connection_persistent\<close>, \<^verbatim>\<open>handle_connection\<close>, \<^verbatim>\<open>handle_conversation\<close>
  and \<^verbatim>\<open>handle_busy\<close>, over any stream with time-outs. A connection is the state of the
  stream, which the clones of an \<^verbatim>\<open>ObservedStream\<close> share.
\<close>

section \<open>Handlers\<close>

text \<open>
  A handler gets the request, whose body reads from the connection, and returns the response and
  the request it leaves; it may also panic or never return.
\<close>

type_synonym ('m, 'b, 'rb) handler =
  "('m, 'b) request \<Rightarrow> ((('m, 'rb) response, unit) res \<times> ('m, 'b) request) option"

definition run_action :: "('m, 'b, 'rb) handler router \<Rightarrow> ('m, 'b, 'rb) handler" where
  "run_action rts q =
     (case normalize (rq_uri q) of
        Err e \<Rightarrow> Some (Ok (response_from_status InternalServerError), q)
      | Panic \<Rightarrow> Some (Panic, q)
      | Ok normalized \<Rightarrow>
          (case router_get_prefix rts normalized (rq_method q) of
             None \<Rightarrow> Some (Ok (response_from_status NotFoundStatus), q)
           | Some action \<Rightarrow> action (q\<lparr>rq_uri := normalized\<rparr>)))"

definition is_connection_persistent :: "('m, 'r) request \<Rightarrow> (bool, unit) res" where
  "is_connection_persistent q =
     (case (case headers_get (rq_headers q) ''Connection'' of
              None \<Rightarrow> Some ''''
            | Some values \<Rightarrow> (if values = [] then None else Some (to_lowercase (values ! 0)))) of
        None \<Rightarrow> Panic
      | Some v \<Rightarrow>
          if v = ''close'' then Ok False
          else if rq_version q = ''HTTP/1.1'' \<or> rq_version q = ''HTTP/2'' then Ok True
          else if rq_version q = ''HTTP/1.0'' \<and> v = ''keep-alive'' then Ok True
          else Ok False)"

section \<open>One request on a connection\<close>

record timeouts =
  read_request_timeout :: duration
  write_response_timeout :: duration

record 'c connection_io =
  ci_stream :: "'c timed"
  ci_shutdown :: "('c, unit, io_error) prog"

type_synonym 'c request_reader = "'c timeout_stream bufreader"

text \<open>The connection below the reader of a request.\<close>

definition conn_of :: "'c request_reader \<Rightarrow> 'c" where
  "conn_of b = ts_stream (br_src b)"

text \<open>
  The connection after a handler: its body has the reader; a request without one left the
  reader where it was (a handler that moves the body out of its request is not modelled).
\<close>

definition conn_after :: "'c request_reader \<Rightarrow> ('m, 'c request_reader take_reader) request \<Rightarrow> 'c" where
  "conn_after b q =
     (case rq_body q of None \<Rightarrow> conn_of b | Some body \<Rightarrow> conn_of (tk_inner (body_content body)))"

definition body_reader :: "'c connection_io \<Rightarrow> 'c request_reader take_reader reader" where
  "body_reader io = take_read (bufreader_read (timeout_read (ci_stream io)))"

definition ensure_request_read ::
  "'c connection_io \<Rightarrow> (('m, 'c request_reader take_reader) request, unit, http_error) prog" where
  "ensure_request_read io q =
     (case rq_body q of
        None \<Rightarrow> Some (Ok (), q)
      | Some body \<Rightarrow> (case body_ensure_read (body_reader io) body of
            None \<Rightarrow> None
          | Some (r, body') \<Rightarrow> Some (r, q\<lparr>rq_body := Some body'\<rparr>)))"

text \<open>The response goes out over a new stream with time-outs; an error closes the connection.\<close>

definition send_response :: "entry_order \<Rightarrow> 'c connection_io \<Rightarrow> 'rb reader \<Rightarrow> timeouts
    \<Rightarrow> bool \<Rightarrow> ('m, 'rb) response \<Rightarrow> ('c, bool, unit) prog" where
  "send_response it io rbd t open response c =
     (case response_write it rbd (timeout_write (ci_stream io))
            (response, timeout_stream_from c (Some (read_request_timeout t)) (Some (write_response_timeout t))) of
        None \<Rightarrow> None
      | Some (r, (_, ts)) \<Rightarrow>
          Some (case r of Ok _ \<Rightarrow> Ok open | Err _ \<Rightarrow> Ok False | Panic \<Rightarrow> Panic, ts_stream ts))"

definition handle_connection :: "'m externals \<Rightarrow> entry_order \<Rightarrow> 'c connection_io \<Rightarrow> 'rb reader
    \<Rightarrow> ('m, 'c request_reader take_reader, 'rb) handler router \<Rightarrow> timeouts \<Rightarrow> ('c, bool, unit) prog" where
  "handle_connection ext it io rbd rts t c =
     (case request_read_from ext (timeout_read (ci_stream io))
            (timeout_stream_from c (Some (read_request_timeout t)) (Some (write_response_timeout t))) of
        None \<Rightarrow> None
      | Some (Panic, b) \<Rightarrow> Some (Panic, conn_of b)
      | Some (Err e, b) \<Rightarrow>
          (case e of
             InvalidRequest _ \<Rightarrow> send_response it io rbd t False (response_from_status BadRequest :: (unit, 'rb) response) (conn_of b)
           | _ \<Rightarrow> Some (Ok False, conn_of b))
      | Some (Ok q, b) \<Rightarrow>
          (case is_connection_persistent q of
             Panic \<Rightarrow> Some (Panic, conn_of b)
           | Err _ \<Rightarrow> Some (Panic, conn_of b)
           | Ok open \<Rightarrow>
               (case run_action rts q of
                  None \<Rightarrow> None
                | Some (Err _, q1) \<Rightarrow> Some (Panic, conn_after b q1)
                | Some (Panic, q1) \<Rightarrow> Some (Panic, conn_after b q1)
                | Some (Ok response, q1) \<Rightarrow>
                    (case ensure_request_read io q1 of
                       None \<Rightarrow> None
                     | Some (Err _, q2) \<Rightarrow> Some (Ok False, conn_after b q2)
                     | Some (Panic, q2) \<Rightarrow> Some (Panic, conn_after b q2)
                     | Some (Ok _, q2) \<Rightarrow> send_response it io rbd t open response (conn_after b q2)))))"

partial_function (option) handle_conversation :: "'m externals \<Rightarrow> entry_order \<Rightarrow> 'c connection_io \<Rightarrow> 'rb reader
    \<Rightarrow> ('m, 'c request_reader take_reader, 'rb) handler router \<Rightarrow> timeouts \<Rightarrow> 'c \<Rightarrow> ((unit, unit) res \<times> 'c) option" where
  "handle_conversation ext it io rbd rts t c =
     (case handle_connection ext it io rbd rts t c of
        None \<Rightarrow> None
      | Some (r, c1) \<Rightarrow>
          (case r of
             Panic \<Rightarrow> Some (Panic, c1)
           | Err _ \<Rightarrow> Some (Panic, c1)
           | Ok open \<Rightarrow>
               (case tm_flush (ci_stream io) c1 of
                  None \<Rightarrow> None
                | Some (q, c2) \<Rightarrow>
                    (case q of
                       Err _ \<Rightarrow> Some (Ok (), c2)
                     | Panic \<Rightarrow> Some (Panic, c2)
                     | Ok _ \<Rightarrow>
                         if open then handle_conversation ext it io rbd rts t c2
                         else (case ci_shutdown io c2 of
                            None \<Rightarrow> None
                          | Some (u, c3) \<Rightarrow> Some (if u = Panic then Panic else Ok (), c3))))))"

definition handle_busy :: "entry_order \<Rightarrow> 'c connection_io \<Rightarrow> 'rb reader \<Rightarrow> timeouts \<Rightarrow> ('c, unit, unit) prog" where
  "handle_busy it io rbd t c =
     (case send_response it io rbd t False (response_from_status ServiceUnavailable :: (unit, 'rb) response) c of
        None \<Rightarrow> None
      | Some (Panic, c1) \<Rightarrow> Some (Panic, c1)
      | Some (_, c1) \<Rightarrow>
          (case ci_shutdown io c1 of
             None \<Rightarrow> None
           | Some (u, c2) \<Rightarrow> Some (if u = Panic then Panic else Ok (), c2)))"

section \<open>The interface of a connection\<close>

text \<open>
  A connection that is up delivers what is incoming and appends what is written to what is
  outgoing, and none of its calls takes a whole second.
\<close>

locale connection =
  fixes io :: "'c connection_io" and incoming outgoing :: "'c \<Rightarrow> byte list" and up :: "'c \<Rightarrow> bool"
    and tries :: "'c \<Rightarrow> nat"
  assumes reading: "fast_source (ci_stream io) incoming (\<lambda>c. up c \<and> outgoing c = sent) tries"
    and writing: "fast_sink (ci_stream io) (\<lambda>c bs c'. outgoing c' = outgoing c @ bs \<and> incoming c' = incoming c)
      up tries"

text \<open>The connections of the server are cancellable streams.\<close>

definition cancellable_io :: "'s os \<Rightarrow> 's cancellable connection_io" where
  "cancellable_io os = \<lparr>ci_stream = cancellable_timed os, ci_shutdown = cancellable_shutdown os\<rparr>"

definition mem_io :: "nat \<Rightarrow> mem_socket cancellable connection_io" where
  "mem_io k = cancellable_io (mem_os k)"

interpretation mem_conn: connection "mem_io k" "\<lambda>c. ms_in (cs_stream c)" "\<lambda>c. ms_out (cs_stream c)"
  "\<lambda>c. \<not> ms_done (cs_stream c)" "\<lambda>_. 0"
  by (intro connection.intro) (simp_all add: mem_io_def cancellable_io_def mem_stream.fast_source_axioms mem_stream_sink.fast_sink_axioms)

section \<open>What the server reads and writes\<close>

definition response_text :: "entry_order \<Rightarrow> ('rb \<Rightarrow> byte list) \<Rightarrow> ('m, 'rb) response \<Rightarrow> byte list" where
  "response_text it rcontent p =
     status_line_text (rs_status p) @ headers_text (it (header_map (ensure_length_header (rs_body p) (rs_headers p))))
       @ body_bytes rcontent (rs_body p)"

text \<open>The headers frame the body: one length that is its own, a type that parses if there is a body, no encoding.\<close>

definition request_framed :: "'m externals \<Rightarrow> headers \<Rightarrow> byte list \<Rightarrow> bool" where
  "request_framed ext hs body \<longleftrightarrow> headers_get hs ''Transfer-Encoding'' = None
     \<and> (case headers_get hs ''Content-Length'' of
          None \<Rightarrow> body = []
        | Some vs \<Rightarrow> \<exists>v. vs = [v] \<and> parse_usize v = Ok (length body)
            \<and> (body = [] \<or> (\<exists>m. body_mime ext hs = Ok m)))"

lemma request_framed_read:
  assumes "request_framed ext hs body"
  shows "\<exists>got. body_read_from ext hs b = Ok got
    \<and> (case got of
         None \<Rightarrow> body = []
       | Some bd \<Rightarrow> body_content bd = \<lparr>tk_inner = b, tk_limit = length body\<rparr> \<and> body_limited bd)"
proof (cases "headers_get hs ''Content-Length''")
  case None
  then show ?thesis using assms by (simp add: request_framed_def no_length_read_none)
next
  case (Some vs)
  then obtain v where v: "vs = [v]" "parse_usize v = Ok (length body)" "body = [] \<or> (\<exists>m. body_mime ext hs = Ok m)"
    and te: "headers_get hs ''Transfer-Encoding'' = None"
    using assms by (auto simp: request_framed_def)
  have "length body < 2 ^ 64" by (rule parse_usize_bound [OF v(2)])
  with v te Some show ?thesis
    by (cases "body = []")
      (auto simp: body_read_from_def transfer_encoding_check_def body_limited_def)
qed

definition persists :: "string \<Rightarrow> headers \<Rightarrow> bool" where
  "persists version hs =
     (let v = (case headers_get hs ''Connection'' of None \<Rightarrow> [] | Some vs \<Rightarrow> to_lowercase (hd vs)) in
      v \<noteq> ''close'' \<and> (version = ''HTTP/1.1'' \<or> version = ''HTTP/2'' \<or> version = ''HTTP/1.0'' \<and> v = ''keep-alive''))"

lemma is_connection_persistent_eq:
  assumes "headers_get (rq_headers q) ''Connection'' \<noteq> Some []"
  shows "is_connection_persistent q = Ok (persists (rq_version q) (rq_headers q))"
proof (cases "headers_get (rq_headers q) ''Connection''")
  case (Some vs)
  then have "vs ! 0 = hd vs" "vs \<noteq> []" using assms by (auto simp: hd_conv_nth)
  with Some show ?thesis by (simp add: is_connection_persistent_def persists_def Let_def)
qed (simp add: is_connection_persistent_def persists_def)

lemma request_is_connection_persistent_eq:
  assumes "headers_get (rq_headers q) ''Connection'' \<noteq> Some []"
  shows "request_is_connection_persistent q = Ok (persists (rq_version q) (rq_headers q))"
proof -
  have "request_is_connection_persistent q = Ok v" if "is_connection_persistent q = Ok v" for v
    using that by (auto simp: is_connection_persistent_def request_is_connection_persistent_def
        split: option.splits if_splits)
  with is_connection_persistent_eq [OF assms] show ?thesis by blast
qed

lemma headers_ok_not_empty: "headers_ok hs \<Longrightarrow> headers_get hs n \<noteq> Some []"
  by (auto simp: headers_all_iff)

lemma request_line_read_uri:
  assumes "request_line_read rd b = Some (Ok rl, b')"
  shows "rl_uri rl \<noteq> []"
proof -
  have ne: "from_utf8_lossy (take (length u - 1) u) \<noteq> []" if "\<not> length u < 2" for u
    using that from_utf8_lossy_ne [of "take (length u - 1) u"] by (cases u) auto
  show ?thesis using assms ne
    by (auto simp: request_line_read_def Let_def elim!: and_then_OkD split: if_splits res.splits)
qed

text \<open>A handler that answers with \<open>resp\<close>, having read of the body what it wants.\<close>

definition answers :: "'c connection_io \<Rightarrow> ('m, 'c request_reader take_reader, 'rb) handler \<Rightarrow> ('m, 'rb) response
    \<Rightarrow> ('m, 'c request_reader take_reader) request \<Rightarrow> bool" where
  "answers io h resp q \<longleftrightarrow>
     (\<exists>q1. h q = Some (Ok resp, q1)
        \<and> (case rq_body q of
             None \<Rightarrow> rq_body q1 = None
           | Some b0 \<Rightarrow> \<exists>b1. rq_body q1 = Some b1 \<and> body_used (body_reader io) b0 b1))"

definition reader_ok :: "('c \<Rightarrow> bool) \<Rightarrow> ('c \<Rightarrow> byte list) \<Rightarrow> byte list \<Rightarrow> 'c timeout_stream \<Rightarrow> bool" where
  "reader_ok up outgoing sent ts \<longleftrightarrow>
     (up (ts_stream ts) \<and> outgoing (ts_stream ts) = sent) \<and> fast_op (ts_read ts) (ts_ongoing_read ts)"

lemma reader_ok_new:
  assumes "up c" and "0 < as_secs r"
  shows "reader_ok up outgoing (outgoing c) (timeout_stream_from c (Some r) w)"
  using assms by (simp add: reader_ok_def timeout_stream_from_def fast_op_def op_left_def op_from_timeout_def)

context connection
begin

lemma source: "byte_source (timeout_read (ci_stream io)) (\<lambda>ts. incoming (ts_stream ts))
    (reader_ok up outgoing sent) (\<lambda>ts. tries (ts_stream ts))"
  using fast_source.timeout_source [OF reading] unfolding reader_ok_def .

lemma buffered: "byte_source (bufreader_read (timeout_read (ci_stream io)))
    (br_content (\<lambda>ts. incoming (ts_stream ts)))
    (\<lambda>b. reader_ok up outgoing sent (br_src b)) (\<lambda>b. tries (ts_stream (br_src b)))"
  by (rule byte_source.buffered_source [OF source])

lemma send_response_ok:
  assumes "eof_source rbd rcontent rok rretries" and "up c" and "0 < as_secs (write_response_timeout t)"
    and "\<forall>b. rs_body resp = Some b \<longrightarrow> rok (body_content b)"
  shows "\<exists>c'. send_response it io rbd t open resp c = Some (Ok open, c') \<and> up c'
    \<and> incoming c' = incoming c \<and> outgoing c' = outgoing c @ response_text it rcontent resp"
proof -
  let ?ts = "timeout_stream_from c (Some (read_request_timeout t)) (Some (write_response_timeout t))"
  note sink = fast_sink.timeout_sink [OF writing]
  have "up (ts_stream ?ts) \<and> fast_op (ts_write ?ts) (ts_ongoing_write ?ts)"
    using assms(2,3) by (simp add: timeout_stream_from_def fast_op_def op_left_def op_from_timeout_def)
  from sending.response_write_ok [OF sending.intro [OF copying.intro [OF assms(1) full_sink.axioms(1) [OF sink]] sink]
      assms(4) this refl, of it]
  obtain p' ts' where "response_write it rbd (timeout_write (ci_stream io)) (resp, ?ts) = Some (Ok (), (p', ts'))"
    "up (ts_stream ts')" "outgoing (ts_stream ts') = outgoing c @ response_text it rcontent resp"
    "incoming (ts_stream ts') = incoming c"
    by (auto simp: response_text_def timeout_stream_from_def)
  then show ?thesis by (simp add: send_response_def)
qed

text \<open>Draining what was left of a body leaves the rest of the connection.\<close>

lemma drained_ok:
  assumes "reader_ok up outgoing sent (br_src b)" and "br_content (\<lambda>ts. incoming (ts_stream ts)) b = body @ rest"
    and "body_content b0 = \<lparr>tk_inner = b, tk_limit = length body\<rparr>" and "body_limited b0"
    and "body_used (body_reader io) b0 b1"
  obtains b2 where "body_ensure_read (body_reader io) b1 = Some (Ok (), b2)"
    "br_content (\<lambda>ts. incoming (ts_stream ts)) (tk_inner (body_content b2)) = rest"
    "reader_ok up outgoing sent (br_src (tk_inner (body_content b2)))"
proof -
  let ?framed = "framed (br_content (\<lambda>ts. incoming (ts_stream ts)))
    (\<lambda>b. reader_ok up outgoing sent (br_src b)) rest"
  have "?framed (body_content b0)" using assms(1-3) by (auto simp: framed_def)
  from byte_source.body_used_limited [OF buffered assms(5) [unfolded body_reader_def] this assms(4)]
  have "?framed (body_content b1)" "body_limited b1" by auto
  from byte_source.ensure_read_drains [OF buffered this] that show thesis
    by (auto simp: body_reader_def)
qed

lemma ensure_request_read_ok:
  fixes q :: "('m, 'c request_reader take_reader) request"
  assumes "reader_ok up outgoing sent (br_src b)" and "br_content (\<lambda>ts. incoming (ts_stream ts)) b = body @ rest"
    and "case rq_body q of None \<Rightarrow> body = []
         | Some bd \<Rightarrow> body_content bd = \<lparr>tk_inner = b, tk_limit = length body\<rparr> \<and> body_limited bd"
    and "case rq_body q of None \<Rightarrow> rq_body q1 = None
         | Some b0 \<Rightarrow> \<exists>b1. rq_body q1 = Some b1 \<and> body_used (body_reader io) b0 b1"
  shows "\<exists>q2 lost. ensure_request_read io q1 = Some (Ok (), q2)
    \<and> up (conn_after b q2) \<and> outgoing (conn_after b q2) = sent \<and> rest = lost @ incoming (conn_after b q2)"
proof (cases "rq_body q")
  case None
  then show ?thesis
    using assms by (auto simp: ensure_request_read_def conn_after_def conn_of_def br_content_def reader_ok_def)
next
  case (Some b0)
  then obtain b1 where b1: "rq_body q1 = Some b1" "body_used (body_reader io) b0 b1" using assms(4) by auto
  have b0: "body_content b0 = \<lparr>tk_inner = b, tk_limit = length body\<rparr>" "body_limited b0" using assms(3) Some by auto
  from drained_ok [OF assms(1,2) b0 b1(2)]
  obtain b2 where "body_ensure_read (body_reader io) b1 = Some (Ok (), b2)"
    "br_content (\<lambda>ts. incoming (ts_stream ts)) (tk_inner (body_content b2)) = rest"
    "reader_ok up outgoing sent (br_src (tk_inner (body_content b2)))" .
  with b1(1) show ?thesis
    by (auto simp: ensure_request_read_def conn_after_def conn_of_def br_content_def reader_ok_def)
qed

text \<open>After the request has been read, the rest of \<^verbatim>\<open>handle_connection\<close>.\<close>

lemma handle_read_request:
  fixes q :: "('m, 'c request_reader take_reader) request"
  assumes "eof_source rbd rcontent rok rretries" and "0 < as_secs (write_response_timeout t)"
    and "\<forall>b. rs_body resp = Some b \<longrightarrow> rok (body_content b)"
    and "request_read_from ext (timeout_read (ci_stream io))
           (timeout_stream_from c (Some (read_request_timeout t)) (Some (write_response_timeout t))) = Some (Ok q, b)"
    and "headers_get (rq_headers q) ''Connection'' \<noteq> Some []"
    and "normalize (rq_uri q) = Ok path" and "router_get_prefix rts path (rq_method q) = Some h"
    and "answers io h resp (q\<lparr>rq_uri := path\<rparr>)"
    and "reader_ok up outgoing sent (br_src b)" and "br_content (\<lambda>ts. incoming (ts_stream ts)) b = body @ rest"
    and "case rq_body q of None \<Rightarrow> body = []
         | Some bd \<Rightarrow> body_content bd = \<lparr>tk_inner = b, tk_limit = length body\<rparr> \<and> body_limited bd"
  shows "\<exists>c' lost. handle_connection ext it io rbd rts t c = Some (Ok (persists (rq_version q) (rq_headers q)), c')
    \<and> up c' \<and> rest = lost @ incoming c' \<and> outgoing c' = sent @ response_text it rcontent resp
    \<and> (rq_body q = None \<longrightarrow> incoming c' = incoming (conn_of b))"
proof -
  obtain q1 where q1: "h (q\<lparr>rq_uri := path\<rparr>) = Some (Ok resp, q1)"
    "case rq_body q of None \<Rightarrow> rq_body q1 = None
       | Some b0 \<Rightarrow> \<exists>b1. rq_body q1 = Some b1 \<and> body_used (body_reader io) b0 b1"
    using assms(8) by (auto simp: answers_def)
  have act: "run_action rts q = Some (Ok resp, q1)"
    using assms(6,7) q1(1) by (simp add: run_action_def)
  obtain q2 lost where q2: "ensure_request_read io q1 = Some (Ok (), q2)" "up (conn_after b q2)"
    "outgoing (conn_after b q2) = sent" "rest = lost @ incoming (conn_after b q2)"
    using ensure_request_read_ok [OF assms(9,10,11) q1(2)] by blast
  obtain c' where c': "send_response it io rbd t (persists (rq_version q) (rq_headers q)) resp (conn_after b q2)
      = Some (Ok (persists (rq_version q) (rq_headers q)), c')" "up c'" "incoming c' = incoming (conn_after b q2)"
    "outgoing c' = outgoing (conn_after b q2) @ response_text it rcontent resp"
    using send_response_ok [OF assms(1) q2(2) assms(2,3)] by blast
  have "incoming c' = incoming (conn_of b)" if "rq_body q = None"
    using that q1(2) q2(1) c'(3) by (auto simp: ensure_request_read_def conn_after_def)
  moreover have "handle_connection ext it io rbd rts t c = Some (Ok (persists (rq_version q) (rq_headers q)), c')"
    using assms(4) is_connection_persistent_eq [OF assms(5)] act q2(1) c'(1)
    by (simp add: handle_connection_def)
  ultimately show ?thesis using q2 c' by auto
qed

end

text \<open>The first read of a stream with time-outs.\<close>

lemma first_timed_read:
  assumes "tm_set_read_timeout tm (Some (from_secs (as_secs d))) s = Some (Ok (), s1)"
    and "tm_read tm n s1 = Some (Ok x, s2)" and "tm_now tm s2 = tm_now tm s1" and "0 < as_secs d"
  obtains ts2 where "timeout_read tm n (timeout_stream_from s (Some d) w) = Some (Ok x, ts2)"
    "ts_stream ts2 = s2" "fast_op (ts_read ts2) (ts_ongoing_read ts2)"
proof -
  define op where "op = op_from_timeout d"
  have op: "op_left op = as_secs d" by (simp add: op_def op_left_def op_from_timeout_def)
  have left: "op_left (op_stop (tm_now tm s2) (op_start (tm_now tm s1) op)) = as_secs d"
    using assms(3) op by (simp add: op_left_stop as_secs_def)
  have "timeout_read tm n (timeout_stream_from s (Some d) w) = Some (Ok x, \<lparr>ts_stream = s2, ts_read = Some d,
      ts_write = w, ts_ongoing_read = Some (op_stop (tm_now tm s2) (op_start (tm_now tm s1) op)), ts_ongoing_write = None\<rparr>)"
    using assms op by (simp add: timeout_read_def timeout_stream_from_def timed_call_def
      next_timeout_left op_def [symmetric] would_block_is_timeout_def)
  then show thesis
    by (rule that) (simp_all only: left fast_op_def timeout_stream.select_convs option.case assms(4))
qed

definition request_text :: "entry_order \<Rightarrow> request_line \<Rightarrow> headers \<Rightarrow> byte list \<Rightarrow> byte list" where
  "request_text it rl hs body = request_line_text rl @ headers_text (it (header_map hs)) @ body"

lemma framed_request_read:
  assumes "byte_source rd content ok retries" and "ok (br_src b0)"
    and "br_content content b0 = request_text it rl hs body @ rest"
    and "request_line_ok rl" and "headers_ok hs" and "iteration_order it" and "request_framed ext hs body"
  obtains q b where "request_read_buffered ext rd b0 = Some (Ok q, b)" "ok (br_src b)"
    "br_content content b = body @ rest" "rq_method q = rl_method rl" "rq_uri q = rl_uri rl"
    "rq_version q = rl_version rl" "headers_get (rq_headers q) = headers_get hs"
    "case rq_body q of None \<Rightarrow> body = []
     | Some bd \<Rightarrow> body_content bd = \<lparr>tk_inner = b, tk_limit = length body\<rparr> \<and> body_limited bd"
    "headers_get hs ''Content-Length'' = None \<Longrightarrow> rq_body q = None" "rq_body q \<noteq> None \<Longrightarrow> body \<noteq> []"
proof -
  obtain b hs' where b: "headers_get hs' = headers_get hs" "br_content content b = body @ rest" "ok (br_src b)"
    "request_read_buffered ext rd b0 = Some (case body_read_from ext hs b of
        Ok bd \<Rightarrow> Ok \<lparr>rq_method = rl_method rl, rq_uri = rl_uri rl, rq_version = rl_version rl,
                      rq_headers = hs', rq_body = bd\<rparr>
      | Err e \<Rightarrow> Err e | Panic \<Rightarrow> Panic, b)"
    using byte_source.request_read_buffered_ok [OF assms(1,2) _ assms(4,5,6), of "body @ rest" ext] assms(3)
    by (auto simp: request_text_def)
  obtain got where got: "body_read_from ext hs b = Ok got"
    "case got of None \<Rightarrow> body = []
     | Some bd \<Rightarrow> body_content bd = \<lparr>tk_inner = b, tk_limit = length body\<rparr> \<and> body_limited bd"
    using request_framed_read [OF assms(7), of b] by (elim exE conjE) (rule that)
  have "got = None" if "headers_get hs ''Content-Length'' = None"
    using that got(1) assms(7) by (simp add: request_framed_def no_length_read_none)
  moreover have "body \<noteq> []" if "got \<noteq> None"
    using that got body_read_from_limited [of ext hs b] by (auto split: option.splits)
  ultimately show thesis using b got by (intro that [of _ b]) auto
qed

lemma persists_cong: "headers_get hs' = headers_get hs \<Longrightarrow> persists v hs' = persists v hs"
  by (simp add: persists_def)

text \<open>A single route at the root gets every path.\<close>

lemma root_route:
  assumes "router_add ''/'' n h router_new = Some rts"
  shows "router_get_prefix rts (canonical st) m = (if m = n then Some h else None)"
proof -
  have g: "trie_get (routes rts) = Map.empty (''/'' \<mapsto> set_action method_handlers_new n h)"
    using trie_get_router_add(1) [OF router_new_inv assms] by (simp add: handlers_at_def router_new_def)
  have "take k (canonical st) = ''/'' \<Longrightarrow> k \<le> length (canonical st) \<Longrightarrow> k = 1" for k
    by (cases k) (auto simp: canonical_def)
  then have "trie_get_prefix (routes rts) (canonical st) = Some (set_action method_handlers_new n h)"
    unfolding trie_get_prefix_iff longest_match_def g
    by (intro exI [of _ 1]) (auto simp: canonical_def)
  then show ?thesis by (simp add: router_get_prefix_def get_action_set_action)
qed

lemma root_route_prefix:
  assumes "router_add ''/'' GET h router_new = Some rts"
  shows "router_get_prefix rts (canonical st) m = (if m = GET then Some h else None)"
  by (rule root_route [OF assms])

lemma root_router:
  obtains rts where "router_add ''/'' GET h router_new = Some rts" "router_get_prefix rts ''/a'' GET = Some h"
proof -
  obtain rts where rts: "router_add ''/'' GET h router_new = Some rts" by (simp add: router_add_eq)
  have "''/a'' = canonical [''a'']" by (simp add: canonical_def)
  with root_route_prefix [OF rts, of "[''a'']" GET] have "router_get_prefix rts ''/a'' GET = Some h" by simp
  with rts show thesis by (rule that)
qed

lemma normalize_a: "normalize ''/a'' = Ok ''/a''"
  by (simp add: normalize_eq has_root_def canonical_def)

lemma answers_at_once: "answers io (\<lambda>q. Some (Ok resp, q)) resp q"
  by (auto simp: answers_def intro: body_used.unused split: option.split)

text \<open>
  What a handler is called with: the request of the peer with its canonical path, and a body whose
  reader, in good order, is about to deliver exactly the bytes of the body.
\<close>

definition delivered :: "('c \<Rightarrow> byte list) \<Rightarrow> ('c timeout_stream \<Rightarrow> bool) \<Rightarrow> request_line \<Rightarrow> headers \<Rightarrow> byte list
    \<Rightarrow> string \<Rightarrow> ('m, 'c request_reader take_reader) request \<Rightarrow> bool" where
  "delivered incoming ready rl hs body path q \<longleftrightarrow>
     rq_method q = rl_method rl \<and> rq_uri q = path \<and> rq_version q = rl_version rl
     \<and> headers_get (rq_headers q) = headers_get hs
     \<and> (case rq_body q of
          None \<Rightarrow> body = []
        | Some bd \<Rightarrow> body \<noteq> [] \<and> body_limited bd \<and> tk_limit (body_content bd) = length body
            \<and> ready (br_src (tk_inner (body_content bd)))
            \<and> (\<exists>rest. br_content (\<lambda>ts. incoming (ts_stream ts)) (tk_inner (body_content bd)) = body @ rest))"

text \<open>One turn of a conversation over a connection, from the bytes of a request to those of its answer.\<close>

context connection
begin

lemma request_served:
  fixes resp :: "('m, 'rb) response"
  assumes "eof_source rbd rcontent rok rretries"
    and "up c" and "incoming c = request_text itq rl hs body @ rest"
    and "request_line_ok rl" and "headers_ok hs" and "iteration_order itq" and "request_framed ext hs body"
    and "0 < as_secs (read_request_timeout t)" and "0 < as_secs (write_response_timeout t)"
    and "normalize (rl_uri rl) = Ok path" and "router_get_prefix rts path (rl_method rl) = Some h"
    and "\<And>q. delivered incoming (reader_ok up outgoing (outgoing c)) rl hs body path q \<Longrightarrow> answers io h resp q"
    and "\<forall>b. rs_body resp = Some b \<longrightarrow> rok (body_content b)"
  shows "\<exists>c' lost. handle_connection ext it io rbd rts t c = Some (Ok (persists (rl_version rl) hs), c')
    \<and> up c' \<and> rest = lost @ incoming c' \<and> outgoing c' = outgoing c @ response_text it rcontent resp"
proof -
  let ?ts = "timeout_stream_from c (Some (read_request_timeout t)) (Some (write_response_timeout t))"
  note src = source [of "outgoing c"]
  have ok: "reader_ok up outgoing (outgoing c) (br_src (bufreader_new ?ts))"
    using reader_ok_new [where up = up and outgoing = outgoing, OF assms(2,8)] by simp
  have inp: "br_content (\<lambda>ts. incoming (ts_stream ts)) (bufreader_new ?ts) = request_text itq rl hs body @ rest"
    using assms(3) by (simp add: timeout_stream_from_def)
  obtain q :: "('m, 'c request_reader take_reader) request" and b where q:
    "request_read_buffered ext (timeout_read (ci_stream io)) (bufreader_new ?ts) = Some (Ok q, b)"
    "reader_ok up outgoing (outgoing c) (br_src b)" "br_content (\<lambda>ts. incoming (ts_stream ts)) b = body @ rest"
    "rq_method q = rl_method rl" "rq_uri q = rl_uri rl" "rq_version q = rl_version rl"
    "headers_get (rq_headers q) = headers_get hs"
    "case rq_body q of None \<Rightarrow> body = []
     | Some bd \<Rightarrow> body_content bd = \<lparr>tk_inner = b, tk_limit = length body\<rparr> \<and> body_limited bd"
    "rq_body q \<noteq> None \<Longrightarrow> body \<noteq> []"
    by (rule framed_request_read [OF src ok inp assms(4-7)]) blast
  have conn: "headers_get (rq_headers q) ''Connection'' \<noteq> Some []"
    using headers_ok_not_empty [OF assms(5)] q(7) by simp
  have path: "normalize (rq_uri q) = Ok path" "router_get_prefix rts path (rq_method q) = Some h"
    using assms(10,11) q(4,5) by simp_all
  have "delivered incoming (reader_ok up outgoing (outgoing c)) rl hs body path (q\<lparr>rq_uri := path\<rparr>)"
    unfolding delivered_def using q(2-9) by (auto split: option.splits)
  from handle_read_request [where it = it, OF assms(1,9,13) q(1) [folded request_read_from_def] conn path assms(12) [OF this]
      q(2,3,8)]
  show ?thesis using q(6) persists_cong [OF q(7)] by auto
qed

end

section \<open>Properties\<close>



text \<open>
  C25. Requests that arrive together are lost: each turn of the conversation reads through a new
  buffer of its own, so when the first read delivers the request with what follows it, the
  request is answered and the connection kept open, but all that follows is gone.
\<close>

theorem pipelined_bytes_lost:
  fixes resp :: "('m, 'rb) response"
  assumes "connection io incoming outgoing up tries" and "eof_source rbd rcontent rok rretries"
    and "up c2" and "outgoing c2 = outgoing c"
    and "tm_set_read_timeout (ci_stream io) (Some (from_secs (as_secs (read_request_timeout t)))) c = Some (Ok (), c1)"
    and "tm_read (ci_stream io) buf_capacity c1 = Some (Ok (request_text it rl hs [] @ rest), c2)"
    and "tm_now (ci_stream io) c2 = tm_now (ci_stream io) c1"
    and "request_line_ok rl" and "headers_ok hs" and "iteration_order it"
    and "request_framed ext hs []" and "headers_get hs ''Content-Length'' = None"
    and "0 < as_secs (read_request_timeout t)" and "0 < as_secs (write_response_timeout t)"
    and "normalize (rl_uri rl) = Ok path" and "router_get_prefix rts path (rl_method rl) = Some h"
    and "\<And>q. answers io h resp q" and "\<forall>b. rs_body resp = Some b \<longrightarrow> rok (body_content b)"
  shows "\<exists>c'. handle_connection ext it io rbd rts t c = Some (Ok (persists (rl_version rl) hs), c')
    \<and> incoming c' = incoming c2 \<and> outgoing c' = outgoing c @ response_text it rcontent resp"
proof -
  let ?ts = "timeout_stream_from c (Some (read_request_timeout t)) (Some (write_response_timeout t))"
  let ?rd = "timeout_read (ci_stream io)"
  let ?text = "request_text it rl hs [] @ rest"
  have ne: "?text \<noteq> []" by (simp add: request_text_def request_line_text_def)
  obtain ts2 where ts2: "?rd buf_capacity ?ts = Some (Ok ?text, ts2)" "ts_stream ts2 = c2"
    "reader_ok up outgoing (outgoing c) ts2"
    using first_timed_read [OF assms(5-7,13)] assms(3,4) by (metis reader_ok_def)
  let ?b0 = "\<lparr>br_buf = ?text, br_src = ts2\<rparr>"
  have read: "request_read_from ext ?rd ?ts = request_read_buffered ext ?rd ?b0"
    by (rule request_read_prefilled [where rd = ?rd, OF ts2(1) ne])
  obtain q :: "('m, 'a request_reader take_reader) request" and b where q:
    "request_read_buffered ext ?rd ?b0 = Some (Ok q, b)" "br_src b = ts2"
    "br_content (\<lambda>_. []) b = [] @ rest" "rq_method q = rl_method rl" "rq_uri q = rl_uri rl"
    "rq_version q = rl_version rl" "headers_get (rq_headers q) = headers_get hs" "rq_body q = None"
    by (rule framed_request_read [OF frozen_source [of ?rd ts2] _ _ assms(8-11), of ?b0 rest])
      (use assms(12) in \<open>auto simp: br_content_def\<close>)
  have conn: "headers_get (rq_headers q) ''Connection'' \<noteq> Some []"
    using headers_ok_not_empty [OF assms(9)] q(7) by simp
  have path: "normalize (rq_uri q) = Ok path" "router_get_prefix rts path (rq_method q) = Some h"
    using assms(15,16) q(4,5) by simp_all
  have b: "reader_ok up outgoing (outgoing c) (br_src b)"
    "br_content (\<lambda>ts. incoming (ts_stream ts)) b = [] @ (rest @ incoming c2)"
    using q(2,3) ts2(2,3) by (simp_all add: br_content_def)
  have "case rq_body q of None \<Rightarrow> [] = []
     | Some bd \<Rightarrow> body_content bd = \<lparr>tk_inner = b, tk_limit = length []\<rparr> \<and> body_limited bd"
    using q(8) by simp
  from connection.handle_read_request [where it = it, OF assms(1,2,14,18) q(1) [folded read] conn path assms(17) b this]
  show ?thesis using q(6,8) persists_cong [OF q(7)] q(2) ts2(2) by (auto simp: conn_of_def)
qed

theorem pipelined_bytes_lost_witness:
  "\<exists>rts c'. router_add ''/'' GET (\<lambda>q. Some (Ok (response_from_status OK :: (string, byte list) response), q)) router_new
       = Some rts
     \<and> handle_connection text_externals rev (mem_io 8191) cursor_read rts \<lparr>read_request_timeout = from_secs 5,
          write_response_timeout = from_secs 5\<rparr>
          \<lparr>cs_stream = \<lparr>ms_in = request_text rev \<lparr>rl_method = GET, rl_uri = ''/a'', rl_version = ''HTTP/1.1''\<rparr>
              headers_new [] @ ''GET /b HTTP/1.1'', ms_out = [], ms_done = False\<rparr>,
            cs_read_timeout = None, cs_write_timeout = None\<rparr>
        = Some (Ok True, c') \<and> ms_in (cs_stream c') = []"
proof -
  let ?rl = "\<lparr>rl_method = GET, rl_uri = ''/a'', rl_version = ''HTTP/1.1''\<rparr>"
  let ?resp = "response_from_status OK :: (string, byte list) response"
  let ?h = "\<lambda>q. Some (Ok ?resp, q) :: ((_, unit) res \<times> (string, mem_socket cancellable request_reader take_reader) request) option"
  let ?T = "request_text rev ?rl headers_new [] @ ''GET /b HTTP/1.1''"
  let ?c = "\<lambda>bs d. \<lparr>cs_stream = \<lparr>ms_in = bs, ms_out = [], ms_done = False\<rparr>,
    cs_read_timeout = d, cs_write_timeout = None\<rparr>"
  let ?t = "\<lparr>read_request_timeout = from_secs 5, write_response_timeout = from_secs 5\<rparr>"
  obtain rts where rts: "router_add ''/'' GET ?h router_new = Some rts"
    and route: "router_get_prefix rts ''/a'' GET = Some ?h" by (rule root_router)
  have rl: "request_line_ok ?rl" by code_simp
  have fr: "request_framed text_externals headers_new []" by (simp add: request_framed_def)
  have len: "length ?T \<le> 100" "?T \<noteq> []" by code_simp+
  have set: "tm_set_read_timeout (ci_stream (mem_io 8191)) (Some (from_secs (as_secs (read_request_timeout ?t)))) (?c ?T None)
      = Some (Ok (), ?c ?T (Some (from_secs 5)))"
    by (simp add: mem_io_def cancellable_io_def cancellable_timed_def set_read_timeout_def)
  have read: "tm_read (ci_stream (mem_io 8191)) buf_capacity (?c bs d) = Some (Ok bs, ?c [] d)"
    if "length bs \<le> 100" "bs \<noteq> []" for bs d
    using that by (simp add: mem_io_def cancellable_io_def cancellable_timed_def read_int_def on_stream_def and_then_def mem_os_def
      event_all_def buf_capacity_def)
  have "\<exists>c'. handle_connection text_externals rev (mem_io 8191) cursor_read rts ?t (?c ?T None)
        = Some (Ok (persists (rl_version ?rl) headers_new), c')
    \<and> ms_in (cs_stream c') = ms_in (cs_stream (?c [] (Some (from_secs 5))))
    \<and> ms_out (cs_stream c') = ms_out (cs_stream (?c ?T None)) @ response_text rev (\<lambda>s. s) ?resp"
    by (rule pipelined_bytes_lost [OF mem_conn.connection_axioms cursor.eof_source_axioms _ _ set read [OF len],
          where h = ?h and path = "''/a''"])
      (use rl fr normalize_a route answers_at_once in \<open>simp_all add: response_from_status_def mem_io_def cancellable_io_def
        cancellable_timed_def mem_os_def\<close>)
  with rts show ?thesis by (auto simp: persists_def)
qed

text \<open>
  A handler is only ever called with the canonical form of the request's path, at the longest
  registered prefix of it; a path that leaves the root is an internal error, and a path without a
  handler is not found.
\<close>

theorem run_action_canonical:
  "(\<exists>st h. run_action rts q = h (q\<lparr>rq_uri := canonical st\<rparr>) \<and> list_all normal_segment st
      \<and> normalize (rq_uri q) = Ok (canonical st) \<and> router_get_prefix rts (canonical st) (rq_method q) = Some h)
   \<or> run_action rts q = Some (Ok (response_from_status NotFoundStatus), q)
   \<or> (run_action rts q = Some (Ok (response_from_status InternalServerError), q)
      \<and> normalize (rq_uri q) = Err ''invalid path'')"
proof (cases "normalize (rq_uri q)")
  case (Ok p)
  obtain st where st: "p = canonical st" "list_all normal_segment st"
    using normalize_OkE [OF Ok] by (metis list_all_iff)
  show ?thesis
  proof (cases "router_get_prefix rts p (rq_method q)")
    case None
    then show ?thesis using Ok by (simp add: run_action_def)
  next
    case (Some h)
    then have "run_action rts q = h (q\<lparr>rq_uri := canonical st\<rparr>)" using Ok st(1) by (simp add: run_action_def)
    with Ok st Some show ?thesis by blast
  qed
next
  case (Err e)
  then have "e = ''invalid path''" by (simp add: normalize_eq split: if_splits option.splits)
  with Err show ?thesis by (simp add: run_action_def)
qed (simp add: normalize_eq split: if_splits option.splits)

text \<open>
  The two implementations of the persistence of a connection, the client's on a request and
  the server's, agree, and follow the specification on every request whose headers were read.
\<close>

theorem persistence_agrees:
  assumes "headers_ok (rq_headers q)"
  shows "is_connection_persistent q = Ok (persists (rq_version q) (rq_headers q))
    \<and> request_is_connection_persistent q = Ok (persists (rq_version q) (rq_headers q))"
  using is_connection_persistent_eq request_is_connection_persistent_eq headers_ok_not_empty [OF assms] by blast

theorem persistence_agrees_witness:
  "is_connection_persistent \<lparr>rq_method = GET, rq_uri = ''/'', rq_version = ''HTTP/1.0'',
      rq_headers = \<lparr>header_map = [(''Connection'', [''Keep-Alive''])]\<rparr>,
      rq_body = None :: (string, byte list) body option\<rparr> = Ok True"
proof -
  let ?hs = "\<lparr>header_map = [(''Connection'', [''Keep-Alive''])]\<rparr>"
  have ok: "headers_ok ?hs" by code_simp
  have "headers_get ?hs ''Connection'' = Some [''Keep-Alive'']" by (simp add: headers_get_def hm_get_def)
  moreover have "to_lowercase ''Keep-Alive'' = ''keep-alive''" by code_simp
  ultimately have "persists ''HTTP/1.0'' ?hs" by (simp add: persists_def)
  then show ?thesis
    using persistence_agrees [of "\<lparr>rq_method = GET, rq_uri = ''/'', rq_version = ''HTTP/1.0'',
      rq_headers = ?hs, rq_body = None :: (string, byte list) body option\<rparr>"] ok by simp
qed

text \<open>
  C15. What a request is, however it was read and whatever was sent: a method, a URI that is not
  empty, headers whose names are non-empty normal tokens, each with at least one value of field
  content; and, if it has a body, a reader that is limited to the one announced length, which is
  positive and counted from nothing. So neither look at its persistence can panic.
\<close>

theorem request_read_typed:
  assumes "request_read_from ext rd s = Some (Ok q, b)"
  shows "rq_uri q \<noteq> [] \<and> headers_all header_typed (rq_headers q)
    \<and> is_connection_persistent q = Ok (persists (rq_version q) (rq_headers q))
    \<and> request_is_connection_persistent q = Ok (persists (rq_version q) (rq_headers q))
    \<and> (case rq_body q of
         None \<Rightarrow> True
       | Some bd \<Rightarrow> body_limited bd \<and> bytes_read bd = 0 \<and> 0 < unat (content_length bd)
           \<and> body_content bd = \<lparr>tk_inner = b, tk_limit = unat (content_length bd)\<rparr>
           \<and> (\<exists>v. headers_get (rq_headers q) ''Content-Length'' = Some [v] \<and> parse_usize v = Ok (unat (content_length bd))))"
proof -
  obtain rl b1 where rl: "request_line_read rd (bufreader_new s) = Some (Ok rl, b1)" "rl_uri rl = rq_uri q"
    and hs: "headers_read_from rd b1 = Some (Ok (rq_headers q), b)" "body_read_from ext (rq_headers q) b = Ok (rq_body q)"
    using assms by (auto simp: request_read_from_def request_read_buffered_def elim!: and_then_OkD)
  have typed: "headers_all header_typed (rq_headers q)" by (rule headers_read_typed [OF hs(1)])
  then have "headers_get (rq_headers q) ''Connection'' \<noteq> Some []" by (auto simp: headers_all_iff)
  note persist = is_connection_persistent_eq [OF this] request_is_connection_persistent_eq [OF this]
  have uri: "rq_uri q \<noteq> []" using request_line_read_uri [OF rl(1)] rl(2) by simp
  have "case rq_body q of
         None \<Rightarrow> True
       | Some bd \<Rightarrow> body_limited bd \<and> bytes_read bd = 0 \<and> 0 < unat (content_length bd)
           \<and> body_content bd = \<lparr>tk_inner = b, tk_limit = unat (content_length bd)\<rparr>
           \<and> (\<exists>v. headers_get (rq_headers q) ''Content-Length'' = Some [v] \<and> parse_usize v = Ok (unat (content_length bd)))"
  proof (cases "rq_body q")
    case (Some bd)
    then have bd: "body_read_from ext (rq_headers q) b = Ok (Some bd)" using hs(2) by simp
    show ?thesis using body_read_from_limited [OF bd] body_read_from_length [OF bd] Some by simp
  qed simp
  with typed persist uri show ?thesis by blast
qed

theorem request_read_typed_witness:
  "\<exists>q b. request_read_from text_externals cursor_read (request_text rev
       \<lparr>rl_method = GET, rl_uri = ''/a'', rl_version = ''HTTP/1.0''\<rparr> \<lparr>header_map = [(''Connection'', [''Keep-Alive''])]\<rparr> [])
       = Some (Ok q, b) \<and> is_connection_persistent q = Ok True"
proof -
  let ?rl = "\<lparr>rl_method = GET, rl_uri = ''/a'', rl_version = ''HTTP/1.0''\<rparr>"
  let ?hs = "\<lparr>header_map = [(''Connection'', [''Keep-Alive''])]\<rparr>"
  have ok: "request_line_ok ?rl" "headers_ok ?hs" by code_simp+
  have fr: "request_framed text_externals ?hs []" by (simp add: request_framed_def headers_get_def hm_get_def)
  obtain q :: "(string, byte list bufreader take_reader) request" and b where
    q: "request_read_buffered text_externals cursor_read (bufreader_new (request_text rev ?rl ?hs [])) = Some (Ok q, b)"
      "rq_version q = ''HTTP/1.0''" "headers_get (rq_headers q) = headers_get ?hs"
    by (rule framed_request_read [OF cursor.byte_source_axioms _ _ ok iteration_order_rev fr, of "bufreader_new (request_text rev ?rl ?hs [])" "[]"]) auto
  have "persists ''HTTP/1.0'' ?hs" by code_simp
  with request_read_typed [OF q(1) [folded request_read_from_def]] q persists_cong [OF q(3)] show ?thesis
    by (auto simp: request_read_from_def)
qed

text \<open>
  When the peer closes an idle connection, the error is not the \<^verbatim>\<open>ConnectionClosed\<close>
  that is documented for it but an unknown one, since the stream reports a reset where the
  request line expects the end of the input.
\<close>

theorem closed_peer_is_unknown:
  "\<exists>b. request_read_from ext (timeout_read (cancellable_timed (mem_os k)))
        (timeout_stream_from \<lparr>cs_stream = \<lparr>ms_in = [], ms_out = out, ms_done = False\<rparr>,
           cs_read_timeout = None, cs_write_timeout = None\<rparr> (Some (from_secs (Suc n))) w)
      = Some (Err (Unknown ''connection reset''), b)"
  by (simp add: request_read_from_def request_read_buffered_def request_line_read_def and_then_def map_err_def,
      subst read_until.simps,
      simp add: fill_buf_def bufreader_new_def timeout_read_def timeout_stream_from_def timed_call_def
        next_timeout_left op_left_def op_from_timeout_def cancellable_timed_def set_read_timeout_def
        read_int_def on_stream_def and_then_def mem_os_def event_all_def buf_capacity_def
        would_block_is_timeout_def io_error_from_def http_error_from_io_def)

end
