(* ===== verification/Observable.thy ===== *)
theory Observable
  imports Kv_Store "HOL-Library.Word"
begin

text \<open>
  \<^verbatim>\<open>streams/observable.rs\<close>: the list of the streams that are in use. A stream is shared
  through an \<^verbatim>\<open>Arc\<close>; the list has weak references, and the drop of the last strong one
  takes the stream off the list. The strong counts are part of the state here.
\<close>

section \<open>Shared streams and the list\<close>

text \<open>
  \<^verbatim>\<open>ObservableStream\<close>: the stream, and its key in the list once it is tracked (the
  other component of \<^verbatim>\<open>parent\<close>, a weak reference to the list, is the one list of the
  state below).
\<close>

record 's observable =
  ob_observed :: 's
  ob_parent :: "64 word option"

text \<open>
  The allocated \<^verbatim>\<open>Arc<ObservableStream>\<close>s by their addresses, each with its strong
  count, and the \<^verbatim>\<open>ObservedStreamList\<close>. \<open>al_closed\<close> is a history: the streams that
  were dropped, in the state they were dropped in.
\<close>

record 's streams =
  al_objects :: "nat \<Rightarrow> (nat \<times> 's observable) option"
  al_fresh :: nat
  al_closed :: "(nat \<times> 's) list"
  ol_items :: "(64 word, nat) hash_map"
  ol_next_key :: "64 word"
  ol_alive :: bool

definition observable_new :: "'s \<Rightarrow> 's observable" where
  "observable_new s = \<lparr>ob_observed = s, ob_parent = None\<rparr>"

definition list_new :: "'s streams" where
  "list_new = \<lparr>al_objects = (\<lambda>_. None), al_fresh = 0, al_closed = [], ol_items = [], ol_next_key = 0, ol_alive = True\<rparr>"

text \<open>\<^verbatim>\<open>track\<close> returns a handle, here the address of the stream.\<close>

definition list_track :: "'s \<Rightarrow> 's streams \<Rightarrow> nat \<times> 's streams" where
  "list_track s l =
     (let ob = (observable_new s)\<lparr>ob_parent := Some (ol_next_key l)\<rparr>; a = al_fresh l
      in (a, l\<lparr>al_objects := (al_objects l)(a \<mapsto> (1, ob)), al_fresh := Suc a,
               ol_next_key := ol_next_key l + 1, ol_items := hm_insert (ol_next_key l) a (ol_items l)\<rparr>))"

definition list_len :: "'s streams \<Rightarrow> nat" where
  "list_len l = length (ol_items l)"

definition list_dropped :: "64 word \<Rightarrow> 's streams \<Rightarrow> 's streams" where
  "list_dropped key l = l\<lparr>ol_items := hm_remove key (ol_items l)\<rparr>"

definition list_drain :: "((64 word, nat) hash_map \<Rightarrow> (64 word, nat) hash_map) \<Rightarrow> 's streams \<Rightarrow> nat list \<times> 's streams" where
  "list_drain it l = (map snd (it (ol_items l)), l\<lparr>ol_items := []\<rparr>)"

text \<open>\<^verbatim>\<open>Drop for ObservableStream\<close>; the list may be gone.\<close>

definition observable_drop :: "'s observable \<Rightarrow> 's streams \<Rightarrow> 's streams" where
  "observable_drop ob l =
     (case ob_parent ob of
        None \<Rightarrow> l
      | Some key \<Rightarrow> if ol_alive l then list_dropped key l else l)"

text \<open>\<^verbatim>\<open>Clone for ObservedStream\<close>, the drop of a handle, and \<^verbatim>\<open>Weak::upgrade\<close>.\<close>

definition observed_clone :: "nat \<Rightarrow> 's streams \<Rightarrow> 's streams" where
  "observed_clone a l =
     l\<lparr>al_objects := (al_objects l)(a := map_option (\<lambda>(n, ob). (Suc n, ob)) (al_objects l a))\<rparr>"

definition observed_drop :: "nat \<Rightarrow> 's streams \<Rightarrow> 's streams" where
  "observed_drop a l =
     (case al_objects l a of
        None \<Rightarrow> l
      | Some (n, ob) \<Rightarrow>
          if 1 < n then l\<lparr>al_objects := (al_objects l)(a \<mapsto> (n - 1, ob))\<rparr>
          else observable_drop ob (l\<lparr>al_objects := (al_objects l)(a := None),
                                     al_closed := al_closed l @ [(a, ob_observed ob)]\<rparr>))"

definition weak_upgrade :: "nat \<Rightarrow> 's streams \<Rightarrow> 's streams option" where
  "weak_upgrade a l = (case al_objects l a of None \<Rightarrow> None | Some _ \<Rightarrow> Some (observed_clone a l))"

text \<open>The drop of the list itself, at the end of \<^verbatim>\<open>accept_connections\<close>.\<close>

definition list_drop :: "'s streams \<Rightarrow> 's streams" where
  "list_drop l = l\<lparr>ol_items := [], ol_alive := False\<rparr>"

text \<open>
  Reading, writing, flushing and shutting down through a handle act on the one stream behind it,
  whichever clone is used; the last branch is unreachable as a handle keeps its stream alive.
\<close>

definition observed_set :: "nat \<Rightarrow> 's \<Rightarrow> 's streams \<Rightarrow> 's streams" where
  "observed_set a s l =
     l\<lparr>al_objects := (al_objects l)(a := map_option (\<lambda>(n, ob). (n, ob\<lparr>ob_observed := s\<rparr>)) (al_objects l a))\<rparr>"

definition observed_io :: "nat \<Rightarrow> ('s, 'a, 'e) prog \<Rightarrow> ('s streams, 'a, 'e) prog" where
  "observed_io a m l =
     (case al_objects l a of
        Some (n, ob) \<Rightarrow>
          (case m (ob_observed ob) of
             None \<Rightarrow> None
           | Some (r, s) \<Rightarrow> Some (r, observed_set a s l))
      | None \<Rightarrow> Some (Panic, l))"

section \<open>Histories\<close>

text \<open>
  What can happen to the list before it is drained: \<open>n\<close> streams were tracked and \<open>hs\<close> are the
  handles that exist. A handle is cloned, used and dropped by whoever has it.
\<close>

inductive observed_history :: "nat \<Rightarrow> nat multiset \<Rightarrow> 's streams \<Rightarrow> bool" where
  new: "observed_history 0 {#} list_new"
| track: "observed_history n hs l \<Longrightarrow> list_track s l = (a, l') \<Longrightarrow> observed_history (Suc n) (add_mset a hs) l'"
| clone: "observed_history n hs l \<Longrightarrow> a \<in># hs \<Longrightarrow> observed_history n (add_mset a hs) (observed_clone a l)"
| upgrade: "observed_history n hs l \<Longrightarrow> weak_upgrade a l = Some l' \<Longrightarrow> observed_history n (add_mset a hs) l'"
| io: "observed_history n hs l \<Longrightarrow> a \<in># hs \<Longrightarrow> observed_history n hs (observed_set a s l)"
| drop: "observed_history n hs l \<Longrightarrow> a \<in># hs \<Longrightarrow> observed_history n (hs - {#a#}) (observed_drop a l)"

text \<open>
  The key of a stream is the number of streams tracked before it, as long as the counter has not
  wrapped; the strong counts are the numbers of handles.
\<close>

definition strong_count :: "'s streams \<Rightarrow> nat \<Rightarrow> nat" where
  "strong_count l a = (case al_objects l a of None \<Rightarrow> 0 | Some (c, _) \<Rightarrow> c)"

definition objects_inv :: "nat \<Rightarrow> nat multiset \<Rightarrow> 's streams \<Rightarrow> bool" where
  "objects_inv n hs l \<longleftrightarrow> al_fresh l = n \<and> ol_next_key l = of_nat n \<and> count hs = strong_count l
     \<and> (\<forall>a c ob. al_objects l a = Some (c, ob) \<longrightarrow> a < n \<and> 0 < c \<and> ob_parent ob = Some (of_nat a))"

definition items_inv :: "'s streams \<Rightarrow> bool" where
  "items_inv l \<longleftrightarrow> hm_inv (ol_items l) \<and> ol_alive l
     \<and> (\<forall>k a. hm_get (ol_items l) k = Some a \<longleftrightarrow> k = of_nat a \<and> al_objects l a \<noteq> None)"

lemma objects_invD:
  assumes "objects_inv n hs l" and "al_objects l a = Some (c, ob)"
  shows "a < n \<and> 0 < c \<and> ob_parent ob = Some (of_nat a)"
  using assms unfolding objects_inv_def by blast

lemma objects_inv_handle:
  assumes "objects_inv n hs l"
  shows "a \<in># hs \<longleftrightarrow> al_objects l a \<noteq> None"
proof -
  have "a \<in># hs \<longleftrightarrow> 0 < strong_count l a"
    using assms by (simp add: objects_inv_def flip: count_greater_zero_iff)
  also have "\<dots> \<longleftrightarrow> al_objects l a \<noteq> None"
    using objects_invD [OF assms, of a] by (auto simp: strong_count_def split: option.splits)
  finally show ?thesis .
qed

text \<open>Addresses below \<open>2 ^ 64\<close> have different keys.\<close>

lemma key_inj: "a < 2 ^ 64 \<Longrightarrow> b < 2 ^ 64 \<Longrightarrow> (of_nat a :: 64 word) = of_nat b \<longleftrightarrow> a = b"
  by (simp add: word_of_nat_eq_iff take_bit_nat_eq_self)

section \<open>Every operation keeps the invariants\<close>

lemma list_new_inv: "objects_inv 0 {#} list_new \<and> items_inv list_new"
  by (simp add: objects_inv_def items_inv_def list_new_def strong_count_def fun_eq_iff)

lemma list_track_inv:
  assumes "objects_inv n hs l" and "items_inv l" and "n < 2 ^ 64" and "list_track s l = (a, l')"
  shows "a = n \<and> objects_inv (Suc n) (add_mset a hs) l' \<and> items_inv l'"
proof -
  let ?ob = "(observable_new s)\<lparr>ob_parent := Some (of_nat n)\<rparr>"
  have none: "al_objects l n = None"
    using objects_invD [OF assms(1), of n] by (cases "al_objects l n") auto
  have eq: "al_fresh l = n" "ol_next_key l = of_nat n" "count hs = strong_count l"
    using assms(1) by (simp_all add: objects_inv_def)
  have a: "a = n"
    and l': "al_objects l' = (al_objects l)(n \<mapsto> (1, ?ob))" "al_fresh l' = Suc n" "ol_next_key l' = of_nat (Suc n)"
      "ol_items l' = hm_insert (of_nat n) n (ol_items l)" "ol_alive l' = ol_alive l"
    using assms(4) eq(1,2) by (auto simp: list_track_def Let_def)
  have "count (add_mset a hs) = strong_count l'"
    using eq(3) none by (simp add: fun_eq_iff strong_count_def l' a)
  moreover have "b < Suc n \<and> 0 < c \<and> ob_parent ob = Some (of_nat b)" if "al_objects l' b = Some (c, ob)" for b c ob
    using that objects_invD [OF assms(1), of b] by (cases "b = n") (auto simp: l' less_Suc_eq)
  ultimately have "objects_inv (Suc n) (add_mset a hs) l'"
    unfolding objects_inv_def l'(2,3) by blast
  moreover have "items_inv l'"
  proof -
    have "hm_get (ol_items l') k = Some b \<longleftrightarrow> k = of_nat b \<and> al_objects l' b \<noteq> None" for k b
    proof -
      have old: "hm_get (ol_items l) k = Some b \<longleftrightarrow> k = of_nat b \<and> al_objects l b \<noteq> None"
        using assms(2) by (simp add: items_inv_def)
      have less: "al_objects l b \<noteq> None \<Longrightarrow> b < n" using objects_invD [OF assms(1), of b] by auto
      show ?thesis
        using old less key_inj [of b n] assms(3) none by (auto simp: l')
    qed
    then show ?thesis using assms(2) by (simp add: items_inv_def l')
  qed
  ultimately show ?thesis using a by simp
qed

lemma observed_clone_inv:
  assumes "objects_inv n hs l" and "items_inv l" and "al_objects l a \<noteq> None"
  shows "objects_inv n (add_mset a hs) (observed_clone a l) \<and> items_inv (observed_clone a l)"
  using assms by (auto simp: objects_inv_def items_inv_def observed_clone_def strong_count_def fun_eq_iff
      split: if_splits)

lemma observed_set_inv:
  assumes "objects_inv n hs l" and "items_inv l"
  shows "objects_inv n hs (observed_set a s l) \<and> items_inv (observed_set a s l)"
  using assms by (auto simp: objects_inv_def items_inv_def observed_set_def strong_count_def fun_eq_iff
      split: if_splits option.splits)

lemma observed_io_set:
  assumes "observed_io a m l = Some (r, l')"
  shows "l' = l \<or> (\<exists>s. l' = observed_set a s l)"
  using assms by (auto simp: observed_io_def split: option.splits prod.splits)

lemma observed_drop_inv:
  assumes "objects_inv n hs l" and "items_inv l" and "n \<le> 2 ^ 64" and "a \<in># hs"
  shows "objects_inv n (hs - {#a#}) (observed_drop a l) \<and> items_inv (observed_drop a l)"
proof -
  obtain c ob where ob: "al_objects l a = Some (c, ob)"
    using assms(1,4) objects_inv_handle by fastforce
  note c = objects_invD [OF assms(1) ob]
  show ?thesis
  proof (cases "1 < c")
    case True
    then have "observed_drop a l = l\<lparr>al_objects := (al_objects l)(a \<mapsto> (c - 1, ob))\<rparr>"
      using ob by (simp add: observed_drop_def)
    then show ?thesis using assms(1,2) c True ob
      by (auto simp: objects_inv_def items_inv_def strong_count_def fun_eq_iff split: if_splits)
  next
    case False
    have l': "observed_drop a l = l\<lparr>al_objects := (al_objects l)(a := None),
        al_closed := al_closed l @ [(a, ob_observed ob)], ol_items := hm_remove (of_nat a) (ol_items l)\<rparr>"
      using False ob c assms(2)
      by (simp add: observed_drop_def observable_drop_def list_dropped_def items_inv_def)
    have "objects_inv n (hs - {#a#}) (observed_drop a l)"
      using assms(1) c False ob
      by (auto simp: l' objects_inv_def strong_count_def fun_eq_iff split: if_splits)
    moreover have "hm_get (ol_items (observed_drop a l)) k = Some b
        \<longleftrightarrow> k = of_nat b \<and> al_objects (observed_drop a l) b \<noteq> None" for k b
    proof -
      have old: "hm_get (ol_items l) k = Some b \<longleftrightarrow> k = of_nat b \<and> al_objects l b \<noteq> None"
        using assms(2) by (simp add: items_inv_def)
      have less: "al_objects l b \<noteq> None \<Longrightarrow> b < n" using objects_invD [OF assms(1), of b] by auto
      show ?thesis
        using old less key_inj [of b a] assms(3) c by (auto simp: l')
    qed
    ultimately show ?thesis using assms(2) by (simp add: items_inv_def l')
  qed
qed

lemma observed_history_inv:
  assumes "observed_history n hs l" and "n \<le> 2 ^ 64"
  shows "objects_inv n hs l \<and> items_inv l"
  using assms
proof (induction rule: observed_history.induct)
  case new
  show ?case by (rule list_new_inv)
next
  case (track n hs l s a l')
  then have "n < 2 ^ 64" by simp
  with track show ?case using list_track_inv [of n hs l s a l'] by auto
next
  case (clone n hs l a)
  then show ?case using observed_clone_inv [of n hs l a] objects_inv_handle [of n hs l a] by simp
next
  case (upgrade n hs l a l')
  then show ?case using observed_clone_inv [of n hs l a] by (auto simp: weak_upgrade_def split: option.splits)
next
  case (io n hs l a s)
  then show ?case using observed_set_inv [of n hs l a s] by simp
next
  case (drop n hs l a)
  then show ?case using observed_drop_inv [of n hs l a] by simp
qed

text \<open>What the invariants say of draining: each stream in use, once.\<close>

lemma list_drain_live:
  assumes "objects_inv n hs l" and "items_inv l" and "iteration_order it" and "list_drain it l = (pending, l')"
  shows "distinct pending \<and> set pending = {a. al_objects l a \<noteq> None} \<and> length pending = list_len l"
proof -
  have inv: "hm_inv (it (ol_items l))" using assms(2,3) by (simp add: items_inv_def iteration_order_inv)
  have entry: "(k, a) \<in> set (it (ol_items l)) \<longleftrightarrow> k = of_nat a \<and> al_objects l a \<noteq> None" for k a
    using assms(2,3) hm_get_mem [of "ol_items l"] by (simp add: items_inv_def)
  have pending: "pending = map snd (it (ol_items l))" using assms(4) by (simp add: list_drain_def)
  have "inj_on snd (set (it (ol_items l)))" by (auto simp: inj_on_def entry)
  moreover have "distinct (it (ol_items l))" using inv by (simp add: hm_inv_def distinct_map)
  ultimately have "distinct pending" by (simp add: pending distinct_map)
  moreover have "a \<in> set pending \<longleftrightarrow> al_objects l a \<noteq> None" for a
  proof -
    have "a \<in> set pending \<longleftrightarrow> (\<exists>k. (k, a) \<in> set (it (ol_items l)))" by (force simp: pending)
    then show ?thesis by (simp add: entry)
  qed
  then have "set pending = {a. al_objects l a \<noteq> None}" by blast
  ultimately show ?thesis using assms(3) by (simp add: pending list_len_def)
qed

section \<open>Properties\<close>

text \<open>
  C21. Whatever is tracked, cloned, used and dropped, as long as fewer than \<open>2 ^ 64\<close> streams
  were ever tracked, the list has exactly the streams that some handle still refers to, and
  draining it yields each of them once; a stream is kept alive by its handles alone.
\<close>

theorem observed_list_exact:
  assumes "observed_history n hs l" and "n \<le> 2 ^ 64" and "iteration_order it" and "list_drain it l = (pending, l')"
  shows "set pending = set_mset hs \<and> distinct pending \<and> list_len l = card (set_mset hs)
    \<and> (\<forall>a. weak_upgrade a l \<noteq> None \<longleftrightarrow> a \<in># hs) \<and> list_len l' = 0"
proof -
  have inv: "objects_inv n hs l" "items_inv l" using observed_history_inv [OF assms(1,2)] by auto
  have live: "a \<in># hs \<longleftrightarrow> al_objects l a \<noteq> None" for a by (rule objects_inv_handle [OF inv(1)])
  have pending: "distinct pending" "set pending = set_mset hs" "length pending = list_len l"
    using list_drain_live [OF inv assms(3,4)] by (auto simp: live)
  moreover have "list_len l = card (set_mset hs)" using pending by (metis distinct_card)
  moreover have "list_len l' = 0" using assms(4) by (auto simp: list_drain_def list_len_def)
  ultimately show ?thesis using live by (auto simp: weak_upgrade_def split: option.splits)
qed

theorem observed_list_exact_witness:
  "fst (list_drain rev (observed_drop 0 (snd (list_track ''b'' (observed_clone 0 (snd (list_track ''a'' list_new))))))) = [1, 0]"
proof -
  let ?l1 = "snd (list_track ''a'' list_new)"
  let ?l2 = "snd (list_track ''b'' (observed_clone 0 ?l1))"
  have t1: "list_track ''a'' list_new = (0, ?l1)" by (simp add: list_track_def list_new_def)
  have t2: "list_track ''b'' (observed_clone 0 ?l1) = (1, ?l2)"
    by (simp add: list_track_def list_new_def observed_clone_def)
  have "observed_history 1 {#0#} ?l1" using observed_history.track [OF observed_history.new t1] by simp
  from observed_history.clone [OF this, of 0] have "observed_history 1 {#0, 0#} (observed_clone 0 ?l1)" by simp
  from observed_history.track [OF this t2] have "observed_history 2 {#1, 0, 0#} ?l2" by (simp add: numeral_2_eq_2)
  from observed_history.drop [OF this, of 0] have h: "observed_history 2 {#1, 0#} (observed_drop 0 ?l2)" by simp
  obtain pending l' where d: "list_drain rev (observed_drop 0 ?l2) = (pending, l')" by fastforce
  have "set pending = {0, 1} \<and> distinct pending"
    using observed_list_exact [OF h _ _ d] by auto
  moreover have "pending = [1, 0]"
    using d by (auto simp: list_drain_def observed_drop_def list_track_def list_new_def observed_clone_def
      hm_insert_def Let_def)
  ultimately show ?thesis using d by simp
qed

end
