(* ===== verification/Action_Runner.thy ===== *)
theory Action_Runner
  imports Wruster_Prelude
begin

text \<open>
  What a pool of threads promises its client: to run an action, or to give it back. The two
  pools of \<^verbatim>\<open>thread_pool\<close> provide this contract and \<^verbatim>\<open>Pool\<close> relies on it.

  Also here: the drop of workers, and the life of a worker thread as ticks. A tick that a thread cannot make in its state
  changes nothing, so every list of ticks is a legal interleaving.
\<close>

section \<open>The contract\<close>

text \<open>
  \<open>accepted\<close> are the actions that were taken: those a thread is running and those that have
  been run. An unwinding run loses the action, and it can only happen when \<open>broken\<close> holds.
\<close>

locale action_runner =
  fixes run :: "'a \<Rightarrow> ('p, unit, 'a) prog" and inv :: "'p \<Rightarrow> bool"
    and accepted :: "'p \<Rightarrow> 'a multiset" and broken :: "'p \<Rightarrow> bool"
  assumes run_result: "inv p \<Longrightarrow> \<exists>r p'. run a p = Some (r, p') \<and> inv p'
      \<and> (case r of
           Ok _ \<Rightarrow> accepted p' = add_mset a (accepted p)
         | Err b \<Rightarrow> b = a \<and> accepted p' = accepted p
         | Panic \<Rightarrow> broken p' \<and> accepted p' = accepted p)"
begin

lemma run_cases:
  assumes "inv p"
  obtains p' where "run a p = Some (Ok (), p')" "inv p'" "accepted p' = add_mset a (accepted p)"
  | p' where "run a p = Some (Err a, p')" "inv p'" "accepted p' = accepted p"
  | p' where "run a p = Some (Panic, p')" "inv p'" "broken p'" "accepted p' = accepted p"
proof -
  obtain r p' where "run a p = Some (r, p')" "inv p'"
    "case r of Ok _ \<Rightarrow> accepted p' = add_mset a (accepted p)
       | Err b \<Rightarrow> b = a \<and> accepted p' = accepted p
       | Panic \<Rightarrow> broken p' \<and> accepted p' = accepted p"
    using run_result [OF assms, of a] by blast
  with that show thesis by (cases r) auto
qed

end

section \<open>Worker threads\<close>

text \<open>
  A thread is on its way to the receive, blocked in it, or running an action; it has died when
  an action panicked, and it has stopped when the sender was dropped or the receive timed out.
  Between the time-out and the end, a thread of the dynamic pool runs its \<open>finished\<close> callback.
\<close>

datatype 'a thread = Looping | Waiting | Running 'a | Finishing | Stopped | Died

record 'a worker =
  wk_id :: nat
  wk_thread :: "'a thread"
  wk_ran :: "'a list"

datatype tick = Receive | Complete | Unwind | Expire | Finish

text \<open>The ticks that the threads, given by their indices, make before the \<open>k\<close>-th attempt of a run.\<close>

type_synonym env = "nat \<Rightarrow> (nat \<times> tick) list"

definition started :: "nat \<Rightarrow> 'a worker" where
  "started i = \<lparr>wk_id = i, wk_thread = Looping, wk_ran = []\<rparr>"

definition started_with :: "nat \<Rightarrow> 'a \<Rightarrow> 'a worker" where
  "started_with i a = \<lparr>wk_id = i, wk_thread = Running a, wk_ran = []\<rparr>"

text \<open>\<^verbatim>\<open>try_send\<close> on a channel without a buffer: only a thread blocked in the receive takes it.\<close>

datatype 'a try_send_result = Sent | Full 'a | Disconnected 'a

definition try_send :: "'a \<Rightarrow> 'a worker \<Rightarrow> 'a try_send_result \<times> 'a worker" where
  "try_send a w =
     (case wk_thread w of
        Waiting \<Rightarrow> (Sent, w\<lparr>wk_thread := Running a\<rparr>)
      | Stopped \<Rightarrow> (Disconnected a, w)
      | Died \<Rightarrow> (Disconnected a, w)
      | _ \<Rightarrow> (Full a, w))"

definition held :: "'a worker \<Rightarrow> 'a multiset" where
  "held w = mset (wk_ran w) + (case wk_thread w of Running a \<Rightarrow> {#a#} | _ \<Rightarrow> {#})"

definition total :: "'a worker list \<Rightarrow> 'a multiset" where
  "total ws = sum_list (map held ws)"

lemma total_update:
  "i < length ws \<Longrightarrow> held w = held (ws ! i) + m \<Longrightarrow> total (ws[i := w]) = total ws + m"
  by (induction ws arbitrary: i) (auto simp: total_def nth_Cons split: nat.splits)

lemma total_update_same [simp]:
  "i < length ws \<Longrightarrow> held w = held (ws ! i) \<Longrightarrow> total (ws[i := w]) = total ws"
  using total_update [of i ws w "{#}"] by simp

lemma held_started [simp]: "held (started i) = {#}" "held (started_with i a) = {#a#}"
  by (simp_all add: held_def started_def started_with_def)

lemma try_send_cases:
  obtains "wk_thread w = Waiting" "try_send a w = (Sent, w\<lparr>wk_thread := Running a\<rparr>)"
    "held (w\<lparr>wk_thread := Running a\<rparr>) = add_mset a (held w)"
  | "wk_thread w \<in> {Stopped, Died}" "try_send a w = (Disconnected a, w)"
  | "wk_thread w \<notin> {Waiting, Stopped, Died}" "try_send a w = (Full a, w)"
  by (cases "wk_thread w") (auto simp: try_send_def held_def)

section \<open>Dropping workers\<close>

text \<open>
  \<^verbatim>\<open>Drop for Worker\<close> and \<^verbatim>\<open>Drop for DynamicWorker\<close>: without the sender, the thread
  ends after the action it is running, which is taken to end; joining a thread that died panics.
  \<open>panics\<close> says which actions do.
\<close>

definition worker_drop :: "('a \<Rightarrow> bool) \<Rightarrow> 'a worker \<Rightarrow> (unit, unit) res \<times> 'a worker" where
  "worker_drop panics w =
     (case wk_thread w of
        Died \<Rightarrow> (Panic, w)
      | Running a \<Rightarrow>
          if panics a then (Panic, w\<lparr>wk_thread := Died, wk_ran := wk_ran w @ [a]\<rparr>)
          else (Ok (), w\<lparr>wk_thread := Stopped, wk_ran := wk_ran w @ [a]\<rparr>)
      | _ \<Rightarrow> (Ok (), w\<lparr>wk_thread := Stopped\<rparr>))"

text \<open>
  A vector drops all its elements, also after one that panicked; if another one panics as well, the
  process aborts, and the rest of this result says nothing.
\<close>

fun drop_workers :: "('a \<Rightarrow> bool) \<Rightarrow> 'a worker list \<Rightarrow> (unit, unit) res \<times> 'a worker list" where
  "drop_workers panics [] = (Ok (), [])"
| "drop_workers panics (w # ws) =
     (let (r, w') = worker_drop panics w; (q, ws') = drop_workers panics ws
      in (if r = Ok () then q else r, w' # ws'))"

lemma drop_workers_append:
  "drop_workers panics (ws @ vs) =
     (let (r, ws') = drop_workers panics ws; (q, vs') = drop_workers panics vs
      in (if r = Ok () then q else r, ws' @ vs'))"
  by (induction ws) (auto simp: Let_def split: prod.splits)

lemma drop_workers_all:
  assumes "\<forall>w \<in> set ws. wk_thread w \<noteq> Died \<and> (\<forall>a. wk_thread w = Running a \<longrightarrow> \<not> panics a)"
  shows "\<exists>ws'. drop_workers panics ws = (Ok (), ws') \<and> (\<forall>w \<in> set ws'. wk_thread w = Stopped)
    \<and> mset (concat (map wk_ran ws')) = total ws"
  using assms
proof (induction ws)
  case (Cons w ws)
  then obtain ws' where ws': "drop_workers panics ws = (Ok (), ws')" "\<forall>w \<in> set ws'. wk_thread w = Stopped"
    "mset (concat (map wk_ran ws')) = total ws" by auto
  show ?case
    using ws' Cons.prems
    by (cases "wk_thread w") (auto simp: worker_drop_def total_def held_def)
qed (simp add: total_def)

end
