(* ===== verification/Static_Pool.thy ===== *)
theory Static_Pool
  imports Action_Runner
begin

text \<open>
  \<^verbatim>\<open>thread_pool/static_pool.rs\<close>: a fixed number of worker threads, tried in turn from the
  one after the last that took an action. The threads go on while the pool tries one after the
  other; \<open>env k\<close> are the ticks they make before the \<open>k\<close>-th attempt.
\<close>

section \<open>Workers\<close>

fun static_tick :: "tick \<Rightarrow> 'a worker \<Rightarrow> 'a worker" where
  "static_tick Receive w = (if wk_thread w = Looping then w\<lparr>wk_thread := Waiting\<rparr> else w)"
| "static_tick Complete w =
     (case wk_thread w of Running a \<Rightarrow> w\<lparr>wk_thread := Looping, wk_ran := wk_ran w @ [a]\<rparr> | _ \<Rightarrow> w)"
| "static_tick Unwind w =
     (case wk_thread w of Running a \<Rightarrow> w\<lparr>wk_thread := Died, wk_ran := wk_ran w @ [a]\<rparr> | _ \<Rightarrow> w)"
| "static_tick _ w = w"

text \<open>A dropped receiver is \<^verbatim>\<open>unreachable!()\<close> in the code.\<close>

definition worker_exec :: "'a \<Rightarrow> ('a worker, unit, 'a) prog" where
  "worker_exec a w =
     (case try_send a w of
        (Sent, w') \<Rightarrow> Some (Ok (), w')
      | (Full b, w') \<Rightarrow> Some (Err b, w')
      | (Disconnected _, w') \<Rightarrow> Some (Panic, w'))"

section \<open>The pool\<close>

record 'a static_pool =
  sp_size :: nat
  sp_next :: nat
  sp_workers :: "'a worker list"

definition static_new :: "nat \<Rightarrow> 'a static_pool" where
  "static_new n = \<lparr>sp_size = n, sp_next = 0, sp_workers = map started [0..<n]\<rparr>"

definition tick_worker :: "(tick \<Rightarrow> 'a worker \<Rightarrow> 'a worker) \<Rightarrow> nat \<times> tick \<Rightarrow> 'a worker list \<Rightarrow> 'a worker list" where
  "tick_worker step e ws = (if fst e < length ws then ws[fst e := step (snd e) (ws ! fst e)] else ws)"

definition static_ticks :: "(nat \<times> tick) list \<Rightarrow> 'a static_pool \<Rightarrow> 'a static_pool" where
  "static_ticks es p = p\<lparr>sp_workers := fold (tick_worker static_tick) es (sp_workers p)\<rparr>"

text \<open>\<^verbatim>\<open>self.workers[i].exec(action)\<close>; an index out of range panics.\<close>

definition static_exec :: "nat \<Rightarrow> 'a \<Rightarrow> ('a static_pool, unit, 'a) prog" where
  "static_exec i a p =
     (if length (sp_workers p) \<le> i then Some (Panic, p)
      else (case worker_exec a (sp_workers p ! i) of
              None \<Rightarrow> None
            | Some (r, w) \<Rightarrow> Some (r, p\<lparr>sp_workers := (sp_workers p)[i := w]\<rparr>)))"

text \<open>The loop over the other workers; the result is the index of the worker that took the action.\<close>

partial_function (option) static_scan ::
  "env \<Rightarrow> nat \<Rightarrow> 'a \<Rightarrow> nat \<Rightarrow> 'a static_pool \<Rightarrow> ((nat, 'a) res \<times> 'a static_pool) option" where
  "static_scan env k a start p =
     (case static_exec start a (static_ticks (env k) p) of
        None \<Rightarrow> None
      | Some (r, p1) \<Rightarrow>
          (case r of
             Ok u \<Rightarrow> Some (Ok start, p1)
           | Err b \<Rightarrow>
               if (start + 1) mod sp_size p1 = sp_next p1 then Some (Err b, p1)
               else static_scan env (Suc k) b ((start + 1) mod sp_size p1) p1
           | Panic \<Rightarrow> Some (Panic, p1)))"

definition static_run :: "env \<Rightarrow> 'a \<Rightarrow> ('a static_pool, unit, 'a) prog" where
  "static_run env a p =
     (case static_exec (sp_next p) a (static_ticks (env 0) p) of
        None \<Rightarrow> None
      | Some (r, p1) \<Rightarrow>
          (case r of
             Ok u \<Rightarrow> Some (Ok (), p1\<lparr>sp_next := (sp_next p1 + 1) mod sp_size p1\<rparr>)
           | Panic \<Rightarrow> Some (Panic, p1)
           | Err b \<Rightarrow>
               (case static_scan env 1 b ((sp_next p1 + 1) mod sp_size p1) p1 of
                  None \<Rightarrow> None
                | Some (q, p2) \<Rightarrow>
                    (case q of
                       Ok i \<Rightarrow> Some (Ok (), p2\<lparr>sp_next := (i + 1) mod sp_size p2\<rparr>)
                     | Err c \<Rightarrow> Some (Err c, p2)
                     | Panic \<Rightarrow> Some (Panic, p2)))))"

definition static_inv :: "'a static_pool \<Rightarrow> bool" where
  "static_inv p \<longleftrightarrow> 0 < sp_size p \<and> length (sp_workers p) = sp_size p \<and> sp_next p < sp_size p
     \<and> (\<forall>w \<in> set (sp_workers p). wk_thread w \<noteq> Stopped \<and> wk_thread w \<noteq> Finishing)"

definition static_accepted :: "'a static_pool \<Rightarrow> 'a multiset" where
  "static_accepted p = total (sp_workers p)"

definition some_died :: "'a static_pool \<Rightarrow> bool" where
  "some_died p \<longleftrightarrow> (\<exists>w \<in> set (sp_workers p). wk_thread w = Died)"

section \<open>Ticks keep the actions\<close>

lemma held_static_tick [simp]: "held (static_tick t w) = held w"
  by (cases t) (auto simp: held_def split: thread.split)

lemma static_tick_thread:
  "wk_thread w \<noteq> Stopped \<and> wk_thread w \<noteq> Finishing \<Longrightarrow>
     wk_thread (static_tick t w) \<noteq> Stopped \<and> wk_thread (static_tick t w) \<noteq> Finishing"
  by (cases t) (auto split: thread.split)

lemma length_tick_worker [simp]: "length (tick_worker f e ws) = length ws"
  by (simp add: tick_worker_def)

lemma total_ticks [simp]: "total (fold (tick_worker static_tick) es ws) = total ws"
  by (induction es arbitrary: ws) (auto simp: tick_worker_def)

lemma length_ticks [simp]: "length (fold (tick_worker f) es ws) = length ws"
  by (induction es arbitrary: ws) auto

lemma tick_worker_inv:
  assumes "\<forall>w \<in> set ws. wk_thread w \<noteq> Stopped \<and> wk_thread w \<noteq> Finishing"
  shows "\<forall>w \<in> set (fold (tick_worker static_tick) es ws). wk_thread w \<noteq> Stopped \<and> wk_thread w \<noteq> Finishing"
  using assms
proof (induction es arbitrary: ws)
  case (Cons e es)
  have "\<forall>w \<in> set (tick_worker static_tick e ws). wk_thread w \<noteq> Stopped \<and> wk_thread w \<noteq> Finishing"
    using Cons.prems static_tick_thread [of "ws ! fst e" "snd e"] nth_mem [of "fst e" ws]
    by (auto simp: tick_worker_def dest!: set_update_subset_insert [THEN subsetD])
  from Cons.IH [OF this] show ?case by simp
qed simp

lemma static_ticks_inv [simp]: "static_inv p \<Longrightarrow> static_inv (static_ticks es p)"
  using tick_worker_inv [of "sp_workers p" es] by (simp add: static_inv_def static_ticks_def)

lemma static_ticks_accepted [simp]: "static_accepted (static_ticks es p) = static_accepted p"
  by (simp add: static_accepted_def static_ticks_def)

lemma static_ticks_select [simp]:
  "sp_size (static_ticks es p) = sp_size p" "sp_next (static_ticks es p) = sp_next p"
  by (simp_all add: static_ticks_def)

lemma static_next_accepted [simp]: "static_accepted (p\<lparr>sp_next := n\<rparr>) = static_accepted p"
  by (simp add: static_accepted_def)

lemma static_next_inv: "static_inv p \<Longrightarrow> n < sp_size p \<Longrightarrow> static_inv (p\<lparr>sp_next := n\<rparr>)"
  by (simp add: static_inv_def)

lemma static_turn_inv: "static_inv p \<Longrightarrow> static_inv (p\<lparr>sp_next := n mod sp_size p\<rparr>)"
  by (simp add: static_inv_def)

section \<open>One attempt\<close>

lemma static_exec_cases:
  assumes "static_inv p" and "i < sp_size p"
  obtains p' where "static_exec i a p = Some (Ok (), p')" "static_inv p'" "sp_next p' = sp_next p"
      "sp_size p' = sp_size p" "static_accepted p' = add_mset a (static_accepted p)"
      "wk_thread (sp_workers p ! i) = Waiting"
    | "static_exec i a p = Some (Err a, p)" "wk_thread (sp_workers p ! i) \<noteq> Waiting"
      "wk_thread (sp_workers p ! i) \<noteq> Died"
    | "static_exec i a p = Some (Panic, p)" "wk_thread (sp_workers p ! i) = Died" "some_died p"
proof -
  let ?w = "sp_workers p ! i"
  have i: "i < length (sp_workers p)" "?w \<in> set (sp_workers p)" using assms by (auto simp: static_inv_def)
  consider "wk_thread ?w = Waiting" "try_send a ?w = (Sent, ?w\<lparr>wk_thread := Running a\<rparr>)"
      "held (?w\<lparr>wk_thread := Running a\<rparr>) = add_mset a (held ?w)"
    | "wk_thread ?w = Died" "try_send a ?w = (Disconnected a, ?w)"
    | "wk_thread ?w \<noteq> Waiting" "wk_thread ?w \<noteq> Died" "try_send a ?w = (Full a, ?w)"
    using try_send_cases [of ?w a] assms(1) i(2) by (auto simp: static_inv_def)
  then show thesis
  proof cases
    case 1
    let ?p' = "p\<lparr>sp_workers := (sp_workers p)[i := ?w\<lparr>wk_thread := Running a\<rparr>]\<rparr>"
    have "static_exec i a p = Some (Ok (), ?p')"
      using 1 i(1) by (simp add: static_exec_def worker_exec_def)
    moreover have "static_inv ?p'"
      using assms(1) by (auto simp: static_inv_def dest!: set_update_subset_insert [THEN subsetD])
    moreover have "static_accepted ?p' = add_mset a (static_accepted p)"
      using total_update [OF i(1), of "?w\<lparr>wk_thread := Running a\<rparr>" "{#a#}"] 1(3)
      by (simp add: static_accepted_def)
    ultimately show thesis using 1(1) by (intro that(1)) simp_all
  next
    case 2
    then show thesis
      using i by (intro that(3)) (auto simp: static_exec_def worker_exec_def some_died_def)
  next
    case 3
    then show thesis
      using i by (intro that(2)) (auto simp: static_exec_def worker_exec_def)
  qed
qed

section \<open>The loop ends: the attempts that remain\<close>

definition remaining :: "nat \<Rightarrow> nat \<Rightarrow> nat \<Rightarrow> nat" where
  "remaining n nxt start = (if start < nxt then nxt - start - 1 else nxt + n - start - 1)"

lemma remaining_less:
  assumes "start < n" and "nxt < n" and "(start + 1) mod n \<noteq> nxt"
  shows "(start + 1) mod n < n \<and> remaining n nxt start = Suc (remaining n nxt ((start + 1) mod n))"
proof (cases "start + 1 < n")
  case False
  then have "start + 1 = n" using assms(1) by simp
  then show ?thesis using assms by (auto simp: remaining_def)
qed (use assms in \<open>auto simp: remaining_def\<close>)

lemma remaining_last:
  assumes "start < n" and "nxt < n" and "(start + 1) mod n = nxt"
  shows "remaining n nxt start = 0"
proof (cases "start + 1 < n")
  case False
  then have "start + 1 = n" using assms(1) by simp
  then show ?thesis using assms by (auto simp: remaining_def)
qed (use assms in \<open>auto simp: remaining_def\<close>)

definition scan_result :: "'a \<Rightarrow> 'a static_pool \<Rightarrow> ((nat, 'a) res \<times> 'a static_pool) option \<Rightarrow> bool" where
  "scan_result a p out \<longleftrightarrow>
     (\<exists>r p'. out = Some (r, p') \<and> static_inv p' \<and> sp_next p' = sp_next p \<and> sp_size p' = sp_size p
        \<and> (case r of
             Ok i \<Rightarrow> i < sp_size p \<and> static_accepted p' = add_mset a (static_accepted p)
           | Err b \<Rightarrow> b = a \<and> static_accepted p' = static_accepted p
           | Panic \<Rightarrow> some_died p' \<and> static_accepted p' = static_accepted p))"

lemma scan_result_ticks [simp]: "scan_result a (static_ticks es p) out = scan_result a p out"
  by (simp add: scan_result_def cong: res.case_cong)

lemma static_scan_result:
  assumes "static_inv p" and "start < sp_size p"
  shows "scan_result a p (static_scan env k a start p)"
  using assms
proof (induction "remaining (sp_size p) (sp_next p) start" arbitrary: start p k rule: less_induct)
  case less
  let ?q = "static_ticks (env k) p"
  have q: "static_inv ?q" "start < sp_size ?q" using less.prems by simp_all
  show ?case
  proof (cases rule: static_exec_cases [OF q, of a])
    case (1 p')
    then show ?thesis using less.prems by (subst static_scan.simps) (simp add: scan_result_def)
  next
    case 2
    show ?thesis
    proof (cases "(start + 1) mod sp_size p = sp_next p")
      case True
      then show ?thesis using 2 q by (subst static_scan.simps) (simp add: scan_result_def)
    next
      case False
      have nxt: "sp_next p < sp_size p" using less.prems(1) by (simp add: static_inv_def)
      from remaining_less [OF less.prems(2) nxt False] less.hyps [of ?q "(start + 1) mod sp_size p" "Suc k"] q
      have "scan_result a ?q (static_scan env (Suc k) a ((start + 1) mod sp_size p) ?q)" by simp
      with False 2 show ?thesis by (subst static_scan.simps) simp
    qed
  next
    case 3
    then show ?thesis using q by (subst static_scan.simps) (simp add: scan_result_def)
  qed
qed

interpretation static: action_runner "static_run env" static_inv static_accepted some_died
proof
  fix p :: "'a static_pool" and a :: 'a
  assume p: "static_inv p"
  let ?q = "static_ticks (env 0) p"
  have q: "static_inv ?q" "sp_next ?q < sp_size ?q" and pos: "0 < sp_size p"
    using p static_ticks_inv [OF p, of "env 0"] by (simp_all add: static_inv_def)
  show "\<exists>r p'. static_run env a p = Some (r, p') \<and> static_inv p'
      \<and> (case r of
           Ok _ \<Rightarrow> static_accepted p' = add_mset a (static_accepted p)
         | Err b \<Rightarrow> b = a \<and> static_accepted p' = static_accepted p
         | Panic \<Rightarrow> some_died p' \<and> static_accepted p' = static_accepted p)"
  proof (cases rule: static_exec_cases [OF q, of a])
    case (1 p')
    then show ?thesis using pos by (simp add: static_run_def static_next_inv)
  next
    case 2
    have "(sp_next ?q + 1) mod sp_size ?q < sp_size ?q" using q by (simp add: static_inv_def)
    from static_scan_result [OF q(1) this, of a env 1] obtain r p' where
      s: "static_scan env 1 a ((sp_next ?q + 1) mod sp_size ?q) ?q = Some (r, p')" "static_inv p'"
        "case r of
             Ok i \<Rightarrow> i < sp_size ?q \<and> static_accepted p' = add_mset a (static_accepted ?q)
           | Err b \<Rightarrow> b = a \<and> static_accepted p' = static_accepted ?q
           | Panic \<Rightarrow> some_died p' \<and> static_accepted p' = static_accepted ?q"
      by (auto simp: scan_result_def)
    with 2 pos show ?thesis
      by (cases r) (simp_all add: static_run_def static_turn_inv)
  next
    case 3
    then show ?thesis using q(1) by (auto simp: static_run_def)
  qed
qed

section \<open>The choice of the worker\<close>

definition cyclic :: "nat \<Rightarrow> nat \<Rightarrow> nat \<Rightarrow> nat list" where
  "cyclic n start k = map (\<lambda>d. (start + d) mod n) [0..<k]"

lemma cyclic_Suc:
  assumes "start < n"
  shows "cyclic n start (Suc k) = start # cyclic n ((start + 1) mod n) k"
proof -
  have "cyclic n start (Suc k) = (start mod n) # map (\<lambda>d. (start + Suc d) mod n) [0..<k]"
    by (simp add: cyclic_def upt_conv_Cons map_Suc_upt [symmetric] del: upt_Suc)
  then show ?thesis using assms by (simp add: cyclic_def mod_simps)
qed

definition is_waiting :: "'a static_pool \<Rightarrow> nat \<Rightarrow> bool" where
  "is_waiting p i \<longleftrightarrow> (case wk_thread (sp_workers p ! i) of Waiting \<Rightarrow> True | _ \<Rightarrow> False)"

definition give :: "nat \<Rightarrow> 'a \<Rightarrow> 'a static_pool \<Rightarrow> 'a static_pool" where
  "give i a p = p\<lparr>sp_workers := (sp_workers p)[i := (sp_workers p ! i)\<lparr>wk_thread := Running a\<rparr>]\<rparr>"

lemma static_exec_alive:
  assumes "static_inv p" and "\<not> some_died p" and "i < sp_size p"
  shows "static_exec i a p = (if is_waiting p i then Some (Ok (), give i a p) else Some (Err a, p))"
proof -
  have i: "i < length (sp_workers p)" "sp_workers p ! i \<in> set (sp_workers p)"
    using assms by (auto simp: static_inv_def)
  then have "wk_thread (sp_workers p ! i) \<notin> {Stopped, Finishing, Died}"
    using assms by (auto simp: static_inv_def some_died_def)
  then show ?thesis
    using i(1)
    by (cases "wk_thread (sp_workers p ! i)")
      (auto simp: static_exec_def worker_exec_def try_send_def is_waiting_def give_def)
qed

lemma static_scan_atomic:
  assumes "static_inv p" and "\<not> some_died p" and "start < sp_size p"
  shows "static_scan (\<lambda>_. []) k a start p =
    (case find (is_waiting p) (cyclic (sp_size p) start (Suc (remaining (sp_size p) (sp_next p) start))) of
       None \<Rightarrow> Some (Err a, p) | Some i \<Rightarrow> Some (Ok i, give i a p))"
  using assms(3)
proof (induction "remaining (sp_size p) (sp_next p) start" arbitrary: start k rule: less_induct)
  case less
  have nxt: "sp_next p < sp_size p" using assms(1) by (simp add: static_inv_def)
  have ticks: "static_ticks [] p = p" by (simp add: static_ticks_def)
  note exec = static_exec_alive [OF assms(1,2) less.prems, of a]
  show ?case
  proof (cases "is_waiting p start")
    case True
    with exec show ?thesis
      by (subst static_scan.simps) (simp add: ticks cyclic_Suc [OF less.prems])
  next
    case busy: False
    show ?thesis
    proof (cases "(start + 1) mod sp_size p = sp_next p")
      case True
      with exec busy remaining_last [OF less.prems nxt True] show ?thesis
        by (subst static_scan.simps) (simp add: ticks cyclic_Suc [OF less.prems], simp add: cyclic_def)
    next
      case False
      note rem = remaining_less [OF less.prems nxt False]
      from exec busy rem less.hyps [of "(start + 1) mod sp_size p" "Suc k"] False show ?thesis
        by (subst static_scan.simps) (simp add: ticks cyclic_Suc [OF less.prems])
    qed
  qed
qed

section \<open>Dead workers\<close>

text \<open>
  A dead worker stays dead. \<open>ahead n start i\<close> is how many workers lie before the \<open>i\<close>-th,
  from the one whose turn it is; each run that is taken brings the turn nearer to a dead one.
\<close>

definition ahead :: "nat \<Rightarrow> nat \<Rightarrow> nat \<Rightarrow> nat" where
  "ahead n start i = (if start \<le> i then i - start else i + n - start)"

lemma ahead_step:
  assumes "start < n" and "i < n" and "start \<noteq> i"
  shows "ahead n start i = Suc (ahead n ((start + 1) mod n) i)"
proof (cases "start + 1 < n")
  case False
  then have "start + 1 = n" using assms(1) by simp
  then show ?thesis using assms by (auto simp: ahead_def)
qed (use assms in \<open>auto simp: ahead_def\<close>)

lemma ahead_remaining:
  assumes "start < n" and "nxt < n" and "i < n" and "i \<noteq> nxt" and "start = (nxt + 1) mod n"
  shows "ahead n start i \<le> remaining n nxt start"
proof (cases "nxt + 1 < n")
  case False
  then have "nxt + 1 = n" using assms(2) by simp
  then show ?thesis using assms by (auto simp: ahead_def remaining_def)
qed (use assms in \<open>auto simp: ahead_def remaining_def\<close>)

definition dead_worker :: "nat \<Rightarrow> 'a static_pool \<Rightarrow> bool" where
  "dead_worker i p \<longleftrightarrow> i < sp_size p \<and> wk_thread (sp_workers p ! i) = Died"

lemma tick_worker_dead:
  "i < length ws \<Longrightarrow> wk_thread (ws ! i) = Died \<Longrightarrow> wk_thread (fold (tick_worker static_tick) es ws ! i) = Died"
proof (induction es arbitrary: ws)
  case (Cons e es)
  have "wk_thread (tick_worker static_tick e ws ! i) = Died"
    using Cons.prems by (cases "snd e") (auto simp: tick_worker_def nth_list_update)
  with Cons show ?case by simp
qed simp

lemma dead_worker_ticks [simp]: "static_inv p \<Longrightarrow> dead_worker i p \<Longrightarrow> dead_worker i (static_ticks es p)"
  using tick_worker_dead [of i "sp_workers p" es] by (simp add: dead_worker_def static_ticks_def static_inv_def)

lemma dead_worker_next [simp]: "dead_worker i (p\<lparr>sp_next := n\<rparr>) = dead_worker i p"
  by (simp add: dead_worker_def)

lemma static_exec_dead:
  assumes "static_inv p" and "dead_worker i p" and "j < sp_size p"
  obtains "static_exec j a p = Some (Panic, p)"
  | p' where "static_exec j a p = Some (Ok (), p')" "j \<noteq> i" "static_inv p'" "dead_worker i p'"
      "sp_next p' = sp_next p" "sp_size p' = sp_size p"
  | "static_exec j a p = Some (Err a, p)" "j \<noteq> i"
proof (cases rule: static_exec_cases [OF assms(1,3), of a])
  case (1 p')
  then have "j \<noteq> i" using assms(2) by (auto simp: dead_worker_def)
  have "p' = p\<lparr>sp_workers := (sp_workers p)[j := (sp_workers p ! j)\<lparr>wk_thread := Running a\<rparr>]\<rparr>"
    using 1(1,6) by (auto simp: static_exec_def worker_exec_def try_send_def split: if_splits)
  then have "dead_worker i p'" using assms(2) \<open>j \<noteq> i\<close> by (simp add: dead_worker_def)
  then show thesis using 1 \<open>j \<noteq> i\<close> by (intro that(2))
qed (use assms(2) that in \<open>auto simp: dead_worker_def\<close>)

text \<open>A dead worker that lies before the end of the scan is not passed.\<close>

lemma static_scan_dead:
  assumes "static_inv p" and "dead_worker i p" and "start < sp_size p"
    and "ahead (sp_size p) start i \<le> remaining (sp_size p) (sp_next p) start"
  shows "\<exists>r p'. static_scan env k a start p = Some (r, p')
    \<and> (r = Panic \<or> (\<exists>j. r = Ok j \<and> j < sp_size p \<and> static_inv p' \<and> dead_worker i p' \<and> sp_size p' = sp_size p
         \<and> ahead (sp_size p) ((j + 1) mod sp_size p) i < ahead (sp_size p) start i))"
  using assms
proof (induction "remaining (sp_size p) (sp_next p) start" arbitrary: start p k rule: less_induct)
  case less
  let ?q = "static_ticks (env k) p"
  have q: "static_inv ?q" "dead_worker i ?q" "start < sp_size ?q" using less.prems by simp_all
  have i: "i < sp_size p" and nxt: "sp_next p < sp_size p"
    using less.prems(1,2) by (simp_all add: dead_worker_def static_inv_def)
  show ?case
  proof (cases rule: static_exec_dead [OF q, of a])
    case (2 p')
    then show ?thesis using ahead_step [OF less.prems(3) i] less.prems(3)
      by (subst static_scan.simps) simp
  next
    case 3
    note step = ahead_step [OF less.prems(3) i 3(2)]
    have ne: "(start + 1) mod sp_size p \<noteq> sp_next p"
      using remaining_last [OF less.prems(3) nxt] less.prems(4) step by auto
    note rem = remaining_less [OF less.prems(3) nxt ne]
    from less.hyps [of ?q "(start + 1) mod sp_size p" "Suc k"] rem q step less.prems(4)
    obtain r p' where "static_scan env (Suc k) a ((start + 1) mod sp_size p) ?q = Some (r, p')"
      "r = Panic \<or> (\<exists>j. r = Ok j \<and> j < sp_size p \<and> static_inv p' \<and> dead_worker i p' \<and> sp_size p' = sp_size p
         \<and> ahead (sp_size p) ((j + 1) mod sp_size p) i < ahead (sp_size p) ((start + 1) mod sp_size p) i)"
      by auto
    with 3 ne step show ?thesis by (subst static_scan.simps) auto
  qed (subst static_scan.simps, simp)+
qed

text \<open>So a run comes nearer to the dead worker, or unwinds; it is never only refused.\<close>

lemma static_run_dead:
  assumes "static_inv p" and "dead_worker i p"
  shows "\<exists>r p'. static_run env a p = Some (r, p')
    \<and> (r = Panic \<or> r = Ok () \<and> static_inv p' \<and> dead_worker i p' \<and> sp_size p' = sp_size p
         \<and> ahead (sp_size p) (sp_next p') i < ahead (sp_size p) (sp_next p) i)"
proof -
  let ?q = "static_ticks (env 0) p"
  have q: "static_inv ?q" "dead_worker i ?q" "sp_next ?q < sp_size ?q"
    using assms static_ticks_inv [OF assms(1), of "env 0"] by (simp_all add: static_inv_def)
  have i: "i < sp_size p" and nxt: "sp_next p < sp_size p"
    using assms by (simp_all add: dead_worker_def static_inv_def)
  show ?thesis
  proof (cases rule: static_exec_dead [OF q, of a])
    case (2 p')
    then show ?thesis using ahead_step [OF nxt i] nxt static_turn_inv [of p' "sp_next p + 1"]
      by (simp add: static_run_def)
  next
    case 3
    let ?f = "(sp_next p + 1) mod sp_size p"
    have f: "?f < sp_size p" using nxt by simp
    note step = ahead_step [OF nxt i] ahead_remaining [OF f nxt i _ refl]
    obtain r p' where "static_scan env 1 a ?f ?q = Some (r, p')"
      "r = Panic \<or> (\<exists>j. r = Ok j \<and> j < sp_size p \<and> static_inv p' \<and> dead_worker i p' \<and> sp_size p' = sp_size p
         \<and> ahead (sp_size p) ((j + 1) mod sp_size p) i < ahead (sp_size p) ?f i)"
      using static_scan_dead [OF q(1,2), of ?f env 1 a] f step 3(2) by auto
    with 3 step show ?thesis using static_turn_inv [of p'] by (auto simp: static_run_def)
  qed (simp_all add: static_run_def)
qed

section \<open>Properties\<close>

text \<open>
  Running an action on the static pool always returns, whatever the threads do between its
  attempts. It takes the action exactly once, or gives that same action back having taken
  nothing; it unwinds only when a thread had died of a panicking action. The pool's invariant
  is kept.
\<close>

theorem static_run_total:
  assumes "static_inv p"
  shows "\<exists>r p'. static_run env a p = Some (r, p') \<and> static_inv p'
    \<and> (r = Ok () \<and> static_accepted p' = add_mset a (static_accepted p)
       \<or> r = Err a \<and> static_accepted p' = static_accepted p
       \<or> r = Panic \<and> some_died p' \<and> static_accepted p' = static_accepted p)"
  by (rule static.run_cases [OF assms, of env a]) auto

theorem static_run_total_witness:
  "\<exists>r p'. static_run (\<lambda>k. [(0, Receive)]) (7::nat) (static_new 2) = Some (r, p') \<and> static_inv p'"
proof -
  have "static_inv (static_new 2 :: nat static_pool)"
    by (auto simp: static_inv_def static_new_def started_def)
  from static_run_total [OF this, of "\<lambda>k. [(0, Receive)]" 7] show ?thesis by blast
qed

text \<open>
  C28. With no thread dead, and between the ticks of the threads, the pool is a round robin: the
  action goes to the first waiting worker at or after the next one in cyclic order, and the
  turn passes to the worker after it; it is given back exactly when no worker is waiting.
\<close>

theorem static_run_round_robin:
  assumes "static_inv p" and "\<not> some_died p"
  shows "static_run (\<lambda>_. []) a p =
    (case find (is_waiting p) (cyclic (sp_size p) (sp_next p) (sp_size p)) of
       None \<Rightarrow> Some (Err a, p)
     | Some i \<Rightarrow> Some (Ok (), (give i a p)\<lparr>sp_next := (i + 1) mod sp_size p\<rparr>))"
proof -
  have n: "sp_next p < sp_size p" "0 < sp_size p" using assms(1) by (simp_all add: static_inv_def)
  then obtain k where k: "sp_size p = Suc k" by (cases "sp_size p") auto
  have ticks: "static_ticks [] p = p" by (simp add: static_ticks_def)
  note exec = static_exec_alive [OF assms n(1), of a]
  show ?thesis
  proof (cases "is_waiting p (sp_next p)")
    case True
    with exec show ?thesis
      by (simp add: static_run_def ticks k cyclic_Suc n(1) [unfolded k] give_def)
  next
    case False
    let ?f = "(sp_next p + 1) mod sp_size p"
    have f: "?f < sp_size p" using n(2) by simp
    have "find (is_waiting p) (cyclic (sp_size p) ?f (Suc (remaining (sp_size p) (sp_next p) ?f)))
        = find (is_waiting p) (cyclic (sp_size p) ?f k)"
    proof (cases "?f = sp_next p")
      case True
      then have "sp_size p = 1" using n by (cases "sp_next p + 1 < sp_size p") (auto simp: not_less le_Suc_eq)
      with True False k n show ?thesis by (simp add: remaining_def cyclic_def)
    next
      case ne: False
      then have "Suc (remaining (sp_size p) (sp_next p) ?f) = k"
        using remaining_less [OF n(1) n(1) ne] k by (simp add: remaining_def)
      then show ?thesis by simp
    qed
    with False exec static_scan_atomic [OF assms f, of 1 a] show ?thesis
      by (simp add: static_run_def ticks k cyclic_Suc n(1) [unfolded k] give_def split: option.splits)
  qed
qed

theorem static_run_round_robin_witness:
  "static_run (\<lambda>_. []) (7::nat) (static_new 2) = Some (Err 7, static_new 2)"
proof -
  have inv: "static_inv (static_new 2 :: nat static_pool)" "\<not> some_died (static_new 2 :: nat static_pool)"
    by (auto simp: static_inv_def some_died_def static_new_def started_def)
  have "find (is_waiting (static_new 2 :: nat static_pool)) (cyclic 2 0 2) = None"
    by code_simp
  with static_run_round_robin [OF inv, of 7] show ?thesis by (simp add: static_new_def)
qed

text \<open>
  A panic in an action kills its worker for good: the pool never replaces it, and a later
  run that reaches the dead worker unwinds the thread that called it (\<^verbatim>\<open>unreachable!()\<close>)
  and loses its action, although other workers are waiting.
\<close>

theorem static_dead_worker_panics:
  "\<exists>p1 p2. static_run (\<lambda>_. [(0, Receive), (1, Receive)]) a (static_new 2) = Some (Ok (), p1)
     \<and> static_run (\<lambda>_. []) b (static_ticks [(0, Unwind)] p1) = Some (Ok (), p2)
     \<and> (\<exists>p3. static_run (\<lambda>_. [(1, Complete), (1, Receive)]) c p2 = Some (Panic, p3)
          \<and> wk_thread (sp_workers p3 ! 1) = Waiting)"
  by (simp add: static_run_def static_exec_def worker_exec_def try_send_def static_new_def started_def
      static_ticks_def tick_worker_def upt_rec numeral_2_eq_2)

end
