(* ===== verification/Dynamic_Pool.thy ===== *)
theory Dynamic_Pool
  imports Action_Runner
begin

text \<open>
  \<^verbatim>\<open>thread_pool/dynamic_pool.rs\<close>: workers are started on demand in free cells, and a
  worker that waits too long for an action frees its cell and ends. The queue of free cells is
  shared between the pool and the \<open>finished\<close> callbacks of the threads.
\<close>

section \<open>The pool\<close>

text \<open>\<open>dp_retired\<close> is a history: the actions run by workers that have been replaced.\<close>

record 'a dynamic_pool =
  dp_workers :: "'a worker option list"
  dp_timeout :: nat
  dp_free :: "nat list"
  dp_max :: nat
  dp_retired :: "'a list"

definition dynamic_new :: "nat \<Rightarrow> nat \<Rightarrow> 'a dynamic_pool" where
  "dynamic_new mx timeout =
     \<lparr>dp_workers = replicate mx None, dp_timeout = timeout, dp_free = [0..<mx], dp_max = mx,
      dp_retired = []\<rparr>"

definition cell :: "'a dynamic_pool \<Rightarrow> nat \<Rightarrow> 'a worker option" where
  "cell p i = (if i < length (dp_workers p) then dp_workers p ! i else None)"

definition set_cell :: "nat \<Rightarrow> 'a worker \<Rightarrow> 'a dynamic_pool \<Rightarrow> 'a dynamic_pool" where
  "set_cell i w p = p\<lparr>dp_workers := (dp_workers p)[i := Some w]\<rparr>"

text \<open>The thread of a worker; the callback frees its cell at the back of the queue.\<close>

definition dynamic_tick :: "nat \<times> tick \<Rightarrow> 'a dynamic_pool \<Rightarrow> 'a dynamic_pool" where
  "dynamic_tick e p =
     (case cell p (fst e) of
        None \<Rightarrow> p
      | Some w \<Rightarrow>
          (case (snd e, wk_thread w) of
             (Receive, Looping) \<Rightarrow> set_cell (fst e) (w\<lparr>wk_thread := Waiting\<rparr>) p
           | (Complete, Running a) \<Rightarrow> set_cell (fst e) (w\<lparr>wk_thread := Looping, wk_ran := wk_ran w @ [a]\<rparr>) p
           | (Unwind, Running a) \<Rightarrow> set_cell (fst e) (w\<lparr>wk_thread := Died, wk_ran := wk_ran w @ [a]\<rparr>) p
           | (Expire, Waiting) \<Rightarrow> set_cell (fst e) (w\<lparr>wk_thread := Finishing\<rparr>) p
           | (Finish, Finishing) \<Rightarrow>
               (set_cell (fst e) (w\<lparr>wk_thread := Stopped\<rparr>) p)\<lparr>dp_free := dp_free p @ [fst e]\<rparr>
           | _ \<Rightarrow> p))"

definition dynamic_ticks :: "(nat \<times> tick) list \<Rightarrow> 'a dynamic_pool \<Rightarrow> 'a dynamic_pool" where
  "dynamic_ticks es p = fold dynamic_tick es p"

text \<open>
  \<^verbatim>\<open>try_add_worker\<close>: the worker that was in the cell is dropped, and the drop joins its
  thread while the queue is locked. A thread that has not freed its cell yet would need that
  lock, so the join would never return; joining a dead thread panics.
\<close>

definition try_add_worker :: "'a \<Rightarrow> 'a dynamic_pool \<Rightarrow> ((nat, 'a) res \<times> 'a dynamic_pool) option" where
  "try_add_worker a p =
     (case dp_free p of
        [] \<Rightarrow> Some (Err a, p)
      | i # rest \<Rightarrow>
          let p1 = p\<lparr>dp_free := rest\<rparr> in
          if length (dp_workers p) \<le> i then Some (Panic, p1)
          else (case dp_workers p ! i of
              None \<Rightarrow> Some (Ok i, set_cell i (started_with i a) p1)
            | Some w \<Rightarrow>
                (case wk_thread w of
                   Stopped \<Rightarrow> Some (Ok i,
                     (set_cell i (started_with i a) p1)\<lparr>dp_retired := dp_retired p @ wk_ran w\<rparr>)
                 | Died \<Rightarrow> Some (Panic, p1)
                 | _ \<Rightarrow> None)))"

text \<open>A disconnected worker gives the action back here.\<close>

definition dynamic_exec :: "nat \<Rightarrow> 'a \<Rightarrow> 'a dynamic_pool \<Rightarrow> (unit, 'a) res \<times> 'a dynamic_pool" where
  "dynamic_exec i a p =
     (case cell p i of
        None \<Rightarrow> (Err a, p)
      | Some w \<Rightarrow>
          (case try_send a w of
             (Sent, w') \<Rightarrow> (Ok (), set_cell i w' p)
           | (Full b, _) \<Rightarrow> (Err b, p)
           | (Disconnected b, _) \<Rightarrow> (Err b, p)))"

fun dynamic_scan :: "env \<Rightarrow> nat \<Rightarrow> 'a \<Rightarrow> nat list \<Rightarrow> 'a dynamic_pool \<Rightarrow> (unit, 'a) res \<times> 'a dynamic_pool" where
  "dynamic_scan env k a [] p = (Err a, p)"
| "dynamic_scan env k a (i # is) p =
     (case dynamic_exec i a (dynamic_ticks (env k) p) of
        (Ok u, p') \<Rightarrow> (Ok u, p')
      | (Err b, p') \<Rightarrow> dynamic_scan env (Suc k) b is p'
      | (Panic, p') \<Rightarrow> (Panic, p'))"

definition dynamic_run :: "env \<Rightarrow> 'a \<Rightarrow> ('a dynamic_pool, unit, 'a) prog" where
  "dynamic_run env a p =
     (case try_add_worker a (dynamic_ticks (env 0) p) of
        None \<Rightarrow> None
      | Some (r, p1) \<Rightarrow>
          (case r of
             Ok _ \<Rightarrow> Some (Ok (), p1)
           | Err b \<Rightarrow> Some (dynamic_scan env 1 b [0..<dp_max p1] p1)
           | Panic \<Rightarrow> Some (Panic, p1)))"

definition number_of_workers :: "'a dynamic_pool \<Rightarrow> nat" where
  "number_of_workers p = dp_max p - length (dp_free p)"

text \<open>Dropping the pool drops the workers that are in its cells.\<close>

definition dynamic_workers :: "'a dynamic_pool \<Rightarrow> 'a worker list" where
  "dynamic_workers p = List.map_filter (\<lambda>c. c) (dp_workers p)"

definition dynamic_drop :: "('a \<Rightarrow> bool) \<Rightarrow> 'a dynamic_pool \<Rightarrow> (unit, unit) res \<times> 'a worker list" where
  "dynamic_drop panics p = drop_workers panics (dynamic_workers p)"

section \<open>Invariant\<close>

definition cell_free :: "'a worker option \<Rightarrow> bool" where
  "cell_free c \<longleftrightarrow> (case c of None \<Rightarrow> True | Some w \<Rightarrow> wk_thread w = Stopped)"

definition dynamic_inv :: "'a dynamic_pool \<Rightarrow> bool" where
  "dynamic_inv p \<longleftrightarrow> length (dp_workers p) = dp_max p \<and> distinct (dp_free p)
     \<and> (\<forall>i. i \<in> set (dp_free p) \<longleftrightarrow> i < dp_max p \<and> cell_free (dp_workers p ! i))"

definition dynamic_accepted :: "'a dynamic_pool \<Rightarrow> 'a multiset" where
  "dynamic_accepted p = mset (dp_retired p)
     + sum_list (map (\<lambda>c. case c of None \<Rightarrow> {#} | Some w \<Rightarrow> held w) (dp_workers p))"

lemma accepted_workers: "dynamic_accepted p = mset (dp_retired p) + total (dynamic_workers p)"
proof -
  have "sum_list (map (\<lambda>c. case c of None \<Rightarrow> {#} | Some w \<Rightarrow> held w) cs) = total (List.map_filter (\<lambda>c. c) cs)" for cs
    by (induction cs) (auto simp: total_def map_filter_simps split: option.splits)
  then show ?thesis by (simp add: dynamic_accepted_def dynamic_workers_def)
qed

lemma dynamic_new_inv [simp]: "dynamic_inv (dynamic_new mx t)"
  by (auto simp: dynamic_inv_def dynamic_new_def cell_free_def)

lemma dynamic_new_accepted [simp]: "dynamic_accepted (dynamic_new mx t) = {#}"
proof -
  have "sum_list (replicate mx ({#} :: 'a multiset)) = {#}" by (induction mx) simp_all
  then show ?thesis by (simp add: dynamic_accepted_def dynamic_new_def)
qed

lemma cells_update:
  "i < length cs \<Longrightarrow> f (Some w) + x = f (cs ! i) + y \<Longrightarrow>
     sum_list (map f (cs[i := Some w])) + x = sum_list (map f cs) + (y :: 'a multiset)"
proof (induction cs arbitrary: i)
  case (Cons c cs)
  show ?case
  proof (cases i)
    case 0
    then show ?thesis using Cons.prems by (simp add: ac_simps)
  next
    case (Suc j)
    then have "sum_list (map f (cs[j := Some w])) + x = sum_list (map f cs) + y"
      using Cons.prems by (intro Cons.IH) simp_all
    with Suc show ?thesis by (simp add: add.assoc)
  qed
qed simp

lemma accepted_set_cell:
  assumes "cell p i = Some w" and "held w' = held w + m"
  shows "dynamic_accepted (set_cell i w' p) = dynamic_accepted p + m"
  using assms cells_update [of i "dp_workers p" "\<lambda>c. case c of None \<Rightarrow> {#} | Some w \<Rightarrow> held w" w' "{#}" m]
  by (auto simp: cell_def dynamic_accepted_def set_cell_def split: if_splits)

lemma accepted_set_cell_same:
  "cell p i = Some w \<Longrightarrow> held w' = held w \<Longrightarrow> dynamic_accepted (set_cell i w' p) = dynamic_accepted p"
  using accepted_set_cell [of p i w w' "{#}"] by simp

lemma accepted_free [simp]: "dynamic_accepted (p\<lparr>dp_free := fs\<rparr>) = dynamic_accepted p"
  by (simp add: dynamic_accepted_def)

lemma set_cell_inv:
  assumes "dynamic_inv p" and "cell p i = Some w" and "wk_thread w' = Stopped \<longleftrightarrow> wk_thread w = Stopped"
  shows "dynamic_inv (set_cell i w' p)"
  using assms by (auto simp: dynamic_inv_def set_cell_def cell_def cell_free_def nth_list_update split: if_splits)

lemma dynamic_tick_inv:
  assumes "dynamic_inv p"
  shows "dynamic_inv (dynamic_tick e p) \<and> dynamic_accepted (dynamic_tick e p) = dynamic_accepted p
    \<and> dp_max (dynamic_tick e p) = dp_max p"
proof (cases "cell p (fst e)")
  case (Some w)
  let ?i = "fst e"
  consider (skip) "dynamic_tick e p = p"
    | (move) w' where "dynamic_tick e p = set_cell ?i w' p" "held w' = held w"
        "wk_thread w' \<noteq> Stopped" "wk_thread w \<noteq> Stopped"
    | (fin) "dynamic_tick e p = (set_cell ?i (w\<lparr>wk_thread := Stopped\<rparr>) p)\<lparr>dp_free := dp_free p @ [?i]\<rparr>"
        "wk_thread w = Finishing"
    using Some by (cases "snd e"; cases "wk_thread w")
      (auto simp: dynamic_tick_def held_def intro: that)
  then show ?thesis
  proof cases
    case move
    then show ?thesis
      using set_cell_inv [OF assms Some] accepted_set_cell_same [OF Some]
      by (auto simp: set_cell_def)
  next
    case fin
    have i: "?i < dp_max p" "dp_workers p ! ?i = Some w" "length (dp_workers p) = dp_max p"
      using Some assms by (auto simp: cell_def dynamic_inv_def split: if_splits)
    then have "?i \<notin> set (dp_free p)" using assms fin(2) by (auto simp: dynamic_inv_def cell_free_def)
    then have "dynamic_inv (dynamic_tick e p)"
      using fin i assms
      by (auto simp: dynamic_inv_def set_cell_def cell_free_def nth_list_update)
    moreover have "dynamic_accepted (dynamic_tick e p) = dynamic_accepted p"
      using fin accepted_set_cell_same [OF Some, of "w\<lparr>wk_thread := Stopped\<rparr>"] by (simp add: held_def)
    ultimately show ?thesis using fin by (simp add: set_cell_def)
  qed (use assms in simp)
qed (use assms in \<open>simp add: dynamic_tick_def\<close>)

lemma dynamic_ticks_inv:
  "dynamic_inv p \<Longrightarrow> dynamic_inv (dynamic_ticks es p)
     \<and> dynamic_accepted (dynamic_ticks es p) = dynamic_accepted p \<and> dp_max (dynamic_ticks es p) = dp_max p"
  unfolding dynamic_ticks_def
  by (induction es arbitrary: p) (simp_all add: dynamic_tick_inv)

section \<open>One attempt, and the scan\<close>

lemma dynamic_exec_cases:
  assumes "dynamic_inv p"
  obtains p' where "dynamic_exec i a p = (Ok (), p')" "dynamic_inv p'" "dp_max p' = dp_max p"
      "dynamic_accepted p' = add_mset a (dynamic_accepted p)"
      "\<exists>w. cell p i = Some w \<and> wk_thread w = Waiting"
    | "dynamic_exec i a p = (Err a, p)" "\<nexists>w. cell p i = Some w \<and> wk_thread w = Waiting"
proof (cases "cell p i")
  case None
  then show thesis by (intro that(2)) (auto simp: dynamic_exec_def)
next
  case (Some w)
  consider "wk_thread w = Waiting" "try_send a w = (Sent, w\<lparr>wk_thread := Running a\<rparr>)"
      "held (w\<lparr>wk_thread := Running a\<rparr>) = add_mset a (held w)"
    | "wk_thread w \<noteq> Waiting" "try_send a w = (Disconnected a, w) \<or> try_send a w = (Full a, w)"
    by (rule try_send_cases [of w a]) auto
  then show thesis
  proof cases
    case 1
    let ?p' = "set_cell i (w\<lparr>wk_thread := Running a\<rparr>) p"
    have "dynamic_inv ?p'" using set_cell_inv [OF assms Some] 1(1) by simp
    moreover have "dynamic_accepted ?p' = add_mset a (dynamic_accepted p)"
      using accepted_set_cell [OF Some, of "w\<lparr>wk_thread := Running a\<rparr>" "{#a#}"] 1(3) by simp
    ultimately show thesis
      using 1 Some by (intro that(1) [of ?p']) (simp_all add: dynamic_exec_def set_cell_def)
  next
    case 2
    then show thesis using Some by (intro that(2)) (auto simp: dynamic_exec_def)
  qed
qed

lemma dynamic_scan_result:
  assumes "dynamic_inv p"
  shows "\<exists>r p'. dynamic_scan env k a is p = (r, p') \<and> dynamic_inv p' \<and> dp_max p' = dp_max p
    \<and> (r = Ok () \<and> dynamic_accepted p' = add_mset a (dynamic_accepted p)
       \<or> r = Err a \<and> dynamic_accepted p' = dynamic_accepted p)"
  using assms
proof (induction "is" arbitrary: p k)
  case (Cons i "is")
  let ?q = "dynamic_ticks (env k) p"
  have q: "dynamic_inv ?q" "dynamic_accepted ?q = dynamic_accepted p" "dp_max ?q = dp_max p"
    using dynamic_ticks_inv [OF Cons.prems, of "env k"] by auto
  show ?case
  proof (cases rule: dynamic_exec_cases [OF q(1), of i a])
    case (1 p')
    then show ?thesis using q by simp
  next
    case 2
    then show ?thesis using Cons.IH [OF q(1), of "Suc k"] q by simp
  qed
qed simp

lemma try_add_worker_cases:
  assumes "dynamic_inv p"
  obtains i p' where "try_add_worker a p = Some (Ok i, p')" "dynamic_inv p'" "dp_max p' = dp_max p"
      "dynamic_accepted p' = add_mset a (dynamic_accepted p)" "i < dp_max p" "dp_free p = i # dp_free p'"
      "cell p' i = Some (started_with i a)" "\<And>j. j \<noteq> i \<Longrightarrow> cell p' j = cell p j"
    | "try_add_worker a p = Some (Err a, p)" "dp_free p = []"
proof (cases "dp_free p")
  case Nil
  then show thesis by (intro that(2)) (simp_all add: try_add_worker_def)
next
  case (Cons i rest)
  let ?p1 = "p\<lparr>dp_free := rest\<rparr>" and ?w = "started_with i a"
  let ?f = "\<lambda>c. case c of None \<Rightarrow> {#} | Some w \<Rightarrow> held w"
  have i: "i < dp_max p" "i < length (dp_workers p)" "cell_free (dp_workers p ! i)" "i \<notin> set rest"
    using assms Cons by (auto simp: dynamic_inv_def)
  define old where "old = (case dp_workers p ! i of None \<Rightarrow> [] | Some w \<Rightarrow> wk_ran w)"
  let ?p' = "(set_cell i ?w ?p1)\<lparr>dp_retired := dp_retired p @ old\<rparr>"
  have old: "?f (dp_workers p ! i) = mset old"
    using i(3) by (auto simp: old_def cell_free_def held_def split: option.splits)
  have add: "try_add_worker a p = Some (Ok i, ?p')"
    using Cons i by (auto simp: try_add_worker_def Let_def old_def cell_free_def set_cell_def split: option.splits)
  have "dynamic_accepted ?p' = mset (dp_retired p)
      + (sum_list (map ?f ((dp_workers p)[i := Some ?w])) + mset old)"
    by (simp add: dynamic_accepted_def set_cell_def)
  also have "\<dots> = mset (dp_retired p) + (sum_list (map ?f (dp_workers p)) + {#a#})"
    using cells_update [OF i(2), of ?f ?w "mset old" "{#a#}"] old by simp
  finally have "dynamic_accepted ?p' = add_mset a (dynamic_accepted p)"
    by (simp add: dynamic_accepted_def)
  moreover have "dynamic_inv ?p'"
  proof -
    have inv: "j \<in> set (i # rest) \<longleftrightarrow> j < dp_max p \<and> cell_free (dp_workers p ! j)" for j
      using assms Cons by (simp add: dynamic_inv_def)
    have "j \<in> set rest \<longleftrightarrow> j < dp_max p \<and> cell_free ((dp_workers p)[i := Some ?w] ! j)" for j
      using inv [of j] i(2,4) by (cases "j = i") (simp_all add: cell_free_def started_with_def)
    moreover have "length (dp_workers p) = dp_max p" "distinct rest"
      using assms Cons by (simp_all add: dynamic_inv_def)
    ultimately show ?thesis by (simp add: dynamic_inv_def set_cell_def)
  qed
  ultimately show thesis
    using i(1,2) Cons by (intro that(1) [OF add]) (simp_all add: set_cell_def cell_def)
qed

interpretation dynamic: action_runner "dynamic_run env" dynamic_inv dynamic_accepted "\<lambda>_. False"
proof
  fix p :: "'a dynamic_pool" and a :: 'a
  assume p: "dynamic_inv p"
  let ?q = "dynamic_ticks (env 0) p"
  have q: "dynamic_inv ?q" "dynamic_accepted ?q = dynamic_accepted p"
    using dynamic_ticks_inv [OF p, of "env 0"] by auto
  show "\<exists>r p'. dynamic_run env a p = Some (r, p') \<and> dynamic_inv p'
      \<and> (case r of
           Ok _ \<Rightarrow> dynamic_accepted p' = add_mset a (dynamic_accepted p)
         | Err b \<Rightarrow> b = a \<and> dynamic_accepted p' = dynamic_accepted p
         | Panic \<Rightarrow> False \<and> dynamic_accepted p' = dynamic_accepted p)"
  proof (cases rule: try_add_worker_cases [OF q(1), of a])
    case (1 i p')
    then show ?thesis using q by (auto simp: dynamic_run_def)
  next
    case 2
    then show ?thesis
      using dynamic_scan_result [OF q(1), of env 1 a "[0..<dp_max ?q]"] q by (auto simp: dynamic_run_def)
  qed
qed

section \<open>Dead workers stay\<close>

definition dead_at :: "'a dynamic_pool \<Rightarrow> nat \<Rightarrow> 'a worker \<Rightarrow> bool" where
  "dead_at p i w \<longleftrightarrow> cell p i = Some w \<and> wk_thread w = Died"

lemma cell_set_cell: "cell p j = Some v \<Longrightarrow> cell (set_cell j w p) i = (if i = j then Some w else cell p i)"
  by (auto simp: cell_def set_cell_def split: if_splits)

lemma cell_free_queue [simp]: "cell (p\<lparr>dp_free := fs\<rparr>) i = cell p i"
  by (simp add: cell_def)

lemma dead_set_cell: "dead_at p i w \<Longrightarrow> cell p j = Some v \<Longrightarrow> wk_thread v \<noteq> Died \<Longrightarrow> dead_at (set_cell j v' p) i w"
  by (auto simp: dead_at_def cell_set_cell)

lemma dead_tick: "dead_at p i w \<Longrightarrow> dead_at (dynamic_tick e p) i w"
  by (cases "cell p (fst e)"; cases "snd e"; cases "wk_thread (the (cell p (fst e)))")
    (auto simp: dynamic_tick_def intro: dead_set_cell, auto simp: dead_at_def cell_set_cell)

lemma dead_ticks: "dead_at p i w \<Longrightarrow> dead_at (dynamic_ticks es p) i w"
  unfolding dynamic_ticks_def by (induction es arbitrary: p) (simp_all add: dead_tick)

lemma dead_exec: "dead_at p i w \<Longrightarrow> dead_at (snd (dynamic_exec j a p)) i w"
  by (auto simp: dynamic_exec_def try_send_def split: option.splits thread.splits intro: dead_set_cell)

lemma dead_scan: "dead_at p i w \<Longrightarrow> dead_at (snd (dynamic_scan env k a is p)) i w"
proof (induction "is" arbitrary: k p a)
  case (Cons j "is")
  have d: "dead_at (snd (dynamic_exec j a (dynamic_ticks (env k) p))) i w"
    using Cons.prems by (simp add: dead_exec dead_ticks)
  obtain r p' where e: "dynamic_exec j a (dynamic_ticks (env k) p) = (r, p')" by fastforce
  with d have d': "dead_at p' i w" by simp
  show ?case using e d' Cons.IH [OF d'] by (cases r) simp_all
qed simp

section \<open>Properties\<close>

text \<open>
  Running an action on the dynamic pool always returns, whatever the threads do between its
  attempts: it never blocks on joining a replaced thread, never unwinds, and either takes the
  action exactly once or gives that same action back having taken nothing.
\<close>

theorem dynamic_run_total:
  assumes "dynamic_inv p"
  shows "\<exists>r p'. dynamic_run env a p = Some (r, p') \<and> dynamic_inv p'
    \<and> (r = Ok () \<and> dynamic_accepted p' = add_mset a (dynamic_accepted p)
       \<or> r = Err a \<and> dynamic_accepted p' = dynamic_accepted p)"
  by (rule dynamic.run_cases [OF assms, of env a]) auto

theorem dynamic_run_total_witness:
  "\<exists>r p'. dynamic_run (\<lambda>_. [(0, Complete)]) (7::nat) (dynamic_new 2 10) = Some (r, p') \<and> dynamic_inv p'"
  using dynamic_run_total [OF dynamic_new_inv, of "\<lambda>_. [(0, Complete)]" 7 2 10] by blast

text \<open>
  Between the ticks of the threads, a free cell gets a new worker that runs the action; with
  none free, the action is given back exactly when no worker is waiting.
\<close>

theorem dynamic_run_atomic:
  assumes "dynamic_inv p"
  shows "(\<forall>i rest. dp_free p = i # rest \<longrightarrow>
            (\<exists>p'. dynamic_run (\<lambda>_. []) a p = Some (Ok (), p') \<and> cell p' i = Some (started_with i a)
                \<and> dp_free p' = rest))
    \<and> (dynamic_run (\<lambda>_. []) a p = Some (Err a, p) \<longleftrightarrow>
         dp_free p = [] \<and> (\<forall>i < dp_max p. \<nexists>w. cell p i = Some w \<and> wk_thread w = Waiting))"
proof -
  have ticks: "dynamic_ticks [] p = p" by (simp add: dynamic_ticks_def)
  have scan: "dynamic_scan (\<lambda>_. []) k a is p = (Err a, p)
      \<longleftrightarrow> (\<forall>i \<in> set is. \<nexists>w. cell p i = Some w \<and> wk_thread w = Waiting)" for k "is"
  proof (induction "is" arbitrary: k)
    case (Cons i "is")
    show ?case
      by (cases rule: dynamic_exec_cases [OF assms, of i a]) (use Cons.IH [of "Suc k"] ticks in auto)
  qed simp
  show ?thesis
    by (cases rule: try_add_worker_cases [OF assms, of a])
      (auto simp: dynamic_run_def ticks scan)
qed

theorem dynamic_run_atomic_witness:
  "dynamic_run (\<lambda>_. []) (7::nat) (dynamic_new 0 10) = Some (Err 7, dynamic_new 0 10)"
proof -
  have "dynamic_inv (dynamic_new 0 10 :: nat dynamic_pool)" by simp
  from dynamic_run_atomic [OF this, of 7] show ?thesis by (simp add: dynamic_new_def)
qed

text \<open>
  C29. The number of workers is the number of cells with a live thread, and never more than the
  maximum; but a thread that died of a panicking action keeps its cell through every later run
  and tick, so the pool loses that worker for good.
\<close>

theorem dynamic_workers_bounded:
  assumes "dynamic_inv p"
  shows "number_of_workers p = card {i. i < dp_max p \<and> \<not> cell_free (cell p i)}
    \<and> number_of_workers p \<le> dp_max p
    \<and> (dead_at p i w \<and> dynamic_run env a p = Some (r, p') \<longrightarrow> dead_at (dynamic_ticks es p') i w)"
proof (intro conjI impI)
  have "length (dp_workers p) = dp_max p" using assms by (simp add: dynamic_inv_def)
  then have eq: "set (dp_free p) = {i. i < dp_max p \<and> cell_free (cell p i)}"
    using assms by (auto simp: dynamic_inv_def cell_def)
  have "{i. i < dp_max p \<and> \<not> cell_free (cell p i)} = {..<dp_max p} - set (dp_free p)"
    unfolding eq by auto
  moreover have "set (dp_free p) \<subseteq> {..<dp_max p}" unfolding eq by auto
  moreover have "length (dp_free p) = card (set (dp_free p))"
    using assms by (simp add: dynamic_inv_def distinct_card)
  ultimately show "number_of_workers p = card {i. i < dp_max p \<and> \<not> cell_free (cell p i)}"
    by (simp add: number_of_workers_def card_Diff_subset)
  show "number_of_workers p \<le> dp_max p" by (simp add: number_of_workers_def)
next
  assume h: "dead_at p i w \<and> dynamic_run env a p = Some (r, p')"
  let ?q = "dynamic_ticks (env 0) p"
  have d: "dead_at ?q i w" using h by (simp add: dead_ticks)
  have q: "dynamic_inv ?q" using dynamic_ticks_inv [OF assms] by blast
  have "dead_at p' i w"
  proof (cases rule: try_add_worker_cases [OF q, of a])
    case (1 j p1)
    then have "cell_free (cell ?q j)" using q by (auto simp: dynamic_inv_def cell_def)
    then have "i \<noteq> j" using d by (auto simp: dead_at_def cell_free_def)
    then have "cell p1 i = cell ?q i" by (rule 1(8))
    then show ?thesis using 1 h d by (auto simp: dynamic_run_def dead_at_def)
  next
    case 2
    then show ?thesis using h dead_scan [OF d, of env 1 a "[0..<dp_max ?q]"] by (simp add: dynamic_run_def)
  qed
  then show "dead_at (dynamic_ticks es p') i w" by (rule dead_ticks)
qed

theorem dynamic_workers_bounded_witness:
  "\<exists>p p' w. dead_at p 0 w \<and> number_of_workers p = (1::nat)
     \<and> dynamic_run (\<lambda>_. []) (8::nat) p = Some (Ok (), p') \<and> dead_at p' 0 w"
proof -
  let ?w = "\<lparr>wk_id = 0, wk_thread = Died, wk_ran = [7::nat]\<rparr>"
  let ?p = "\<lparr>dp_workers = [Some ?w, None], dp_timeout = 10, dp_free = [1], dp_max = 2, dp_retired = []\<rparr>"
  have inv: "dynamic_inv ?p"
    by (auto simp: dynamic_inv_def cell_free_def nth_Cons less_2_cases_iff split: nat.splits)
  have dead: "dead_at ?p 0 ?w" by (simp add: dead_at_def cell_def)
  obtain p' where run: "dynamic_run (\<lambda>_. []) 8 ?p = Some (Ok (), p')"
    by (simp add: dynamic_run_def try_add_worker_def dynamic_ticks_def)
  have "number_of_workers ?p = 1" by (simp add: number_of_workers_def)
  then show ?thesis
    using dynamic_workers_bounded [OF inv, of 0 ?w "\<lambda>_. []" 8 "Ok ()" p' "[]"] dead run
    by (auto simp: dynamic_ticks_def)
qed

end
