(* ===== verification/Thread_Pool.thy ===== *)
theory Thread_Pool
  imports Static_Pool Dynamic_Pool
begin

text \<open>
  \<^verbatim>\<open>thread_pool/mod.rs\<close>: the pool of the server, a static pool that is tried first and a
  dynamic pool behind it. What it does follows from the contract of its two parts alone.
\<close>

section \<open>The pool over two runners\<close>

record ('d, 's) pool =
  dynamic_part :: "'d option"
  static_part :: "'s option"

definition pool_run_with ::
  "('a \<Rightarrow> ('d, unit, 'a) prog) \<Rightarrow> ('a \<Rightarrow> ('s, unit, 'a) prog) \<Rightarrow> 'a \<Rightarrow> (('d, 's) pool, unit, 'a) prog" where
  "pool_run_with drun srun action p =
     (let dyn = (\<lambda>a p1. case dynamic_part p1 of
            None \<Rightarrow> Some (Err a, p1)
          | Some d \<Rightarrow> (case drun a d of
                None \<Rightarrow> None
              | Some (r, d') \<Rightarrow> Some (r, p1\<lparr>dynamic_part := Some d'\<rparr>)))
      in case static_part p of
           None \<Rightarrow> dyn action p
         | Some s \<Rightarrow> (case srun action s of
               None \<Rightarrow> None
             | Some (r, s') \<Rightarrow>
                 (let p1 = p\<lparr>static_part := Some s'\<rparr> in
                  case r of Ok _ \<Rightarrow> Some (Ok (), p1) | Err a \<Rightarrow> dyn a p1 | Panic \<Rightarrow> Some (Panic, p1))))"

definition both :: "('d \<Rightarrow> bool) \<Rightarrow> ('s \<Rightarrow> bool) \<Rightarrow> ('d, 's) pool \<Rightarrow> bool" where
  "both dinv sinv p \<longleftrightarrow> pred_option dinv (dynamic_part p) \<and> pred_option sinv (static_part p)"

definition either :: "('d \<Rightarrow> bool) \<Rightarrow> ('s \<Rightarrow> bool) \<Rightarrow> ('d, 's) pool \<Rightarrow> bool" where
  "either dbroken sbroken p \<longleftrightarrow>
     (\<exists>d. dynamic_part p = Some d \<and> dbroken d) \<or> (\<exists>s. static_part p = Some s \<and> sbroken s)"

definition all_accepted :: "('d \<Rightarrow> 'a multiset) \<Rightarrow> ('s \<Rightarrow> 'a multiset) \<Rightarrow> ('d, 's) pool \<Rightarrow> 'a multiset" where
  "all_accepted dacc sacc p =
     (case dynamic_part p of None \<Rightarrow> {#} | Some d \<Rightarrow> dacc d) + (case static_part p of None \<Rightarrow> {#} | Some s \<Rightarrow> sacc s)"

locale two_runners =
    dyn: action_runner drun dinv dacc dbroken + stat: action_runner srun sinv sacc sbroken
  for drun :: "'a \<Rightarrow> ('d, unit, 'a) prog" and dinv dacc dbroken
    and srun :: "'a \<Rightarrow> ('s, unit, 'a) prog" and sinv sacc sbroken
begin

lemma dynamic_step:
  assumes "both dinv sinv p"
  shows "\<exists>r p'. (case dynamic_part p of
            None \<Rightarrow> Some (Err a, p)
          | Some d \<Rightarrow> (case drun a d of
                None \<Rightarrow> None
              | Some (r, d') \<Rightarrow> Some (r, p\<lparr>dynamic_part := Some d'\<rparr>))) = Some (r, p')
     \<and> both dinv sinv p'
     \<and> (case r of
           Ok _ \<Rightarrow> all_accepted dacc sacc p' = add_mset a (all_accepted dacc sacc p)
         | Err b \<Rightarrow> b = a \<and> all_accepted dacc sacc p' = all_accepted dacc sacc p
         | Panic \<Rightarrow> either dbroken sbroken p' \<and> all_accepted dacc sacc p' = all_accepted dacc sacc p)"
proof (cases "dynamic_part p")
  case (Some d)
  then have "dinv d" using assms by (simp add: both_def)
  then show ?thesis
    by (rule dyn.run_cases [of d a]) (use Some assms in \<open>auto simp: both_def either_def all_accepted_def\<close>)
qed (use assms in simp)

text \<open>The pool of two runners is a runner.\<close>

lemma pool_runner:
  "action_runner (pool_run_with drun srun) (both dinv sinv) (all_accepted dacc sacc) (either dbroken sbroken)"
proof
  fix p :: "('d, 's) pool" and a :: 'a
  assume p: "both dinv sinv p"
  show "\<exists>r p'. pool_run_with drun srun a p = Some (r, p') \<and> both dinv sinv p'
     \<and> (case r of
           Ok _ \<Rightarrow> all_accepted dacc sacc p' = add_mset a (all_accepted dacc sacc p)
         | Err b \<Rightarrow> b = a \<and> all_accepted dacc sacc p' = all_accepted dacc sacc p
         | Panic \<Rightarrow> either dbroken sbroken p' \<and> all_accepted dacc sacc p' = all_accepted dacc sacc p)"
  proof (cases "static_part p")
    case None
    then show ?thesis using dynamic_step [OF p, of a] by (simp add: pool_run_with_def)
  next
    case (Some s)
    then have s: "sinv s" using p by (simp add: both_def)
    show ?thesis
    proof (rule stat.run_cases [OF s, of a])
      fix s' assume h: "srun a s = Some (Err a, s')" "sinv s'" "sacc s' = sacc s"
      let ?p1 = "p\<lparr>static_part := Some s'\<rparr>"
      have "both dinv sinv ?p1" "all_accepted dacc sacc ?p1 = all_accepted dacc sacc p"
        using p Some h by (simp_all add: both_def all_accepted_def)
      with dynamic_step [of ?p1 a] Some h show ?thesis
        by (simp add: pool_run_with_def Let_def cong: res.case_cong)
    qed (use Some p in \<open>auto simp: pool_run_with_def Let_def both_def either_def all_accepted_def\<close>)
  qed
qed

end

section \<open>The code's pool\<close>

type_synonym 'a thread_pool = "('a dynamic_pool, 'a static_pool) pool"

definition default_timeout :: nat where
  "default_timeout = 10"

text \<open>\<open>None\<close> is the panic of \<^verbatim>\<open>assert!(min > 0 || max > 0)\<close>.\<close>

definition pool_new :: "nat \<Rightarrow> nat \<Rightarrow> 'a thread_pool option" where
  "pool_new mn mx =
     (if \<not> (mn > 0 \<or> mx > 0) then None
      else Some \<lparr>dynamic_part = (if mn < mx then Some (dynamic_new (mx - mn) default_timeout) else None),
                 static_part = (if mn > 0 then Some (static_new mn) else None)\<rparr>)"

definition pool_run :: "env \<Rightarrow> env \<Rightarrow> 'a \<Rightarrow> ('a thread_pool, unit, 'a) prog" where
  "pool_run denv senv = pool_run_with (dynamic_run denv) (static_run senv)"

text \<open>The fields are dropped in the order of their declaration.\<close>

definition pool_drop :: "('a \<Rightarrow> bool) \<Rightarrow> 'a thread_pool \<Rightarrow> (unit, unit) res \<times> 'a worker list" where
  "pool_drop panics p =
     (let (r, ds) = (case dynamic_part p of None \<Rightarrow> (Ok (), []) | Some d \<Rightarrow> dynamic_drop panics d);
          (q, ss) = (case static_part p of None \<Rightarrow> (Ok (), []) | Some s \<Rightarrow> drop_workers panics (sp_workers s))
      in (if r = Ok () then q else r, ds @ ss))"

definition pool_workers :: "'a thread_pool \<Rightarrow> 'a worker list" where
  "pool_workers p = (case dynamic_part p of None \<Rightarrow> [] | Some d \<Rightarrow> dynamic_workers d)
     @ (case static_part p of None \<Rightarrow> [] | Some s \<Rightarrow> sp_workers s)"

definition pool_retired :: "'a thread_pool \<Rightarrow> 'a list" where
  "pool_retired p = (case dynamic_part p of None \<Rightarrow> [] | Some d \<Rightarrow> dp_retired d)"

lemma pool_drop_workers: "pool_drop panics p = drop_workers panics (pool_workers p)"
  by (auto simp: pool_drop_def pool_workers_def dynamic_drop_def drop_workers_append Let_def
      split: option.splits prod.splits)

definition pool_inv :: "'a thread_pool \<Rightarrow> bool" where
  "pool_inv = both dynamic_inv static_inv"

definition pool_accepted :: "'a thread_pool \<Rightarrow> 'a multiset" where
  "pool_accepted = all_accepted dynamic_accepted static_accepted"

definition pool_broken :: "'a thread_pool \<Rightarrow> bool" where
  "pool_broken = either (\<lambda>_. False) some_died"

lemma pool_accepted_workers: "pool_accepted p = mset (pool_retired p) + total (pool_workers p)"
  by (simp add: pool_accepted_def all_accepted_def pool_retired_def pool_workers_def accepted_workers
      static_accepted_def total_def split: option.split)

interpretation pool_parts: two_runners "dynamic_run denv" dynamic_inv dynamic_accepted "\<lambda>_. False"
  "static_run senv" static_inv static_accepted some_died
  by unfold_locales

interpretation thread_pool: action_runner "pool_run denv senv" pool_inv pool_accepted pool_broken
  unfolding pool_run_def pool_inv_def pool_accepted_def pool_broken_def
  by (rule pool_parts.pool_runner)

section \<open>What the threads and the pool do over time\<close>

definition pool_ticks :: "(nat \<times> tick) list \<Rightarrow> (nat \<times> tick) list \<Rightarrow> 'a thread_pool \<Rightarrow> 'a thread_pool" where
  "pool_ticks ds ss p =
     p\<lparr>dynamic_part := map_option (dynamic_ticks ds) (dynamic_part p),
       static_part := map_option (static_ticks ss) (static_part p)\<rparr>"

text \<open>
  The histories of a pool: the actions it was given are in \<open>taken\<close> or \<open>refused\<close>. A run
  that unwinds ends the history, as it ends the thread that called it.
\<close>

inductive pool_history :: "nat \<Rightarrow> nat \<Rightarrow> 'a multiset \<Rightarrow> 'a multiset \<Rightarrow> 'a thread_pool \<Rightarrow> bool"
  for mn mx where
  new: "pool_new mn mx = Some p \<Longrightarrow> pool_history mn mx {#} {#} p"
| threads: "pool_history mn mx taken refused p \<Longrightarrow> pool_history mn mx taken refused (pool_ticks ds ss p)"
| accept: "pool_history mn mx taken refused p \<Longrightarrow> pool_run denv senv a p = Some (Ok (), p')
    \<Longrightarrow> pool_history mn mx (add_mset a taken) refused p'"
| refuse: "pool_history mn mx taken refused p \<Longrightarrow> pool_run denv senv a p = Some (Err b, p')
    \<Longrightarrow> pool_history mn mx taken (add_mset b refused) p'"

lemma pool_new_inv:
  assumes "pool_new mn mx = Some p"
  shows "pool_inv p \<and> pool_accepted p = {#}"
proof -
  have "static_inv (static_new mn :: 'a static_pool)" if "0 < mn"
    using that by (auto simp: static_inv_def static_new_def started_def)
  moreover have "static_accepted (static_new mn :: 'a static_pool) = {#}"
    by (simp add: static_accepted_def static_new_def total_def sum_list_0 o_def)
  ultimately show ?thesis
    using assms by (auto simp: pool_new_def pool_inv_def pool_accepted_def both_def all_accepted_def
        split: if_splits)
qed

lemma pool_ticks_inv: "pool_inv p \<Longrightarrow> pool_inv (pool_ticks ds ss p) \<and> pool_accepted (pool_ticks ds ss p) = pool_accepted p"
  by (auto simp: pool_inv_def pool_accepted_def both_def all_accepted_def pool_ticks_def dynamic_ticks_inv
      split: option.splits)

lemma pool_history_inv: "pool_history mn mx taken refused p \<Longrightarrow> pool_inv p \<and> pool_accepted p = taken"
proof (induction rule: pool_history.induct)
  case (accept taken refused p denv senv a p')
  then show ?case by (auto intro: thread_pool.run_cases [of p denv senv a])
next
  case (refuse taken refused p denv senv a b p')
  then show ?case by (auto intro: thread_pool.run_cases [of p denv senv a])
qed (auto simp: pool_new_inv pool_ticks_inv)

text \<open>Runs in order, up to the first that unwinds.\<close>

fun pool_runs :: "(env \<times> env \<times> 'a) list \<Rightarrow> ('a thread_pool, unit, 'a) prog" where
  "pool_runs [] p = Some (Ok (), p)"
| "pool_runs ((denv, senv, a) # rs) p =
     (case pool_run denv senv a p of
        None \<Rightarrow> None
      | Some (r, p') \<Rightarrow> if r = Panic then Some (Panic, p') else pool_runs rs p')"

lemma pool_runs_dead:
  assumes "static_part p = Some s" and "static_inv s" and "dead_worker i s" and "ahead (sp_size s) (sp_next s) i < length rs"
  shows "\<exists>p'. pool_runs rs p = Some (Panic, p')"
  using assms
proof (induction rs arbitrary: p s)
  case (Cons x rs)
  obtain denv senv a where x: "x = (denv, senv, a)" by (metis prod_cases3)
  obtain r s' where r: "static_run senv a s = Some (r, s')"
    "r = Panic \<or> r = Ok () \<and> static_inv s' \<and> dead_worker i s' \<and> sp_size s' = sp_size s
       \<and> ahead (sp_size s) (sp_next s') i < ahead (sp_size s) (sp_next s) i"
    using static_run_dead [OF Cons.prems(2,3), of senv a] by blast
  from r(2) show ?case
  proof
    assume ok: "r = Ok () \<and> static_inv s' \<and> dead_worker i s' \<and> sp_size s' = sp_size s
       \<and> ahead (sp_size s) (sp_next s') i < ahead (sp_size s) (sp_next s) i"
    let ?p = "p\<lparr>static_part := Some s'\<rparr>"
    have "pool_run denv senv a p = Some (Ok (), ?p)"
      using r(1) ok Cons.prems(1) by (simp add: pool_run_def pool_run_with_def Let_def)
    moreover have "\<exists>p'. pool_runs rs ?p = Some (Panic, p')"
      by (rule Cons.IH [of _ s']) (use ok Cons.prems(4) in simp_all)
    ultimately show ?thesis by (simp add: x)
  qed (use r(1) Cons.prems(1) in \<open>simp add: x pool_run_def pool_run_with_def Let_def\<close>)
qed simp

section \<open>Properties\<close>

text \<open>
  C9. In every history of the pool, under every interleaving of its threads, the actions that
  its threads are running or have run are exactly those it took, each once, and none that it
  gave back; giving it another action returns, and does so without unwinding unless a thread
  of the static pool died.
\<close>

theorem pool_runs_each_action_once:
  assumes "pool_history mn mx taken refused p"
  shows "pool_accepted p = taken
    \<and> (\<exists>r p'. pool_run denv senv a p = Some (r, p')
         \<and> (r = Ok () \<and> pool_accepted p' = add_mset a taken
            \<or> r = Err a \<and> pool_accepted p' = taken
            \<or> r = Panic \<and> pool_broken p' \<and> pool_accepted p' = taken))"
proof -
  have p: "pool_inv p" "pool_accepted p = taken" using pool_history_inv [OF assms] by auto
  then show ?thesis by (auto intro: thread_pool.run_cases [OF p(1), of denv senv a])
qed

theorem pool_runs_each_action_once_witness:
  "\<exists>p. pool_new 1 3 = Some p \<and> pool_accepted p = {#}
     \<and> (\<exists>r p'. pool_run (\<lambda>_. []) (\<lambda>_. []) (5::nat) p = Some (r, p'))"
proof -
  obtain p :: "nat thread_pool" where p: "pool_new 1 3 = Some p" by (simp add: pool_new_def)
  from pool_runs_each_action_once [OF pool_history.new [OF p], of "\<lambda>_. []" "\<lambda>_. []" 5] p
  show ?thesis by blast
qed



text \<open>
  The pool of the server has at most the greater of its two bounds in threads, and keeps
  that bound: the static part has its minimum of workers and the dynamic part cells for the
  difference.
\<close>

theorem pool_capacity:
  assumes "pool_new mn mx = Some p"
  shows "(case static_part p of None \<Rightarrow> 0 | Some s \<Rightarrow> length (sp_workers s))
     + (case dynamic_part p of None \<Rightarrow> 0 | Some d \<Rightarrow> dp_max d) = max mn mx
   \<and> (dynamic_part p = None \<longleftrightarrow> mx \<le> mn) \<and> (static_part p = None \<longleftrightarrow> mn = 0)"
  using assms by (auto simp: pool_new_def static_new_def dynamic_new_def split: if_splits)

theorem pool_capacity_witness:
  "\<exists>p :: nat thread_pool. pool_new 1 3 = Some p \<and> dynamic_part p \<noteq> None"
proof -
  obtain p :: "nat thread_pool" where p: "pool_new 1 3 = Some p" by (simp add: pool_new_def)
  with pool_capacity [OF p] show ?thesis by simp
qed

text \<open>
  C22. Dropping the pool of the server waits for everything that it took: whatever happened before,
  when no worker is dead and no running action panics, every accepted action has then been run
  exactly once, and every thread has stopped.
\<close>

theorem pool_drop_runs_accepted:
  assumes "pool_history mn mx taken refused p"
    and "\<forall>w \<in> set (pool_workers p). wk_thread w \<noteq> Died \<and> (\<forall>a. wk_thread w = Running a \<longrightarrow> \<not> panics a)"
  shows "\<exists>ws. pool_drop panics p = (Ok (), ws) \<and> (\<forall>w \<in> set ws. wk_thread w = Stopped)
    \<and> mset (pool_retired p) + mset (concat (map wk_ran ws)) = taken"
proof -
  have "pool_accepted p = taken" using pool_history_inv [OF assms(1)] by simp
  then show ?thesis
    using drop_workers_all [OF assms(2)] pool_accepted_workers [of p] by (auto simp: pool_drop_workers)
qed

theorem pool_drop_runs_accepted_witness:
  "\<exists>p :: nat thread_pool. pool_new 0 1 = Some p
     \<and> (\<exists>p' ws. pool_run (\<lambda>_. []) (\<lambda>_. []) 7 p = Some (Ok (), p') \<and> pool_drop (\<lambda>_. False) p' = (Ok (), ws)
          \<and> mset (concat (map wk_ran ws)) = {#7#})"
proof -
  obtain p :: "nat thread_pool" where p: "pool_new 0 1 = Some p" by (simp add: pool_new_def)
  define p' :: "nat thread_pool" where "p' = \<lparr>dynamic_part = Some \<lparr>dp_workers = [Some (started_with 0 7)],
    dp_timeout = default_timeout, dp_free = [], dp_max = 1, dp_retired = []\<rparr>, static_part = None\<rparr>"
  have run: "pool_run (\<lambda>_. []) (\<lambda>_. []) 7 p = Some (Ok (), p')"
    using p by (auto simp: pool_new_def pool_run_def pool_run_with_def p'_def dynamic_run_def dynamic_new_def
      dynamic_ticks_def try_add_worker_def set_cell_def Let_def)
  have "pool_retired p' = []" "pool_workers p' = [started_with 0 7]"
    by (simp_all add: pool_retired_def pool_workers_def p'_def dynamic_workers_def map_filter_simps)
  with pool_drop_runs_accepted [OF pool_history.accept [OF pool_history.new [OF p] run], of "\<lambda>_. False"] p run
  show ?thesis by (auto simp: started_with_def started_def)
qed

end
