(* ===== verification/Tcp_Stream.thy ===== *)
theory Tcp_Stream
  imports Cancellable_Stream
begin

text \<open>
  \<^verbatim>\<open>std::net::TcpStream\<close> as the code uses it: below a cancellable stream, with a poller
  (\<^verbatim>\<open>streams/mod.rs\<close>), which is what the server does, and directly below a stream with
  time-outs (\<^verbatim>\<open>streams/timeout_stream.rs\<close>), which is what the client does. The calls of the
  system are parameters.
\<close>

section \<open>A TCP stream, with and without a poller\<close>

record 's tcp_stream =
  tp_read :: "'s reader"
  tp_write :: "'s writer"
  tp_flush :: "('s, unit, io_error) prog"
  tp_shutdown :: "('s, unit, io_error) prog"
  tp_set_nonblocking :: "bool \<Rightarrow> ('s, unit, io_error) prog"
  tp_set_read_timeout :: "duration option \<Rightarrow> ('s, unit, io_error) prog"
  tp_set_write_timeout :: "duration option \<Rightarrow> ('s, unit, io_error) prog"
  tp_now :: "'s \<Rightarrow> nat"

text \<open>With a poller that it is registered with, and the flag of the cancellable stream above it.\<close>

record 's polled = "'s tcp_stream" +
  pl_new :: "('s, unit, io_error) prog"
  pl_add :: "event \<Rightarrow> ('s, unit, io_error) prog"
  pl_modify :: "event \<Rightarrow> ('s, unit, io_error) prog"
  pl_wait :: "duration option \<Rightarrow> ('s, event list, io_error) prog"
  pl_done :: "'s \<Rightarrow> bool"
  pl_set_done :: "'s \<Rightarrow> 's"

text \<open>\<^verbatim>\<open>BaseStream for TcpStream\<close>: every operation is the stream's own.\<close>

definition tcp_os :: "'s polled \<Rightarrow> 's os" where
  "tcp_os net =
     \<lparr>os_poller_new = pl_new net, os_add = pl_add net, os_modify = pl_modify net, os_wait = pl_wait net,
      os_read = tp_read net, os_write = tp_write net, os_flush = tp_flush net, os_shutdown = tp_shutdown net,
      os_set_nonblocking = tp_set_nonblocking net, os_set_read_timeout = tp_set_read_timeout net,
      os_set_write_timeout = tp_set_write_timeout net, os_done = pl_done net, os_set_done = pl_set_done net,
      os_now = tp_now net\<rparr>"

text \<open>\<^verbatim>\<open>Timeout for TcpStream\<close>, and its reads and writes.\<close>

definition tcp_timed :: "('s, 'x) tcp_stream_scheme \<Rightarrow> 's timed" where
  "tcp_timed tp =
     \<lparr>tm_read = tp_read tp, tm_write = tp_write tp, tm_flush = tp_flush tp,
      tm_set_read_timeout = tp_set_read_timeout tp, tm_set_write_timeout = tp_set_write_timeout tp, tm_now = tp_now tp\<rparr>"

section \<open>Streams in memory\<close>

text \<open>That of \<open>mem_os\<close>, and one that takes all that is written at once.\<close>

definition mem_net :: "nat \<Rightarrow> mem_socket polled" where
  "mem_net k =
     \<lparr>tp_read = os_read (mem_os k), tp_write = os_write (mem_os k), tp_flush = ret (), tp_shutdown = ret (),
      tp_set_nonblocking = (\<lambda>_. ret ()), tp_set_read_timeout = (\<lambda>_. ret ()), tp_set_write_timeout = (\<lambda>_. ret ()),
      tp_now = (\<lambda>_. 0), pl_new = ret (), pl_add = (\<lambda>_. ret ()), pl_modify = (\<lambda>_. ret ()),
      pl_wait = (\<lambda>_. ret [event_all 1]), pl_done = ms_done, pl_set_done = (\<lambda>s. s\<lparr>ms_done := True\<rparr>)\<rparr>"

lemma tcp_os_mem_net: "tcp_os (mem_net k) = mem_os k"
  by (simp add: tcp_os_def mem_net_def mem_os_def)

definition mem_tcp_stream :: "nat \<Rightarrow> mem_socket tcp_stream" where
  "mem_tcp_stream k =
     \<lparr>tp_read = os_read (mem_os k), tp_write = (\<lambda>bs s. Some (Ok (length bs), s\<lparr>ms_out := ms_out s @ bs\<rparr>)),
      tp_flush = ret (), tp_shutdown = (\<lambda>s. Some (Ok (), s\<lparr>ms_done := True\<rparr>)),
      tp_set_nonblocking = (\<lambda>_. ret ()), tp_set_read_timeout = (\<lambda>_. ret ()), tp_set_write_timeout = (\<lambda>_. ret ()),
      tp_now = (\<lambda>_. 0)\<rparr>"

interpretation mem_tcp_reads: fast_source "tcp_timed (mem_tcp_stream k)" ms_in
  "\<lambda>s. \<not> ms_done s \<and> ms_out s = sent" "\<lambda>_. 0"
  by unfold_locales (auto simp: tcp_timed_def mem_tcp_stream_def mem_os_def as_secs_def min_def)

interpretation mem_tcp_writes: fast_sink "tcp_timed (mem_tcp_stream k)"
  "\<lambda>s bs s'. ms_out s' = ms_out s @ bs \<and> ms_in s' = ms_in s" "\<lambda>s. \<not> ms_done s" "\<lambda>_. 0"
  by unfold_locales (auto simp: tcp_timed_def mem_tcp_stream_def as_secs_def)

end
