(* ===== verification/Tls_Stream.thy ===== *)
theory Tls_Stream
  imports Tcp_Stream
begin

text \<open>
  \<^verbatim>\<open>streams/tls/mod.rs\<close> and its part of \<^verbatim>\<open>streams/mod.rs\<close>: a stream of a
  \<^verbatim>\<open>rustls\<close> session over a TCP stream. What \<^verbatim>\<open>rustls\<close> and
  \<^verbatim>\<open>rustls_pemfile\<close> do is a parameter; the state of a stream is that of the session and
  of the socket, which the clone in \<^verbatim>\<open>plain_stream\<close> shares.
\<close>

section \<open>Certificates and private keys\<close>

datatype certificate = Certificate "byte list"
datatype private_key = PrivateKey "byte list"

primrec certificate_to_vec :: "certificate \<Rightarrow> byte list" where
  "certificate_to_vec (Certificate der) = der"

primrec certificate_clone :: "certificate \<Rightarrow> certificate" where
  "certificate_clone (Certificate der) = Certificate der"

primrec private_key_clone :: "private_key \<Rightarrow> private_key" where
  "private_key_clone (PrivateKey der) = PrivateKey der"

datatype pem_item = RSAKey "byte list" | PKCS8Key "byte list" | ECKey "byte list" | OtherItem "byte list"

text \<open>The file system and the parser of PEM files.\<close>

record pem_files =
  pf_open :: "string \<Rightarrow> (byte list, io_error) res"
  pf_certs :: "byte list \<Rightarrow> (byte list list, io_error) res"
  pf_read_one :: "byte list \<Rightarrow> (pem_item option, io_error) res"

definition not_found_is_other :: "string \<Rightarrow> io_error \<Rightarrow> io_error" where
  "not_found_is_other message err = (if io_kind err = NotFound then IoError Other message else err)"

definition certificate_read_from :: "pem_files \<Rightarrow> string \<Rightarrow> (certificate, io_error) res" where
  "certificate_read_from pf path =
     (case res_map_err (not_found_is_other (''file '' @ path @ '' not found'')) (pf_open pf path) of
        Err e \<Rightarrow> Err e
      | Panic \<Rightarrow> Panic
      | Ok file \<Rightarrow>
          (case pf_certs pf file of
             Err e \<Rightarrow> Err e
           | Panic \<Rightarrow> Panic
           | Ok [] \<Rightarrow> Err (IoError Other (''no certificate found in '' @ path @ '' ''))
           | Ok (cert # _) \<Rightarrow> Ok (Certificate cert)))"

definition private_key_read_from :: "pem_files \<Rightarrow> string \<Rightarrow> (private_key, io_error) res" where
  "private_key_read_from pf path =
     (case res_map_err (not_found_is_other (''no file found in '' @ path @ '' '')) (pf_open pf path) of
        Err e \<Rightarrow> Err e
      | Panic \<Rightarrow> Panic
      | Ok file \<Rightarrow>
          (case pf_read_one pf file of
             Err e \<Rightarrow> Err e
           | Panic \<Rightarrow> Panic
           | Ok (Some (RSAKey key)) \<Rightarrow> Ok (PrivateKey key)
           | Ok (Some (PKCS8Key key)) \<Rightarrow> Ok (PrivateKey key)
           | Ok (Some (ECKey key)) \<Rightarrow> Ok (PrivateKey key)
           | Ok None \<Rightarrow> Err (IoError Other (''no private key found in '' @ path @ '' ''))
           | Ok (Some (OtherItem _)) \<Rightarrow> Err (IoError Other (''no private key found in '' @ path @ '' ''))))"

section \<open>The stream\<close>

record ('k, 'f, 's) rustls =
  rt_config :: "byte list list \<Rightarrow> byte list \<Rightarrow> ('f, string) res"
  rt_connection :: "'f \<Rightarrow> ('k, string) res"
  rt_read :: "('k \<times> 's) reader"
  rt_write :: "('k \<times> 's) writer"
  rt_flush :: "('k \<times> 's, unit, io_error) prog"

definition tls_stream_new :: "('k, 'f, 's) rustls \<Rightarrow> ('s, unit, io_error) prog \<Rightarrow> private_key \<Rightarrow> certificate
    \<Rightarrow> ('s, 'k, io_error) prog" where
  "tls_stream_new rt try_clone key cert =
     (case (key, cert) of (PrivateKey k, Certificate c) \<Rightarrow>
        and_then (of_res (res_map_err (IoError Other) (rt_config rt [c] k))) (\<lambda>tls_config.
        and_then try_clone (\<lambda>_.
          of_res (res_map_err (IoError Other) (rt_connection rt tls_config)))))"

definition on_plain :: "('s, 'a, 'e) prog \<Rightarrow> ('k \<times> 's, 'a, 'e) prog" where
  "on_plain m = (\<lambda>(k, s). case m s of None \<Rightarrow> None | Some (r, s') \<Rightarrow> Some (r, k, s'))"

text \<open>Reading, writing and flushing go through the session, behind a lock.\<close>

definition tls_read_int :: "('k, 'f, 's) rustls \<Rightarrow> ('k \<times> 's) reader" where
  "tls_read_int rt n = rt_read rt n"

definition tls_write_int :: "('k, 'f, 's) rustls \<Rightarrow> ('k \<times> 's) writer" where
  "tls_write_int rt bs = rt_write rt bs"

definition tls_flush_data :: "('k, 'f, 's) rustls \<Rightarrow> ('k \<times> 's, unit, io_error) prog" where
  "tls_flush_data rt = rt_flush rt"

text \<open>Everything else (the file descriptor that the poller waits for included) is the socket's.\<close>

definition tls_set_nonblocking :: "'s os \<Rightarrow> bool \<Rightarrow> ('k \<times> 's, unit, io_error) prog" where
  "tls_set_nonblocking os b = on_plain (os_set_nonblocking os b)"

definition tls_shutdown :: "'s os \<Rightarrow> ('k \<times> 's, unit, io_error) prog" where
  "tls_shutdown os = on_plain (os_shutdown os)"

definition tls_set_read_timeout :: "'s os \<Rightarrow> duration option \<Rightarrow> ('k \<times> 's, unit, io_error) prog" where
  "tls_set_read_timeout os d = on_plain (os_set_read_timeout os d)"

definition tls_set_write_timeout :: "'s os \<Rightarrow> duration option \<Rightarrow> ('k \<times> 's, unit, io_error) prog" where
  "tls_set_write_timeout os d = on_plain (os_set_write_timeout os d)"

text \<open>\<^verbatim>\<open>BaseStream for tls::Stream\<close>.\<close>

definition tls_os :: "('k, 'f, 's) rustls \<Rightarrow> 's os \<Rightarrow> ('k \<times> 's) os" where
  "tls_os rt os =
     \<lparr>os_poller_new = on_plain (os_poller_new os), os_add = (\<lambda>e. on_plain (os_add os e)),
      os_modify = (\<lambda>e. on_plain (os_modify os e)), os_wait = (\<lambda>t. on_plain (os_wait os t)),
      os_read = tls_read_int rt, os_write = tls_write_int rt, os_flush = tls_flush_data rt,
      os_shutdown = tls_shutdown os, os_set_nonblocking = tls_set_nonblocking os,
      os_set_read_timeout = tls_set_read_timeout os, os_set_write_timeout = tls_set_write_timeout os,
      os_done = (\<lambda>(k, s). os_done os s), os_set_done = (\<lambda>(k, s). (k, os_set_done os s)),
      os_now = (\<lambda>(k, s). os_now os s)\<rparr>"

text \<open>
  The stream builder of \<^verbatim>\<open>run_tls\<close>: it unwraps the new stream, then makes it
  cancellable; \<^verbatim>\<open>run\<close> only does the latter.
\<close>

definition tls_builder :: "('k, 'f, 's) rustls \<Rightarrow> 's polled \<Rightarrow> ('s, unit, io_error) prog \<Rightarrow> private_key \<Rightarrow> certificate
    \<Rightarrow> 's \<Rightarrow> (('k \<times> 's) cancellable, io_error) res option" where
  "tls_builder rt net try_clone key cert s =
     (case tls_stream_new rt try_clone (private_key_clone key) (certificate_clone cert) s of
        None \<Rightarrow> None
      | Some (Ok k, s1) \<Rightarrow> map_option fst (cancellable_new (tls_os rt (tcp_os net)) (k, s1))
      | Some (_, s1) \<Rightarrow> Some Panic)"

definition plain_builder :: "'s polled \<Rightarrow> 's \<Rightarrow> ('s cancellable, io_error) res option" where
  "plain_builder net s = map_option fst (cancellable_new (tcp_os net) s)"

section \<open>A session in memory\<close>

text \<open>
  Its state is the plain text that it has decrypted and not yet delivered; a read first takes
  that, and only then from the socket.
\<close>

definition mem_rustls :: "nat \<Rightarrow> (byte list, unit, mem_socket) rustls" where
  "mem_rustls j =
     \<lparr>rt_config = (\<lambda>_ _. Ok ()), rt_connection = (\<lambda>_. Ok []),
      rt_read = (\<lambda>n (k, s). if k \<noteq> [] then Some (Ok (take n k), drop n k, s)
          else case os_read (mem_os j) (Suc j) s of
              None \<Rightarrow> None
            | Some (Ok bs, s') \<Rightarrow> Some (Ok (take n bs), drop n bs, s')
            | Some (r, s') \<Rightarrow> Some (r, k, s')),
      rt_write = (\<lambda>bs. on_plain (os_write (mem_os j) bs)), rt_flush = ret ()\<rparr>"

section \<open>Properties\<close>

text \<open>
  C33. A read on a TLS stream waits for the socket even when the session still has decrypted data
  to deliver: as long as the poller reports nothing, the read times out (or is cancelled) whatever
  the session holds, and leaves the session as it was. A peer that has sent all its data at once
  is timed out, since a read takes less at a time than a TLS record holds.
\<close>

theorem tls_buffered_data_times_out:
  assumes "os_modify os (event_readable 1) s = Some (Ok (), s1)"
    and "os_wait os (cs_read_timeout c) s1 = Some (Ok [], s2)" and "cs_stream c = (k, s)"
  shows "read_int (tls_os rt os) n c
    = Some (Err (io_error_from (if os_done os s2 then NotConnected else TimedOut)), c\<lparr>cs_stream := (k, s2)\<rparr>)"
  using assms by (simp add: read_int_def on_stream_def and_then_def tls_os_def on_plain_def no_event_error_def)

theorem tls_buffered_data_times_out_witness:
  "read_int (tls_os (mem_rustls 7) ((mem_os 7)\<lparr>os_wait := (\<lambda>_. ret [])\<rparr>)) 4
       \<lparr>cs_stream = (''body'', \<lparr>ms_in = [], ms_out = [], ms_done = False\<rparr>), cs_read_timeout = None, cs_write_timeout = None\<rparr>
     = Some (Err (io_error_from TimedOut),
         \<lparr>cs_stream = (''body'', \<lparr>ms_in = [], ms_out = [], ms_done = False\<rparr>), cs_read_timeout = None, cs_write_timeout = None\<rparr>)
   \<and> rt_read (mem_rustls 7) 4 (''body'', \<lparr>ms_in = [], ms_out = [], ms_done = False\<rparr>)
     = Some (Ok ''body'', '''', \<lparr>ms_in = [], ms_out = [], ms_done = False\<rparr>)"
  using tls_buffered_data_times_out [of "(mem_os 7)\<lparr>os_wait := (\<lambda>_. ret [])\<rparr>" "\<lparr>ms_in = [], ms_out = [], ms_done = False\<rparr>"
      "\<lparr>ms_in = [], ms_out = [], ms_done = False\<rparr>"
      "\<lparr>cs_stream = (''body'', \<lparr>ms_in = [], ms_out = [], ms_done = False\<rparr>), cs_read_timeout = None, cs_write_timeout = None\<rparr>"
      "\<lparr>ms_in = [], ms_out = [], ms_done = False\<rparr>" "''body''" "mem_rustls 7" 4]
  by (simp add: mem_os_def mem_rustls_def)

text \<open>
  \<^verbatim>\<open>run_tls\<close> does not look at its certificate and key: if \<^verbatim>\<open>rustls\<close> rejects
  them, or the socket of a connection cannot be cloned, the stream builder panics, and it runs in
  the thread of the server, once for each connection.
\<close>

theorem tls_builder_panics:
  assumes "(\<exists>m. rt_config rt [cert] key = Err m)
    \<or> (\<exists>f r s1. rt_config rt [cert] key = Ok f \<and> try_clone s = Some (r, s1)
          \<and> (r \<noteq> Ok () \<or> (\<exists>m. rt_connection rt f = Err m)))"
  shows "tls_builder rt net try_clone (PrivateKey key) (Certificate cert) s = Some Panic"
  using assms by (auto simp: tls_builder_def tls_stream_new_def and_then_def split: res.split)

theorem tls_builder_panics_witness:
  "tls_builder ((mem_rustls 7)\<lparr>rt_config := (\<lambda>_ _. Err ''invalid certificate'')\<rparr>) (mem_net 7) (ret ())
      (PrivateKey ''k'') (Certificate ''c'') \<lparr>ms_in = [], ms_out = [], ms_done = False\<rparr> = Some Panic"
  using tls_builder_panics [of "(mem_rustls 7)\<lparr>rt_config := (\<lambda>_ _. Err ''invalid certificate'')\<rparr>" "''c''" "''k''"] by simp

end
