(* ===== verification/Server.thy ===== *)
theory Server
  imports Server_Connection Observable Thread_Pool Tls_Stream
begin

text \<open>
  The server itself (\<^verbatim>\<open>lib.rs\<close>): the accept loop, which shares its streams with the
  conversations through the list of observed streams and hands them to the thread pool, and the
  operations of \<^verbatim>\<open>Server\<close>. The listener, its poller and the threads of the system are
  the fields of records that the definitions take.
\<close>

section \<open>The accept loop\<close>

text \<open>
  The state of the loop. The wait is a step of the whole state, since the conversations go on
  while the loop is blocked: they use, clone and drop their handles, and finish in the pool.
\<close>

record ('e, 'p, 'c) serving =
  sg_env :: 'e
  sg_pool :: 'p
  sg_streams :: "'c streams"

record ('w, 'b, 'c) acceptor =
  ac_wait :: "('w, event list, io_error) prog"
  ac_accept :: "('w, 'b, io_error) prog"
  ac_modify :: "('w, unit, io_error) prog"
  ac_build :: "'b \<Rightarrow> ('w, 'c, io_error) prog"
  ac_stop :: "'w \<Rightarrow> bool"

text \<open>\<^verbatim>\<open>Result::unwrap\<close>.\<close>

definition unwrap :: "('s, 'a, 'e) prog \<Rightarrow> ('s, 'a, 'f) prog" where
  "unwrap m s =
     (case m s of
        None \<Rightarrow> None
      | Some (r, s') \<Rightarrow> Some (case r of Ok x \<Rightarrow> Ok x | _ \<Rightarrow> Panic, s'))"

text \<open>
  A new stream is tracked; one handle goes to the action, the other stays here. An action is
  named by its stream: it is \<^verbatim>\<open>handle_conversation\<close> on it. A refused action is dropped
  with its handle before the busy answer, an accepted one leaves the local handle to be dropped.
\<close>

definition dispatch :: "entry_order \<Rightarrow> 'c connection_io \<Rightarrow> 'rb reader \<Rightarrow> timeouts
    \<Rightarrow> (nat \<Rightarrow> ('p, unit, nat) prog) \<Rightarrow> 'c \<Rightarrow> (('e, 'p, 'c) serving, unit, io_error) prog" where
  "dispatch it io rbd t run c s =
     (let (action_stream, l1) = list_track c (sg_streams s);
          l = observed_clone action_stream l1
      in case run action_stream (sg_pool s) of
           None \<Rightarrow> None
         | Some (r, p) \<Rightarrow>
             (case r of
                Ok _ \<Rightarrow> Some (Ok (), s\<lparr>sg_pool := p, sg_streams := observed_drop action_stream l\<rparr>)
              | Panic \<Rightarrow> Some (Panic, s\<lparr>sg_pool := p,
                  sg_streams := observed_drop action_stream (observed_drop action_stream l)\<rparr>)
              | Err refused \<Rightarrow>
                  (case observed_io action_stream (handle_busy it io rbd t) (observed_drop refused l) of
                     None \<Rightarrow> None
                   | Some (q, l') \<Rightarrow> Some (if q = Panic then Panic else Ok (),
                       s\<lparr>sg_pool := p, sg_streams := observed_drop action_stream l'\<rparr>))))"

text \<open>One event of the listener. An error of \<^verbatim>\<open>stream_builder\<close> is only logged.\<close>

definition accept_event :: "entry_order \<Rightarrow> 'c connection_io \<Rightarrow> 'rb reader \<Rightarrow> timeouts
    \<Rightarrow> (nat \<Rightarrow> ('p, unit, nat) prog) \<Rightarrow> (('e, 'p, 'c) serving, 'b, 'c) acceptor
    \<Rightarrow> event \<Rightarrow> (('e, 'p, 'c) serving, unit, io_error) prog" where
  "accept_event it io rbd t run ac evt =
     (if ev_key evt \<noteq> 1 then ret ()
      else and_then (ac_accept ac) (\<lambda>b.
           and_then (unwrap (ac_modify ac)) (\<lambda>_ s.
             case ac_build ac b s of
               None \<Rightarrow> None
             | Some (r, s1) \<Rightarrow>
                 (case r of
                    Ok c \<Rightarrow> dispatch it io rbd t run c s1
                  | Err _ \<Rightarrow> Some (Ok (), s1)
                  | Panic \<Rightarrow> Some (Panic, s1)))))"

fun accept_events :: "entry_order \<Rightarrow> 'c connection_io \<Rightarrow> 'rb reader \<Rightarrow> timeouts
    \<Rightarrow> (nat \<Rightarrow> ('p, unit, nat) prog) \<Rightarrow> (('e, 'p, 'c) serving, 'b, 'c) acceptor
    \<Rightarrow> event list \<Rightarrow> (('e, 'p, 'c) serving, unit, io_error) prog" where
  "accept_events it io rbd t run ac [] = ret ()"
| "accept_events it io rbd t run ac (evt # evts) =
     and_then (accept_event it io rbd t run ac evt) (\<lambda>_. accept_events it io rbd t run ac evts)"

text \<open>Shutting down what is pending; an upgraded reference is dropped again after its turn.\<close>

fun shutdown_pending :: "('c, unit, io_error) prog \<Rightarrow> nat list \<Rightarrow> ('c streams, unit, io_error) prog" where
  "shutdown_pending shut [] l = Some (Ok (), l)"
| "shutdown_pending shut (a # pending) l =
     (case weak_upgrade a l of
        None \<Rightarrow> shutdown_pending shut pending l
      | Some l1 \<Rightarrow>
          (case observed_io a shut l1 of
             None \<Rightarrow> None
           | Some (r, l2) \<Rightarrow>
               if r = Panic then Some (Panic, observed_drop a l2)
               else shutdown_pending shut pending (observed_drop a l2)))"

definition stop_streams :: "((64 word, nat) hash_map \<Rightarrow> (64 word, nat) hash_map) \<Rightarrow> ('c, unit, io_error) prog
    \<Rightarrow> (('e, 'p, 'c) serving, unit, io_error) prog" where
  "stop_streams drain_order shut s =
     (let (pending, l) = list_drain drain_order (sg_streams s)
      in case shutdown_pending shut pending l of
           None \<Rightarrow> None
         | Some (r, l') \<Rightarrow> Some (r, s\<lparr>sg_streams := l'\<rparr>))"

partial_function (option) accept_loop :: "((64 word, nat) hash_map \<Rightarrow> (64 word, nat) hash_map)
    \<Rightarrow> entry_order \<Rightarrow> 'c connection_io \<Rightarrow> 'rb reader \<Rightarrow> timeouts
    \<Rightarrow> (nat \<Rightarrow> ('p, unit, nat) prog) \<Rightarrow> (('e, 'p, 'c) serving, 'b, 'c) acceptor
    \<Rightarrow> ('e, 'p, 'c) serving \<Rightarrow> ((unit, io_error) res \<times> ('e, 'p, 'c) serving) option" where
  "accept_loop drain_order it io rbd t run ac s =
     (case and_then (ac_wait ac) (accept_events it io rbd t run ac) s of
        None \<Rightarrow> None
      | Some (r, s1) \<Rightarrow>
          (case r of
             Err e \<Rightarrow> Some (Err e, s1)
           | Panic \<Rightarrow> Some (Panic, s1)
           | Ok _ \<Rightarrow>
               if ac_stop ac s1 then stop_streams drain_order (ci_shutdown io) s1
               else accept_loop drain_order it io rbd t run ac s1))"

text \<open>
  The thread of the server: on its way out it drops the list and then the pool, which waits for
  its workers (\<open>panics\<close> says which of the running conversations panic).
\<close>

definition accept_connections :: "((64 word, nat) hash_map \<Rightarrow> (64 word, nat) hash_map)
    \<Rightarrow> entry_order \<Rightarrow> 'c connection_io \<Rightarrow> 'rb reader \<Rightarrow> env \<Rightarrow> env \<Rightarrow> (nat \<Rightarrow> bool) \<Rightarrow> timeouts \<Rightarrow> nat
    \<Rightarrow> (('e, nat thread_pool, 'c) serving, 'b, 'c) acceptor
    \<Rightarrow> 'e \<Rightarrow> ((unit, io_error) res \<times> ('e, nat thread_pool, 'c) serving option) option" where
  "accept_connections drain_order it io rbd denv senv panics t execunits ac e =
     (case pool_new execunits 100 of
        None \<Rightarrow> Some (Panic, None)
      | Some p \<Rightarrow>
          (case accept_loop drain_order it io rbd t (pool_run denv senv) ac
                  \<lparr>sg_env = e, sg_pool = p, sg_streams = list_new\<rparr> of
             None \<Rightarrow> None
           | Some (r, s) \<Rightarrow>
               Some (if fst (pool_drop panics (sg_pool s)) = Ok () then r else Panic,
                     Some (s\<lparr>sg_streams := list_drop (sg_streams s)\<rparr>))))"

section \<open>Handing over a connection\<close>

definition serving_ok :: "nat \<Rightarrow> nat multiset \<Rightarrow> ('e, 'p, 'c) serving \<Rightarrow> bool" where
  "serving_ok n hs s \<longleftrightarrow> objects_inv n hs (sg_streams s) \<and> items_inv (sg_streams s) \<and> n < 2 ^ 64"

lemma tracked_clone:
  assumes "objects_inv n hs l" and "items_inv l" and "n < 2 ^ 64"
  obtains ob l1 l2 where "list_track c l = (n, l1)" "observed_clone n l1 = l2"
    "objects_inv (Suc n) (add_mset n (add_mset n hs)) l2" "items_inv l2"
    "al_objects l2 = (al_objects l)(n \<mapsto> (2, ob))" "ob_observed ob = c" "al_closed l2 = al_closed l"
    "al_objects l n = None"
proof -
  obtain a l1 where l1: "list_track c l = (a, l1)" by fastforce
  let ?ob = "(observable_new c)\<lparr>ob_parent := Some (ol_next_key l)\<rparr>"
  have a: "a = n" and inv: "objects_inv (Suc n) (add_mset n hs) l1" "items_inv l1"
    using list_track_inv [OF assms l1] by auto
  have none: "al_objects l n = None"
    using objects_invD [OF assms(1), of n] by (cases "al_objects l n") auto
  have obj: "al_objects l1 = (al_objects l)(n \<mapsto> (1, ?ob))" "al_closed l1 = al_closed l"
    using l1 a by (auto simp: list_track_def Let_def)
  have "al_objects l1 n \<noteq> None" by (simp add: obj)
  from observed_clone_inv [OF inv this]
  show thesis
    by (intro that [OF l1 [unfolded a] refl _ _ _ _ _ none]) (auto simp: observed_clone_def obj observable_new_def)
qed

lemma observed_drop_many: "al_objects l a = Some (Suc (Suc k), ob) \<Longrightarrow>
    al_objects (observed_drop a l) = (al_objects l)(a \<mapsto> (Suc k, ob)) \<and> al_closed (observed_drop a l) = al_closed l"
  by (simp add: observed_drop_def)

lemma observed_drop_last: "al_objects l a = Some (1, ob) \<Longrightarrow>
    al_objects (observed_drop a l) = (al_objects l)(a := None)
    \<and> al_closed (observed_drop a l) = al_closed l @ [(a, ob_observed ob)]"
  by (auto simp: observed_drop_def observable_drop_def list_dropped_def split: option.split)

text \<open>The pool took the action: its stream is tracked and has the one handle of the action.\<close>

lemma dispatch_accepted:
  assumes "serving_ok n hs s" and "Suc n < 2 ^ 64" and "run n (sg_pool s) = Some (Ok (), p)"
  obtains s' ob where "dispatch it io rbd t run c s = Some (Ok (), s')" "sg_pool s' = p" "sg_env s' = sg_env s"
    "serving_ok (Suc n) (add_mset n hs) s'" "al_objects (sg_streams s') = (al_objects (sg_streams s))(n \<mapsto> (1, ob))"
    "ob_observed ob = c" "al_closed (sg_streams s') = al_closed (sg_streams s)"
proof -
  obtain ob l1 l2 where l: "list_track c (sg_streams s) = (n, l1)" "observed_clone n l1 = l2"
    "objects_inv (Suc n) (add_mset n (add_mset n hs)) l2" "items_inv l2"
    "al_objects l2 = (al_objects (sg_streams s))(n \<mapsto> (2, ob))" "ob_observed ob = c"
    "al_closed l2 = al_closed (sg_streams s)"
    using tracked_clone assms(1) unfolding serving_ok_def by metis
  have "objects_inv (Suc n) (add_mset n hs) (observed_drop n l2) \<and> items_inv (observed_drop n l2)"
    using observed_drop_inv [OF l(3,4), of n] assms(2) by simp
  moreover have "al_objects (observed_drop n l2) = (al_objects (sg_streams s))(n \<mapsto> (1, ob))"
    "al_closed (observed_drop n l2) = al_closed (sg_streams s)"
    using observed_drop_many [of l2 n 0 ob] l(5,7) by (simp_all add: numeral_2_eq_2)
  ultimately show thesis
    using assms(2,3) l by (intro that [of "s\<lparr>sg_pool := p, sg_streams := observed_drop n l2\<rparr>" ob])
      (simp_all add: dispatch_def serving_ok_def Let_def)
qed

text \<open>The pool refused: the peer is told and the stream is closed for good.\<close>

lemma dispatch_refused:
  assumes "serving_ok n hs s" and "Suc n < 2 ^ 64" and "run n (sg_pool s) = Some (Err n, p)"
  obtains after where "dispatch it io rbd t run c s = (case handle_busy it io rbd t c of
        None \<Rightarrow> None | Some (r, c') \<Rightarrow> Some (if r = Panic then Panic else Ok (), after c'))"
    "\<And>c'. sg_pool (after c') = p" "\<And>c'. sg_env (after c') = sg_env s" "\<And>c'. serving_ok (Suc n) hs (after c')"
    "\<And>c'. al_objects (sg_streams (after c')) = al_objects (sg_streams s)"
    "\<And>c'. al_closed (sg_streams (after c')) = al_closed (sg_streams s) @ [(n, c')]"
proof -
  obtain ob l1 l2 where l: "list_track c (sg_streams s) = (n, l1)" "observed_clone n l1 = l2"
    "objects_inv (Suc n) (add_mset n (add_mset n hs)) l2" "items_inv l2"
    "al_objects l2 = (al_objects (sg_streams s))(n \<mapsto> (2, ob))" "ob_observed ob = c"
    "al_closed l2 = al_closed (sg_streams s)" "al_objects (sg_streams s) n = None"
    using tracked_clone assms(1) unfolding serving_ok_def by metis
  define l3 where "l3 = observed_drop n l2"
  have l3: "al_objects l3 n = Some (1, ob)" "al_objects l3 = (al_objects (sg_streams s))(n \<mapsto> (1, ob))"
    "al_closed l3 = al_closed (sg_streams s)"
    using observed_drop_many [of l2 n 0 ob] l(5,7) by (simp_all add: l3_def numeral_2_eq_2)
  have inv3: "objects_inv (Suc n) (add_mset n hs) l3" "items_inv l3"
    using observed_drop_inv [OF l(3,4), of n] assms(2) by (simp_all add: l3_def)
  define after where "after = (\<lambda>c'. s\<lparr>sg_pool := p, sg_streams := observed_drop n (observed_set n c' l3)\<rparr>)"
  have set: "al_objects (observed_set n c' l3) = (al_objects l3)(n \<mapsto> (1, ob\<lparr>ob_observed := c'\<rparr>))"
    "al_closed (observed_set n c' l3) = al_closed l3" for c'
    using l3(1) by (simp_all add: observed_set_def)
  have dropped: "al_objects (sg_streams (after c')) = al_objects (sg_streams s)"
    "al_closed (sg_streams (after c')) = al_closed (sg_streams s) @ [(n, c')]" for c'
  proof -
    have "al_objects (observed_set n c' l3) n = Some (1, ob\<lparr>ob_observed := c'\<rparr>)" by (simp add: set)
    from observed_drop_last [OF this] show "al_objects (sg_streams (after c')) = al_objects (sg_streams s)"
      "al_closed (sg_streams (after c')) = al_closed (sg_streams s) @ [(n, c')]"
      using l3(2,3) l(8) by (auto simp: after_def set fun_eq_iff)
  qed
  have ok: "serving_ok (Suc n) hs (after c')" for c'
    using observed_set_inv [OF inv3, of n c'] observed_drop_inv [of "Suc n" "add_mset n hs" "observed_set n c' l3" n] assms(2)
    by (simp add: serving_ok_def after_def)
  have dis: "dispatch it io rbd t run c s = (case handle_busy it io rbd t c of
      None \<Rightarrow> None | Some (r, c') \<Rightarrow> Some (if r = Panic then Panic else Ok (), after c'))"
    using l(1,2,6) l3(1) assms(3)
    by (simp add: dispatch_def Let_def l3_def [symmetric] observed_io_def after_def split: option.split)
  show thesis
    by (rule that [OF dis _ _ ok dropped]) (simp_all add: after_def)
qed

text \<open>Both ways in which the accept loop goes on after a connection.\<close>

lemma dispatch_cases:
  assumes "action_runner run pool_ok accepted broken" and "pool_ok (sg_pool s)" and "serving_ok n hs s" and "Suc n < 2 ^ 64"
    and "dispatch it io rbd t run c s = Some (Ok (), s')"
  obtains ob where "accepted (sg_pool s') = add_mset n (accepted (sg_pool s))" "serving_ok (Suc n) (add_mset n hs) s'"
      "run n (sg_pool s) = Some (Ok (), sg_pool s')" "pool_ok (sg_pool s')" "al_objects (sg_streams s') = (al_objects (sg_streams s))(n \<mapsto> (1, ob))"
      "al_closed (sg_streams s') = al_closed (sg_streams s)"
  | c' where "accepted (sg_pool s') = accepted (sg_pool s)" "serving_ok (Suc n) hs s'"
      "run n (sg_pool s) = Some (Err n, sg_pool s')" "pool_ok (sg_pool s')" "al_objects (sg_streams s') = al_objects (sg_streams s)"
      "al_closed (sg_streams s') = al_closed (sg_streams s) @ [(n, c')]"
proof (cases rule: action_runner.run_cases [OF assms(1,2), of n])
  case (1 p)
  show thesis
    by (rule dispatch_accepted [where run = run and c = c and it = it and io = io and rbd = rbd and t = t, OF assms(3,4) 1(1)])
      (rule that(1), use 1 assms(5) in simp_all)
next
  case (2 p)
  show thesis
  proof (rule dispatch_refused [where run = run and c = c and it = it and io = io and rbd = rbd and t = t, OF assms(3,4) 2(1)])
    fix after
    assume after: "dispatch it io rbd t run c s = (case handle_busy it io rbd t c of
        None \<Rightarrow> None | Some (r, c') \<Rightarrow> Some (if r = Panic then Panic else Ok (), after c'))"
      "\<And>c'. sg_pool (after c') = p" "\<And>c'. serving_ok (Suc n) hs (after c')"
      "\<And>c'. al_objects (sg_streams (after c')) = al_objects (sg_streams s)"
      "\<And>c'. al_closed (sg_streams (after c')) = al_closed (sg_streams s) @ [(n, c')]"
    obtain c' where "s' = after c'" using after(1) assms(5) by (auto split: option.splits if_splits)
    with after(2-5) 2 show thesis by (intro that(2) [of c']) simp_all
  qed
next
  case (3 p)
  obtain l1 where "list_track c (sg_streams s) = (n, l1)"
    using tracked_clone assms(3) unfolding serving_ok_def by metis
  with 3(1) assms(5) show thesis by (simp add: dispatch_def Let_def)
qed

definition counted :: "'c streams \<Rightarrow> bool" where
  "counted l \<longleftrightarrow> (\<forall>a c ob. al_objects l a = Some (c, ob) \<longrightarrow> 0 < c)"

text \<open>The streams at the given addresses have been shut down, the others are as they were.\<close>

definition same_or_down :: "('c \<Rightarrow> bool) \<Rightarrow> bool \<Rightarrow> (nat \<times> 'c observable) option \<Rightarrow> (nat \<times> 'c observable) option \<Rightarrow> bool" where
  "same_or_down down shut x y =
     (case x of
        None \<Rightarrow> y = None
      | Some (c, ob) \<Rightarrow> (case y of
            None \<Rightarrow> False
          | Some (d, ob') \<Rightarrow> d = c \<and> (if shut then down (ob_observed ob') else ob' = ob)))"

definition streams_down :: "('c \<Rightarrow> bool) \<Rightarrow> nat set \<Rightarrow> 'c streams \<Rightarrow> 'c streams \<Rightarrow> bool" where
  "streams_down down A l l' \<longleftrightarrow> ol_items l' = ol_items l
     \<and> (\<forall>a. same_or_down down (a \<in> A) (al_objects l a) (al_objects l' a))"

lemma same_or_down_refl: "same_or_down down False x x"
  by (simp add: same_or_down_def split: option.split)

lemma streams_downD:
  assumes "streams_down down A l l'" and "al_objects l a = Some (c, ob)" and "a \<in> A"
  obtains ob' where "al_objects l' a = Some (c, ob')" "down (ob_observed ob')"
proof -
  have "same_or_down down True (al_objects l a) (al_objects l' a)"
    using assms(1,3) unfolding streams_down_def by metis
  with assms(2) that show thesis by (auto simp: same_or_down_def split: option.splits)
qed

text \<open>
  A connection that can be closed: \<^verbatim>\<open>shutdown\<close> returns, whether it succeeds or not, and
  takes nothing back of what was sent.
\<close>

locale closing = connection io incoming outgoing up tries
  for io :: "'c connection_io" and incoming outgoing up tries +
  fixes down :: "'c \<Rightarrow> bool"
  assumes shutdown_down: "\<exists>r c'. ci_shutdown io c = Some (r, c') \<and> r \<noteq> Panic \<and> down c' \<and> outgoing c' = outgoing c"
begin

lemma handle_busy_ok:
  assumes "eof_source rbd rcontent rok rretries" and "up c" and "0 < as_secs (write_response_timeout t)"
  shows "\<exists>r c'. handle_busy it io rbd t c = Some (r, c') \<and> r \<noteq> Panic \<and> down c'
    \<and> outgoing c' = outgoing c @ response_text it rcontent (response_from_status ServiceUnavailable :: (unit, 'rb) response)"
proof -
  let ?resp = "response_from_status ServiceUnavailable :: (unit, 'rb) response"
  have "\<forall>b. rs_body ?resp = Some b \<longrightarrow> rok (body_content b)" by (simp add: response_from_status_def)
  from send_response_ok [OF assms this, of it False] obtain c1 where
    c1: "send_response it io rbd t False ?resp c = Some (Ok False, c1)"
      "outgoing c1 = outgoing c @ response_text it rcontent ?resp" by blast
  obtain r c2 where "ci_shutdown io c1 = Some (r, c2)" "r \<noteq> Panic" "down c2" "outgoing c2 = outgoing c1"
    using shutdown_down by blast
  with c1 show ?thesis by (simp add: handle_busy_def)
qed

text \<open>Shutting down what is pending leaves the handles as they are.\<close>

lemma shutdown_pending_step:
  assumes "al_objects l a = Some (Suc k, ob)"
  obtains c' l' where "shutdown_pending (ci_shutdown io) (a # pending) l = shutdown_pending (ci_shutdown io) pending l'"
    "down c'" "al_objects l' = (al_objects l)(a \<mapsto> (Suc k, ob\<lparr>ob_observed := c'\<rparr>))" "ol_items l' = ol_items l"
proof -
  obtain r c' where r: "ci_shutdown io (ob_observed ob) = Some (r, c')" "r \<noteq> Panic" "down c'"
    using shutdown_down by blast
  let ?l1 = "observed_clone a l" and ?l2 = "observed_set a c' (observed_clone a l)"
  have l1: "al_objects ?l1 a = Some (Suc (Suc k), ob)" using assms by (simp add: observed_clone_def)
  have l2: "al_objects ?l2 a = Some (Suc (Suc k), ob\<lparr>ob_observed := c'\<rparr>)"
    "al_objects ?l2 = (al_objects l)(a \<mapsto> (Suc (Suc k), ob\<lparr>ob_observed := c'\<rparr>))" "ol_items ?l2 = ol_items l"
    using assms by (simp_all add: observed_clone_def observed_set_def)
  show thesis
    by (rule that [of "observed_drop a ?l2" c'])
      (use assms r l1 l2 in \<open>simp_all add: weak_upgrade_def observed_io_def observed_drop_def\<close>)
qed

lemma shutdown_pending_ok:
  assumes "counted l"
  shows "\<exists>l'. shutdown_pending (ci_shutdown io) pending l = Some (Ok (), l') \<and> streams_down down (set pending) l l'"
  using assms
proof (induction pending arbitrary: l)
  case Nil
  show ?case by (simp add: streams_down_def same_or_down_refl)
next
  case (Cons a pending)
  show ?case
  proof (cases "al_objects l a")
    case None
    obtain l' where l': "shutdown_pending (ci_shutdown io) pending l = Some (Ok (), l')" "streams_down down (set pending) l l'"
      using Cons.IH [of l, OF Cons.prems] by blast
    have "same_or_down down (b \<in> set (a # pending)) (al_objects l b) (al_objects l' b)" for b
    proof -
      have h: "same_or_down down (b \<in> set pending) (al_objects l b) (al_objects l' b)"
        using l'(2) by (simp add: streams_down_def)
      then show ?thesis using None by (cases "b = a") (auto simp: same_or_down_def)
    qed
    then show ?thesis using l' None by (simp add: weak_upgrade_def streams_down_def)
  next
    case (Some p)
    obtain c ob where p: "p = (c, ob)" by fastforce
    then obtain k where ob: "al_objects l a = Some (Suc k, ob)"
      using Cons.prems Some gr0_implies_Suc [of c] unfolding counted_def by blast
    obtain c' l1 where l1: "shutdown_pending (ci_shutdown io) (a # pending) l = shutdown_pending (ci_shutdown io) pending l1"
      "down c'" "al_objects l1 = (al_objects l)(a \<mapsto> (Suc k, ob\<lparr>ob_observed := c'\<rparr>))" "ol_items l1 = ol_items l"
      by (rule shutdown_pending_step [OF ob])
    have "counted l1"
      using Cons.prems l1(3) by (simp add: counted_def)
    from Cons.IH [of l1, OF this] obtain l' where l': "shutdown_pending (ci_shutdown io) pending l1 = Some (Ok (), l')"
      "streams_down down (set pending) l1 l'" by blast
    have "same_or_down down (b \<in> set (a # pending)) (al_objects l b) (al_objects l' b)" for b
    proof -
      have h: "same_or_down down (b \<in> set pending) (al_objects l1 b) (al_objects l' b)"
        using l'(2) by (simp add: streams_down_def)
      show ?thesis
        using h l1(2,3) ob by (cases "b = a") (auto simp: same_or_down_def split: option.splits if_splits)
    qed
    then show ?thesis using l1(1,4) l' by (simp add: streams_down_def)
  qed
qed

end

interpretation mem_closing: closing "mem_io k" "\<lambda>c. ms_in (cs_stream c)" "\<lambda>c. ms_out (cs_stream c)"
  "\<lambda>c. \<not> ms_done (cs_stream c)" "\<lambda>_. 0" "\<lambda>c. ms_done (cs_stream c)"
  by unfold_locales (simp add: mem_io_def cancellable_io_def cancellable_shutdown_def on_stream_def mem_os_def)

text \<open>A listener in memory: its environment has the peers that are waiting, and the flag.\<close>

definition mem_acceptor :: "((mem_socket list \<times> bool, 'p, mem_socket cancellable) serving, mem_socket, mem_socket cancellable) acceptor" where
  "mem_acceptor =
     \<lparr>ac_wait = (\<lambda>s. Some (Ok (if fst (sg_env s) = [] then [] else [event_readable 1]), s)),
      ac_accept = (\<lambda>s. case fst (sg_env s) of
          [] \<Rightarrow> Some (Err (io_error_from WouldBlock), s)
        | c # cs \<Rightarrow> Some (Ok c, s\<lparr>sg_env := (cs, snd (sg_env s))\<rparr>)),
      ac_modify = ret (),
      ac_build = (\<lambda>c. ret \<lparr>cs_stream = c, cs_read_timeout = None, cs_write_timeout = None\<rparr>),
      ac_stop = (\<lambda>s. snd (sg_env s))\<rparr>"

section \<open>The operations of \<^verbatim>\<open>Server\<close>\<close>

text \<open>
  What the system provides: binding the listener, the poller, the number of execution units,
  and threads. A thread is started with the arguments of \<^verbatim>\<open>accept_connections\<close>; a join
  gives what the thread returned, or the error of one that panicked. The flag that stops the
  loop is shared with the thread and is part of the environment.
\<close>

record ('r, 'b) accept_args =
  aa_timeouts :: timeouts
  aa_execunits :: nat
  aa_routes :: 'r
  aa_builder :: 'b

record ('e, 'h, 'a) system =
  sy_bind :: "string \<Rightarrow> ('e, unit, io_error) prog"
  sy_set_nonblocking :: "('e, unit, io_error) prog"
  sy_poller_new :: "('e, unit, io_error) prog"
  sy_poller_add :: "('e, unit, io_error) prog"
  sy_parallelism :: "('e, nat, io_error) prog"
  sy_spawn :: "'a \<Rightarrow> ('e, 'h, unit) prog"
  sy_set_stop :: "'e \<Rightarrow> 'e"
  sy_notify :: "('e, unit, io_error) prog"
  sy_join :: "'h \<Rightarrow> ('e, (unit, io_error) res, unit) prog"

record 'h server =
  sv_addr :: "string option"
  sv_handle :: "'h option"
  sv_poller :: bool
  sv_timeouts :: timeouts

definition server_from_timeouts :: "timeouts \<Rightarrow> 'h server" where
  "server_from_timeouts t = \<lparr>sv_addr = None, sv_handle = None, sv_poller = False, sv_timeouts = t\<rparr>"

definition default_timeouts :: timeouts where
  "default_timeouts = \<lparr>read_request_timeout = from_secs 30, write_response_timeout = from_secs 60\<rparr>"

definition server_new :: "'h server" where
  "server_new = server_from_timeouts default_timeouts"

definition on_env :: "('e, 'a, 'x) prog \<Rightarrow> ('h server \<times> 'e, 'a, 'x) prog" where
  "on_env m = (\<lambda>(v, e). case m e of None \<Rightarrow> None | Some (r, e') \<Rightarrow> Some (r, v, e'))"

definition server_start :: "('e, 'h, ('r, 'b) accept_args) system \<Rightarrow> string \<Rightarrow> 'r \<Rightarrow> 'b
    \<Rightarrow> ('h server \<times> 'e, unit, io_error) prog" where
  "server_start sy addr rts stream_builder = (\<lambda>(v, e).
     if sv_poller v then Some (Err (IoError Other ''server already started''), v, e)
     else and_then (on_env (sy_bind sy addr)) (\<lambda>_.
          and_then (on_env (unwrap (sy_set_nonblocking sy))) (\<lambda>_.
          and_then (on_env (unwrap (sy_poller_new sy))) (\<lambda>_.
          and_then (on_env (unwrap (sy_poller_add sy))) (\<lambda>_ (v1, e1).
            let v2 = v1\<lparr>sv_poller := True\<rparr> in
            case sy_parallelism sy e1 of
              None \<Rightarrow> None
            | Some (Panic, e2) \<Rightarrow> Some (Panic, v2, e2)
            | Some (r, e2) \<Rightarrow>
                (let execunits = (case r of Ok units \<Rightarrow> units | _ \<Rightarrow> 2) in
                 and_then (on_env (unwrap (sy_spawn sy \<lparr>aa_timeouts = sv_timeouts v2, aa_execunits = execunits,
                     aa_routes = rts, aa_builder = stream_builder\<rparr>)))
                   (\<lambda>handle (v3, e3).
                      Some (Ok (), v3\<lparr>sv_handle := Some handle, sv_addr := Some addr\<rparr>, e3)) (v2, e2)))))) (v, e))"

definition server_run :: "('e, 'h, ('r, 's \<Rightarrow> ('s cancellable, io_error) res option) accept_args) system
    \<Rightarrow> 's polled \<Rightarrow> string \<Rightarrow> 'r \<Rightarrow> ('h server \<times> 'e, unit, io_error) prog" where
  "server_run sy net addr rts = server_start sy addr rts (plain_builder net)"

definition server_run_tls :: "('e, 'h, ('r, 's \<Rightarrow> (('k \<times> 's) cancellable, io_error) res option) accept_args) system
    \<Rightarrow> ('k, 'f, 's) rustls \<Rightarrow> 's polled \<Rightarrow> ('s, unit, io_error) prog \<Rightarrow> string \<Rightarrow> 'r \<Rightarrow> private_key \<Rightarrow> certificate
    \<Rightarrow> ('h server \<times> 'e, unit, io_error) prog" where
  "server_run_tls sy rt net try_clone addr rts key cert = server_start sy addr rts (tls_builder rt net try_clone key cert)"

definition server_shutdown :: "('e, 'h, 'a) system \<Rightarrow> 'h server \<Rightarrow> ('e, unit, io_error) prog" where
  "server_shutdown sy v e =
     (case sv_handle v of
        None \<Rightarrow> Some (Err (IoError Other ''server not started''), e)
      | Some handle \<Rightarrow>
          if \<not> sv_poller v then Some (Panic, sy_set_stop sy e)
          else and_then (sy_notify sy) (\<lambda>_ e1.
            (case sy_join sy handle e1 of
               None \<Rightarrow> None
             | Some (Panic, e2) \<Rightarrow> Some (Panic, e2)
             | Some (Err _, e2) \<Rightarrow> Some (Err (IoError Other ''error waiting for accepting connections''), e2)
             | Some (Ok result, e2) \<Rightarrow>
                 Some (case result of Ok _ \<Rightarrow> Ok () | Err err \<Rightarrow> Err (IoError Other (io_msg err)) | Panic \<Rightarrow> Panic, e2)))
            (sy_set_stop sy e))"

definition server_wait :: "('e, 'h, 'a) system \<Rightarrow> 'h server \<Rightarrow> ('e, unit, io_error) prog" where
  "server_wait sy v e =
     (case sv_handle v of
        None \<Rightarrow> Some (Err (IoError Other ''server not started''), e)
      | Some handle \<Rightarrow>
          and_then (unwrap (sy_join sy handle)) of_res e)"

text \<open>The last turn of the loop: everything that is still tracked is shut down.\<close>

lemma loop_stops:
  assumes "closing io incoming outgoing up tries down" and "iteration_order drain_order"
    and "and_then (ac_wait ac) (accept_events it io rbd t run ac) s = Some (Ok (), s1)" and "ac_stop ac s1"
    and "serving_ok n hs s1"
  obtains l where "accept_loop drain_order it io rbd t run ac s = Some (Ok (), s1\<lparr>sg_streams := l\<rparr>)" "ol_items l = []"
    "\<forall>a c ob. al_objects (sg_streams s1) a = Some (c, ob) \<longrightarrow> (\<exists>ob'. al_objects l a = Some (c, ob') \<and> down (ob_observed ob'))"
proof -
  obtain pending l where d: "list_drain drain_order (sg_streams s1) = (pending, l)" by fastforce
  have inv: "objects_inv n hs (sg_streams s1)" "items_inv (sg_streams s1)" using assms(5) by (simp_all add: serving_ok_def)
  have live: "set pending = {a. al_objects (sg_streams s1) a \<noteq> None}"
    using list_drain_live [OF inv assms(2) d] by blast
  have l: "al_objects l = al_objects (sg_streams s1)" "ol_items l = []" using d by (auto simp: list_drain_def)
  have "counted l" using objects_invD [OF inv(1)] unfolding counted_def l by blast
  from closing.shutdown_pending_ok [OF assms(1), of l, OF this] obtain l' where
    l': "shutdown_pending (ci_shutdown io) pending l = Some (Ok (), l')" "streams_down down (set pending) l l'"
    by blast
  have "\<exists>ob'. al_objects l' a = Some (c, ob') \<and> down (ob_observed ob')"
    if ob: "al_objects (sg_streams s1) a = Some (c, ob)" for a c ob
  proof -
    have "al_objects l a = Some (c, ob)" "a \<in> set pending" using ob live by (auto simp: l)
    from streams_downD [OF l'(2) this] show ?thesis by blast
  qed
  moreover have "ol_items l' = []" using l'(2) l(2) by (simp add: streams_down_def)
  ultimately show thesis
    using assms(3,4) d l'(1) by (intro that [of l']) (subst accept_loop.simps, simp_all add: stop_streams_def)
qed

section \<open>Properties\<close>



text \<open>
  Once the server is told to stop, the turn of the loop during which it notices is the last:
  the loop returns without an error, and every stream that a conversation still refers to has
  been shut down, whatever it was doing.
\<close>

theorem stop_ends_loop:
  assumes "closing io incoming outgoing up tries down" and "iteration_order drain_order"
    and "and_then (ac_wait ac) (accept_events it io rbd t run ac) s = Some (Ok (), s1)" and "ac_stop ac s1"
    and "serving_ok n hs s1"
  shows "\<exists>s'. accept_loop drain_order it io rbd t run ac s = Some (Ok (), s') \<and> list_len (sg_streams s') = 0
    \<and> (\<forall>a. a \<in># hs \<longrightarrow> (\<exists>ob. al_objects (sg_streams s') a = Some (count hs a, ob) \<and> down (ob_observed ob)))"
proof -
  obtain l where l: "accept_loop drain_order it io rbd t run ac s = Some (Ok (), s1\<lparr>sg_streams := l\<rparr>)" "ol_items l = []"
    "\<forall>a c ob. al_objects (sg_streams s1) a = Some (c, ob) \<longrightarrow> (\<exists>ob'. al_objects l a = Some (c, ob') \<and> down (ob_observed ob'))"
    by (rule loop_stops [OF assms])
  have inv: "objects_inv n hs (sg_streams s1)" using assms(5) by (simp add: serving_ok_def)
  have "\<exists>ob. al_objects l a = Some (count hs a, ob) \<and> down (ob_observed ob)" if "a \<in># hs" for a
  proof -
    have "al_objects (sg_streams s1) a \<noteq> None" using that objects_inv_handle [OF inv] by blast
    then obtain c ob where ob: "al_objects (sg_streams s1) a = Some (c, ob)" by auto
    moreover have "c = count hs a" using ob inv by (simp add: objects_inv_def strong_count_def)
    ultimately show ?thesis using l(3) by blast
  qed
  then show ?thesis using l(1,2) by (simp add: list_len_def)
qed

theorem stop_ends_loop_witness:
  "\<exists>s'. accept_loop rev rev (mem_io 3) cursor_read default_timeouts (\<lambda>a p. Some (Ok (), p)) mem_acceptor
        \<lparr>sg_env = ([], True), sg_pool = (),
         sg_streams = snd (list_track \<lparr>cs_stream = \<lparr>ms_in = [], ms_out = [], ms_done = False\<rparr>, cs_read_timeout = None,
           cs_write_timeout = None\<rparr> list_new)\<rparr> = Some (Ok (), s')
     \<and> (\<exists>ob. al_objects (sg_streams s') 0 = Some (1, ob) \<and> ms_done (cs_stream (ob_observed ob)))"
proof -
  let ?c = "\<lparr>cs_stream = \<lparr>ms_in = [], ms_out = [], ms_done = False\<rparr>, cs_read_timeout = None, cs_write_timeout = None\<rparr>"
  let ?l = "snd (list_track ?c list_new)"
  let ?s = "\<lparr>sg_env = ([], True), sg_pool = (), sg_streams = ?l\<rparr>"
  have t: "list_track ?c list_new = (0, ?l)" by (simp add: list_track_def list_new_def)
  have ok: "serving_ok 1 {#0#} ?s"
    using list_track_inv [OF _ _ _ t, of 0 "{#}"] list_new_inv by (auto simp: serving_ok_def)
  have turn: "and_then (ac_wait mem_acceptor) (accept_events rev (mem_io 3) cursor_read default_timeouts
      (\<lambda>a p. Some (Ok (), p)) mem_acceptor) ?s = Some (Ok (), ?s)" and stop: "ac_stop mem_acceptor ?s"
    by (simp_all add: mem_acceptor_def and_then_def)
  from stop_ends_loop [OF mem_closing.closing_axioms [of 3] iteration_order_rev turn stop ok]
  show ?thesis by (metis count_single union_single_eq_member add_mset_add_single)
qed

text \<open>A failed \<^verbatim>\<open>accept\<close> returns from the loop, with the events before it handled.\<close>

lemma accept_events_append:
  "accept_events it io rbd t run ac (xs @ ys) =
     and_then (accept_events it io rbd t run ac xs) (\<lambda>_. accept_events it io rbd t run ac ys)"
proof (induction xs)
  case (Cons x xs)
  then show ?case
    by (simp add: fun_eq_iff and_then_def split: option.split res.split prod.split)
qed (simp add: fun_eq_iff and_then_def ret_def)

lemma accept_error_loop:
  assumes "ac_wait ac s = Some (Ok (evts @ evt # rest), s1)"
    and "accept_events it io rbd t run ac evts s1 = Some (Ok (), s2)"
    and "ev_key evt = 1" and "ac_accept ac s2 = Some (Err e, s3)"
  shows "accept_loop drain_order it io rbd t run ac s = Some (Err e, s3)"
proof -
  have "accept_events it io rbd t run ac (evts @ evt # rest) s1 = Some (Err e, s3)"
    using assms(2-4) by (simp add: accept_events_append and_then_def accept_event_def)
  then show ?thesis using assms(1) by (subst accept_loop.simps) (simp add: and_then_def)
qed

text \<open>
  The life of a server: it can be started once, and keeps its time-outs; an address that
  cannot be bound is an error after which it can still be started; a server that was not started
  can be neither shut down nor waited for; a started one is shut down with what its thread
  returned.
\<close>

theorem server_lifecycle:
  "(sv_poller v \<longrightarrow> server_start sy addr rts sb (v, e) = Some (Err (IoError Other ''server already started''), v, e))
   \<and> (\<not> sv_poller v \<and> sy_bind sy addr e = Some (Err x, e1) \<longrightarrow> server_start sy addr rts sb (v, e) = Some (Err x, v, e1))
   \<and> (server_start sy addr rts sb (v, e) = Some (Ok (), v1, e2) \<longrightarrow>
        \<not> sv_poller v \<and> sv_poller v1 \<and> sv_handle v1 \<noteq> None \<and> sv_addr v1 = Some addr \<and> sv_timeouts v1 = sv_timeouts v)
   \<and> (sv_handle v = None \<longrightarrow>
        server_shutdown sy v e = Some (Err (IoError Other ''server not started''), e)
        \<and> server_wait sy v e = Some (Err (IoError Other ''server not started''), e))
   \<and> (sv_handle v = Some h \<and> sv_poller v \<and> sy_notify sy (sy_set_stop sy e) = Some (Ok (), e1)
        \<and> sy_join sy h e1 = Some (Ok (Ok ()), e2) \<longrightarrow> server_shutdown sy v e = Some (Ok (), e2))"
  by (auto simp: server_start_def server_shutdown_def server_wait_def on_env_def and_then_def unwrap_def Let_def
      split: option.splits prod.splits res.splits if_splits)

text \<open>A system for the witness: the thread of the server returns at once.\<close>

definition calm_system :: "(bool, nat, (unit, unit) accept_args) system" where
  "calm_system =
     \<lparr>sy_bind = (\<lambda>addr. ret ()), sy_set_nonblocking = ret (), sy_poller_new = ret (), sy_poller_add = ret (),
      sy_parallelism = fail (io_error_from Other), sy_spawn = (\<lambda>args. ret (aa_execunits args)), sy_set_stop = (\<lambda>_. True),
      sy_notify = ret (), sy_join = (\<lambda>h. ret (Ok ()))\<rparr>"

theorem server_lifecycle_witness:
  "\<exists>v. server_start calm_system ''localhost:80'' () () (server_new, False) = Some (Ok (), v, False)
     \<and> sv_addr v = Some ''localhost:80''
     \<and> server_start calm_system ''localhost:81'' () () (v, False)
         = Some (Err (IoError Other ''server already started''), v, False)
     \<and> server_shutdown calm_system v False = Some (Ok (), True)"
proof -
  obtain v :: "nat server" where v: "server_start calm_system ''localhost:80'' () () (server_new, False) = Some (Ok (), v, False)"
    "sv_handle v = Some 2"
    by (simp add: server_start_def server_new_def server_from_timeouts_def calm_system_def on_env_def and_then_def
        unwrap_def)
  note life = server_lifecycle
  have "sv_poller v" "sv_addr v = Some ''localhost:80''"
    using life [where v = server_new and sy = calm_system and addr = "''localhost:80''" and e = False
        and ?v1.0 = v and ?e2.0 = False] v(1) by blast+
  moreover have "server_start calm_system ''localhost:81'' () () (v, False)
      = Some (Err (IoError Other ''server already started''), v, False)"
    using life [where v = v and sy = calm_system and addr = "''localhost:81''" and e = False] calculation(1) by blast
  moreover have "server_shutdown calm_system v False = Some (Ok (), True)"
    using life [where v = v and sy = calm_system and e = False and ?e1.0 = True and ?e2.0 = True and h = 2]
      v(2) calculation(1) by (simp add: calm_system_def)
  ultimately show ?thesis using v(1) by blast
qed

end
