(* ===== verification/Handlers.thy ===== *)
theory Handlers
  imports Server_Connection
begin

text \<open>
  \<^verbatim>\<open>wruster_handlers/src/lib.rs\<close>: the handler that serves the files of a directory, and
  the middleware that logs. The file system and the \<^verbatim>\<open>mime_guess\<close> crate are parameters.
\<close>

section \<open>The handlers\<close>

record ('f, 'm) files =
  fl_canonicalize :: "string \<Rightarrow> (string, io_error) res"
  fl_metadata_len :: "string \<Rightarrow> (u64, io_error) res"
  fl_open :: "string \<Rightarrow> ('f, io_error) res"
  fl_guess_mime :: "string \<Rightarrow> 'm"

definition file_error_response :: "io_error \<Rightarrow> ('m, 'f) response" where
  "file_error_response err =
     (if io_kind err = NotFound then response_from_status NotFoundStatus
      else response_from_status InternalServerError)"

text \<open>The answer for the file at a path.\<close>

definition file_response :: "'m externals \<Rightarrow> ('f, 'm) files \<Rightarrow> string \<Rightarrow> (('m, 'f) response, unit) res" where
  "file_response ext fl path =
     (case fl_metadata_len fl path of
        Panic \<Rightarrow> Panic
      | Err err \<Rightarrow> Ok (file_error_response err)
      | Ok len \<Rightarrow>
          (case fl_open fl path of
             Panic \<Rightarrow> Panic
           | Err err \<Rightarrow> Ok (file_error_response err)
           | Ok content \<Rightarrow>
               (let mime_type = fl_guess_mime fl path;
                    hs = headers_add \<lparr>hd_name = ''Content-Length'', hd_value = show_nat (unat len)\<rparr> headers_new;
                    hs' = headers_add \<lparr>hd_name = ''Content-Type'', hd_value = mime_text ext mime_type\<rparr> hs
                in Ok \<lparr>rs_status = OK, rs_headers = hs', rs_body = Some (body_new (Some mime_type) len content)\<rparr>)))"

definition serve_static :: "'m externals \<Rightarrow> ('f, 'm) files \<Rightarrow> string \<Rightarrow> ('m, 'b) request
    \<Rightarrow> (('m, 'f) response, unit) res" where
  "serve_static ext fl dir q =
     (case fl_canonicalize fl dir of
        Ok base_path \<Rightarrow>
          (let uri = rq_uri q in
           if has_root uri \<and> length uri < 2 then Ok (response_from_status NotFoundStatus)
           else file_response ext fl (path_push base_path (if has_root uri then tl uri else uri)))
      | _ \<Rightarrow> Panic)"

definition static_handler :: "'m externals \<Rightarrow> ('f, 'm) files \<Rightarrow> string \<Rightarrow> ('m, 'b, 'f) handler" where
  "static_handler ext fl dir q = Some (serve_static ext fl dir q, q)"

text \<open>Formatting a request or a response for the log reads nothing of its body.\<close>

definition log_middleware :: "('m, 'b, 'rb) handler \<Rightarrow> ('m, 'b, 'rb) handler" where
  "log_middleware action q = (case action q of None \<Rightarrow> None | Some (r, q') \<Rightarrow> Some (r, q'))"

lemma log_middleware_id: "log_middleware action = action"
  by (auto simp: log_middleware_def fun_eq_iff split: option.split)

section \<open>Paths below a directory\<close>

lemma join_with_append:
  "xs \<noteq> [] \<Longrightarrow> ys \<noteq> [] \<Longrightarrow> join_with d (xs @ ys) = join_with d xs @ d # join_with d ys"
proof (induction d xs rule: join_with.induct)
  case (2 d p)
  then show ?case by (cases ys) auto
qed auto

lemma join_with_root:
  assumes "st \<noteq> []" and "list_all normal_segment st"
  shows "\<not> has_root (join_with slash st)" and "join_with slash st \<noteq> []"
proof -
  obtain s ss where st: "st = s # ss" using assms(1) by (cases st) auto
  then obtain c cs where s: "s = c # cs" "c \<noteq> slash"
    using assms(2) by (cases s) (auto simp: normal_segment_def)
  show "\<not> has_root (join_with slash st)" "join_with slash st \<noteq> []"
    by (cases ss; simp add: st s has_root_def)+
qed

lemma push_below:
  assumes "list_all normal_segment bs" and "st \<noteq> []" and "list_all normal_segment st"
  shows "path_push (canonical bs) (tl (canonical st)) = canonical (bs @ st)"
proof (cases "bs = []")
  case True
  then show ?thesis using join_with_root [OF assms(2,3)] by (simp add: path_push_def canonical_def)
next
  case False
  then have "normal_segment (last bs)" using assms(1) by (simp add: list_all_iff)
  then have "last (join_with slash bs) \<noteq> slash" "join_with slash bs \<noteq> []"
    using join_with_last [of bs slash] normal_last False by fastforce+
  then show ?thesis
    using join_with_root [OF assms(2,3)] join_with_append [OF False assms(2)]
    by (simp add: path_push_def canonical_def)
qed

section \<open>The static handler below its directory\<close>

lemma static_handler_below:
  assumes "fl_canonicalize fl dir = Ok (canonical bs)" and "list_all normal_segment bs"
    and "normalize (rq_uri q) = Ok path" and "router_get_prefix rts path (rq_method q) = Some (static_handler ext fl dir)"
  shows "\<exists>st. list_all normal_segment st \<and> path = canonical st
    \<and> run_action rts q = Some (if st = [] then Ok (response_from_status NotFoundStatus)
        else file_response ext fl (canonical (bs @ st)), q\<lparr>rq_uri := path\<rparr>)"
proof -
  obtain st where st: "path = canonical st" "list_all normal_segment st"
    using normalize_OkE [OF assms(3)] by (metis list_all_iff)
  have "serve_static ext fl dir (q\<lparr>rq_uri := path\<rparr>) =
      (if st = [] then Ok (response_from_status NotFoundStatus) else file_response ext fl (canonical (bs @ st)))"
  proof (cases "st = []")
    case True
    then show ?thesis using assms(1) st(1) by (simp add: serve_static_def canonical_def has_root_def)
  next
    case False
    then have "\<not> length path < 2" using join_with_root(2) [OF _ st(2)] by (simp add: st(1) canonical_def Suc_le_eq not_less)
    then show ?thesis
      using False assms(1) st push_below [OF assms(2) False st(2)] by (simp add: serve_static_def Let_def)
  qed
  then have "run_action rts q = Some (if st = [] then Ok (response_from_status NotFoundStatus)
        else file_response ext fl (canonical (bs @ st)), q\<lparr>rq_uri := path\<rparr>)"
    using assms(3,4) by (simp add: run_action_def static_handler_def)
  with st show ?thesis by blast
qed

text \<open>A directory in memory, with one file.\<close>

definition mem_files :: "(byte list, string) files" where
  "mem_files =
     \<lparr>fl_canonicalize = (\<lambda>_. Ok ''/srv''),
      fl_metadata_len = (\<lambda>p. if p = ''/srv/a'' then Ok 4 else Err (io_error_from NotFound)),
      fl_open = (\<lambda>p. Ok ''data''), fl_guess_mime = (\<lambda>_. ''text/plain'')\<rparr>"

end
