(* ===== verification/Programs.thy ===== *)
theory Programs
  imports Server Handlers
begin

text \<open>
  The two programs of the repository: \<^verbatim>\<open>wrusdummy\<close>, which answers the routes of a
  configuration file, and \<^verbatim>\<open>wrustatic\<close>, which serves a directory, over HTTP or TLS.
  Parsing the command line of \<^verbatim>\<open>wrustatic\<close> (\<^verbatim>\<open>clap\<close>) and YAML
  (\<^verbatim>\<open>serde_yaml\<close>) are parameters. A program is a program over the environment of
  the server whose value is its exit code.
\<close>

section \<open>Exit codes\<close>

text \<open>\<^verbatim>\<open>unwrap_or_else\<close> with a handler that logs the error and exits with 1.\<close>

definition or_exit :: "('e, 'a, 'x) prog \<Rightarrow> ('a \<Rightarrow> ('e, nat, unit) prog) \<Rightarrow> ('e, nat, unit) prog" where
  "or_exit m k e =
     (case m e of
        None \<Rightarrow> None
      | Some (Ok x, e') \<Rightarrow> k x e'
      | Some (Err _, e') \<Rightarrow> Some (Ok 1, e')
      | Some (Panic, e') \<Rightarrow> Some (Panic, e'))"

text \<open>Both programs end by running a server and waiting for it.\<close>

definition run_and_wait :: "('e, 'h, 'a) system \<Rightarrow> timeouts \<Rightarrow> ('h server \<times> 'e, unit, io_error) prog \<Rightarrow> ('e, nat, unit) prog" where
  "run_and_wait sy t run e =
     (case run (server_from_timeouts t, e) of
        None \<Rightarrow> None
      | Some (Ok _, v, e') \<Rightarrow> or_exit (server_wait sy v) (\<lambda>_. ret 0) e'
      | Some (Err _, v, e') \<Rightarrow> Some (Ok 1, e')
      | Some (Panic, v, e') \<Rightarrow> Some (Panic, e'))"

section \<open>\<^verbatim>\<open>wrusdummy\<close>\<close>

record dummy_response =
  dr_status :: "16 word"
  dr_content :: string
  dr_content_type :: string

record dummy_route =
  dt_path :: string
  dt_method :: string
  dt_response :: dummy_response

type_synonym dummy_config = "(string, dummy_route) hash_map"

record 'f config_files =
  cf_open :: "string \<Rightarrow> ('f, io_error) res"
  cf_yaml :: "'f \<Rightarrow> (dummy_config, string) res"
  cf_yaml_str :: "string \<Rightarrow> (dummy_config, string) res"

definition routes_from_file :: "'f config_files \<Rightarrow> string \<Rightarrow> (dummy_config, io_error) res" where
  "routes_from_file cf path =
     (case cf_open cf path of
        Ok file \<Rightarrow> res_map_err (IoError InvalidData) (cf_yaml cf file)
      | Err e \<Rightarrow> Err e
      | Panic \<Rightarrow> Panic)"

definition routes_from_str :: "'f config_files \<Rightarrow> string \<Rightarrow> (dummy_config, string) res" where
  "routes_from_str cf s =
     (case cf_yaml_str cf s of
        Ok config \<Rightarrow> Ok config
      | Err e \<Rightarrow> Err e
      | Panic \<Rightarrow> Panic)"

definition serve_route :: "'m externals \<Rightarrow> string \<Rightarrow> 'm \<Rightarrow> status_code
    \<Rightarrow> ('m, 'b, byte list take_reader bufreader) handler" where
  "serve_route ext content mime_type status q =
     (let len = of_nat (length content);
          response = response_from_content ext content len mime_type
      in Some (Ok (response\<lparr>rs_status := status\<rparr>), q))"

text \<open>
  The loop over the configuration, in the order of its hash map. It ends with the router, or with
  the exit code of the program (\<open>Err\<close>); an empty path panics in \<^verbatim>\<open>Router::add\<close>.
\<close>

definition dummy_handler :: "'m externals \<Rightarrow> dummy_route
    \<Rightarrow> (string \<times> http_method \<times> ('m, 'b, byte list take_reader bufreader) handler, nat) res" where
  "dummy_handler ext route =
     (case method_from_str (dt_method route) of
        Err _ \<Rightarrow> Err 1
      | Panic \<Rightarrow> Panic
      | Ok method \<Rightarrow>
          (let status = status_from_usize (unat (dr_status (dt_response route))) in
           case mime_parse ext (dr_content_type (dt_response route)) of
             Err _ \<Rightarrow> Err 1
           | Panic \<Rightarrow> Panic
           | Ok mime_type \<Rightarrow>
               Ok (dt_path route, method,
                   log_middleware (serve_route ext (dr_content (dt_response route)) mime_type status))))"

fun dummy_routes :: "'m externals \<Rightarrow> dummy_config \<Rightarrow> ('m, 'b, byte list take_reader bufreader) handler router
    \<Rightarrow> (('m, 'b, byte list take_reader bufreader) handler router, nat) res" where
  "dummy_routes ext [] r = Ok r"
| "dummy_routes ext ((name, route) # config) r =
     (case dummy_handler ext route of
        Err exit_code \<Rightarrow> Err exit_code
      | Panic \<Rightarrow> Panic
      | Ok (path, method, handler) \<Rightarrow>
          (case router_add path method handler r of
             None \<Rightarrow> Panic
           | Some r' \<Rightarrow> dummy_routes ext config r'))"

definition dummy_main :: "('e, 'h, (('m, 'b, byte list take_reader bufreader) handler router,
        's \<Rightarrow> ('s cancellable, io_error) res option) accept_args) system
    \<Rightarrow> 's polled \<Rightarrow> 'm externals \<Rightarrow> 'f config_files \<Rightarrow> string list \<Rightarrow> ('e, nat, unit) prog" where
  "dummy_main sy net ext cf args e =
     (if length args \<noteq> 3 then Some (Ok 1, e)
      else or_exit (of_res (routes_from_file cf (args ! 2))) (\<lambda>config.
           case dummy_routes ext config router_new of
             Err exit_code \<Rightarrow> ret exit_code
           | Panic \<Rightarrow> panic
           | Ok r \<Rightarrow> run_and_wait sy \<lparr>read_request_timeout = from_secs 5, write_response_timeout = from_secs 5\<rparr>
               (server_run sy net (args ! 1) r)) e)"

section \<open>\<^verbatim>\<open>wrustatic\<close>\<close>

text \<open>The options that \<^verbatim>\<open>clap\<close> parses; each of the last two requires the other.\<close>

record cli =
  cli_addres :: string
  cli_directory :: string
  cli_tls_private :: "string option"
  cli_tls_cert :: "string option"

definition static_routes :: "'m externals \<Rightarrow> ('f, 'm) files \<Rightarrow> string \<Rightarrow> ('m, 'b, 'f) handler router option" where
  "static_routes ext fl dir = router_add ''/'' GET (log_middleware (static_handler ext fl dir)) router_new"

text \<open>
  The system is given at the two types of stream builder: \<open>sy\<close> for plain streams,
  \<open>sy_tls\<close> for TLS.
\<close>

definition static_main :: "('e, 'h, (('m, 'b, 'f) handler router, 's \<Rightarrow> ('s cancellable, io_error) res option) accept_args) system
    \<Rightarrow> ('e, 'h, (('m, 'b, 'f) handler router, 's \<Rightarrow> (('k \<times> 's) cancellable, io_error) res option) accept_args) system
    \<Rightarrow> ('k, 'c, 's) rustls \<Rightarrow> 's polled \<Rightarrow> ('s, unit, io_error) prog \<Rightarrow> pem_files
    \<Rightarrow> 'm externals \<Rightarrow> ('f, 'm) files \<Rightarrow> cli \<Rightarrow> ('e, nat, unit) prog" where
  "static_main sy sy_tls rt net try_clone pf ext fl c e =
     (case static_routes ext fl (cli_directory c) of
        None \<Rightarrow> Some (Panic, e)
      | Some rts \<Rightarrow>
          (let timeouts = \<lparr>read_request_timeout = from_secs 10, write_response_timeout = from_secs 10\<rparr> in
           case cli_tls_cert c of
             None \<Rightarrow> run_and_wait sy timeouts (server_run sy net (cli_addres c) rts) e
           | Some cert_file \<Rightarrow>
               or_exit (of_res (certificate_read_from pf cert_file)) (\<lambda>cert.
               case cli_tls_private c of
                 None \<Rightarrow> panic
               | Some private_key_file \<Rightarrow>
                   or_exit (of_res (private_key_read_from pf private_key_file)) (\<lambda>key.
                   run_and_wait sy_tls timeouts (server_run_tls sy_tls rt net try_clone (cli_addres c) rts key cert))) e))"

section \<open>The routes of the programs\<close>

lemma router_get_prefix_exact:
  assumes "router_get r path m = Some h"
  shows "router_get_prefix r path m = Some h"
proof -
  obtain mh where mh: "trie_get (routes r) path = Some mh" "get_action mh m = Some h"
    using assms by (auto simp: router_get_def split: option.splits)
  then have "trie_get_prefix (routes r) path = Some mh"
    unfolding trie_get_prefix_iff by (intro exI [of _ "length path"]) (simp add: longest_match_def)
  with mh show ?thesis by (simp add: router_get_prefix_def)
qed

lemma map_of_unique:
  assumes "(k, v) \<in> set xs" and "\<And>w. (k, w) \<in> set xs \<Longrightarrow> w = v"
  shows "map_of xs k = Some v"
proof -
  obtain w where "map_of xs k = Some w" using weak_map_of_SomeI [OF assms(1)] by blast
  with assms(2) [OF map_of_SomeD [OF this]] show ?thesis by simp
qed

lemma dummy_routes_all:
  fixes r :: "('m, 'b, byte list take_reader bufreader) handler router"
  shows "dummy_routes ext config r = Ok r' \<longleftrightarrow>
     (\<exists>entries. map (\<lambda>(name, route). dummy_handler ext route) config = map Ok entries \<and> router_add_all entries r = Some r')"
proof (induction ext config r rule: dummy_routes.induct)
  case (2 ext name route config r)
  show ?case
  proof (cases "dummy_handler ext route :: (string \<times> http_method \<times> ('m, 'b, byte list take_reader bufreader) handler, nat) res")
    case (Ok x)
    obtain path m h where x: "x = (path, m, h)" by (metis prod_cases3)
    show ?thesis
    proof (cases "router_add path m h r")
      case None
      with Ok x show ?thesis by (auto simp: Cons_eq_map_conv)
    next
      case (Some r1)
      with 2 [OF Ok [unfolded x] refl refl Some] Ok x show ?thesis
        by (auto simp: Cons_eq_map_conv)
    qed
  qed (auto simp: Cons_eq_map_conv)
qed simp

lemma dummy_routes_append:
  "dummy_routes ext (xs @ ys) r =
     (case dummy_routes ext xs r of Ok r' \<Rightarrow> dummy_routes ext ys r' | Err c \<Rightarrow> Err c | Panic \<Rightarrow> Panic)"
  by (induction ext xs r rule: dummy_routes.induct) (auto split: res.split option.split)

text \<open>The entry of the configuration that answers a path and method that no other entry has.\<close>

definition only_route :: "dummy_config \<Rightarrow> dummy_route \<Rightarrow> bool" where
  "only_route config route \<longleftrightarrow> (\<forall>(name, other) \<in> set config.
     dt_path other = dt_path route \<and> method_from_str (dt_method other) = method_from_str (dt_method route)
     \<longrightarrow> other = route)"

lemma dummy_handler_OkD:
  assumes "dummy_handler ext route = Ok (path, m, h)"
  obtains mime where "path = dt_path route" "method_from_str (dt_method route) = Ok m"
    "mime_parse ext (dr_content_type (dt_response route)) = Ok mime"
    "h = serve_route ext (dr_content (dt_response route)) mime (status_from_usize (unat (dr_status (dt_response route))))"
  using assms by (auto simp: dummy_handler_def log_middleware_id Let_def split: res.splits)

lemma dummy_routes_lookup:
  fixes rts :: "('m, 'b, byte list take_reader bufreader) handler router"
  assumes "dummy_routes ext config router_new = Ok rts" and "(name, route) \<in> set config" and "only_route config route"
    and "method_from_str (dt_method route) = Ok m"
  obtains mime where "mime_parse ext (dr_content_type (dt_response route)) = Ok mime"
    "router_get rts (dt_path route) m = Some (serve_route ext (dr_content (dt_response route)) mime
        (status_from_usize (unat (dr_status (dt_response route)))))"
proof -
  let ?H = "\<lambda>route. dummy_handler ext route :: (string \<times> http_method \<times> ('m, 'b, byte list take_reader bufreader) handler, nat) res"
  obtain entries where e: "map (\<lambda>(name, route). ?H route) config = map Ok entries"
    "router_add_all entries router_new = Some rts"
    using assms(1) by (auto simp: dummy_routes_all)
  have mem: "x \<in> set entries \<longleftrightarrow> (\<exists>n r. (n, r) \<in> set config \<and> ?H r = Ok x)" for x
  proof -
    have "x \<in> set entries \<longleftrightarrow> (Ok x :: (_, nat) res) \<in> set (map Ok entries)" by (simp add: image_iff)
    then show ?thesis unfolding e(1) [symmetric] by (force simp: image_iff)
  qed
  have "?H route \<in> set (map (\<lambda>(name, route). ?H route) config)" using assms(2) by force
  then obtain path m' h where x: "?H route = Ok (path, m', h)" by (auto simp: e(1))
  then have mp: "path = dt_path route" "m' = m" using assms(4) by (auto elim: dummy_handler_OkD)
  have "map_of (rev (map (\<lambda>(p, m, h). ((p, m), h)) entries)) (dt_path route, m) = Some h"
  proof (rule map_of_unique)
    show "((dt_path route, m), h) \<in> set (rev (map (\<lambda>(p, m, h). ((p, m), h)) entries))"
      using mem [of "(path, m', h)"] x mp assms(2) by force
    fix h' assume "((dt_path route, m), h') \<in> set (rev (map (\<lambda>(p, m, h). ((p, m), h)) entries))"
    then obtain n r where r: "(n, r) \<in> set config" "?H r = Ok (dt_path route, m, h')" using mem by force
    then have "r = route"
      using assms(3,4) unfolding only_route_def by (auto elim!: dummy_handler_OkD)
    with r(2) x show "h' = h" by simp
  qed
  then have "router_get rts (dt_path route) m = Some h"
    using router_add_all_get [OF e(2) router_new_inv, of "dt_path route" m] by simp
  with x mp show thesis using that by (auto elim!: dummy_handler_OkD)
qed

text \<open>The body of a response from content delivers that content.\<close>

lemmas content_source = eof_source.buffered_eof_source [OF cursor.wide_take_source]

lemma serve_route_answer:
  assumes "length content < 2 ^ 64"
    and resp_def: "resp = (response_from_content ext content (of_nat (length content)) mime)\<lparr>rs_status := status\<rparr>"
  shows "answers io (serve_route ext content mime status) resp q"
    and "\<forall>b. rs_body resp = Some b \<longrightarrow> True \<and> length (tk_inner (br_src (body_content b))) \<le> tk_limit (br_src (body_content b))"
    and "response_text it (br_content tk_inner) resp
      = status_line_text status @ headers_text (it [(''Content-Length'', [show_nat (length content)]), (''Content-Type'', [mime_text ext mime])])
        @ content"
proof -
  have len: "unat (of_nat (length content) :: u64) = length content" using assms(1) by (simp add: unat_of_nat_u64)
  show "answers io (serve_route ext content mime status) resp q"
    using answers_at_once [of io resp q] by (simp add: answers_def serve_route_def resp_def Let_def)
  show "\<forall>b. rs_body resp = Some b \<longrightarrow> True \<and> length (tk_inner (br_src (body_content b))) \<le> tk_limit (br_src (body_content b))"
    by (simp add: resp_def response_from_content_def body_new_def Let_def bufreader_new_def len)
  show "response_text it (br_content tk_inner) resp
      = status_line_text status @ headers_text (it [(''Content-Length'', [show_nat (length content)]), (''Content-Type'', [mime_text ext mime])])
        @ content"
    by (simp add: resp_def response_text_def response_from_content_def body_new_def Let_def len ensure_length_header_def
        body_bytes_def headers_add_def headers_new_def hm_insert_def hm_get_def)
qed

section \<open>Properties\<close>

text \<open>
  C11. \<^verbatim>\<open>wrusdummy\<close> from end to end: with the routes of a configuration, a well-formed
  request for the path and method of an entry (that no other entry has) is answered with exactly
  the status, the length, the type and the content that the entry gives, whatever the order of
  the hash map and however the bytes of the request arrive.
\<close>

theorem dummy_serves_config:
  assumes "connection io incoming outgoing up tries" and "up c"
    and "incoming c = request_text itq rl hs body @ rest" and "request_line_ok rl" and "headers_ok hs"
    and "iteration_order itq" and "request_framed ext hs body"
    and "0 < as_secs (read_request_timeout t)" and "0 < as_secs (write_response_timeout t)"
    and "dummy_routes ext config router_new = Ok rts" and "(name, route) \<in> set config" and "only_route config route"
    and "method_from_str (dt_method route) = Ok (rl_method rl)" and "normalize (rl_uri rl) = Ok (dt_path route)"
    and "length (dr_content (dt_response route)) < 2 ^ 64"
  shows "\<exists>mime c' lost. mime_parse ext (dr_content_type (dt_response route)) = Ok mime
    \<and> handle_connection ext it io (bufreader_read (take_read cursor_read)) rts t c = Some (Ok (persists (rl_version rl) hs), c')
    \<and> up c' \<and> rest = lost @ incoming c'
    \<and> outgoing c' = outgoing c @ status_line_text (status_from_usize (unat (dr_status (dt_response route))))
        @ headers_text (it [(''Content-Length'', [show_nat (length (dr_content (dt_response route)))]),
            (''Content-Type'', [mime_text ext mime])])
        @ dr_content (dt_response route)"
proof -
  let ?r = "dt_response route"
  obtain mime where mime: "mime_parse ext (dr_content_type ?r) = Ok mime"
    and get: "router_get rts (dt_path route) (rl_method rl)
      = Some (serve_route ext (dr_content ?r) mime (status_from_usize (unat (dr_status ?r))))"
    by (rule dummy_routes_lookup [OF assms(10-13)])
  note answer = serve_route_answer [OF assms(15) refl]
  from connection.request_served [where it = it, OF assms(1) content_source assms(2-9) assms(14)
      router_get_prefix_exact [OF get] answer(1,2)]
  show ?thesis using mime unfolding answer(3) by blast
qed

text \<open>
  \<^verbatim>\<open>wrusdummy\<close> checks its configuration before it listens: with anything but two
  arguments, with a configuration that cannot be read, or with an entry (the first that is not
  in order) whose method or content type does not parse, it exits with 1 and the system has been
  asked for nothing; an entry without a path panics. Otherwise the server is run on the given
  address, with time-outs of five seconds.
\<close>

theorem dummy_main_checks:
  "(length args \<noteq> 3 \<longrightarrow> dummy_main sy net ext cf args e = Some (Ok 1, e))
   \<and> (length args = 3 \<and> routes_from_file cf (args ! 2) = Err x \<longrightarrow> dummy_main sy net ext cf args e = Some (Ok 1, e))
   \<and> (length args = 3 \<and> routes_from_file cf (args ! 2) = Ok config \<and> dummy_routes ext config router_new = Ok rts \<longrightarrow>
        dummy_main sy net ext cf args e
          = run_and_wait sy \<lparr>read_request_timeout = from_secs 5, write_response_timeout = from_secs 5\<rparr>
              (server_run sy net (args ! 1) rts) e)
   \<and> (length args = 3 \<and> routes_from_file cf (args ! 2) = Ok (good @ (name, route) # rest)
        \<and> dummy_routes ext good router_new = Ok rts \<longrightarrow>
        (\<forall>m. method_from_str (dt_method route) = Err m \<longrightarrow> dummy_main sy net ext cf args e = Some (Ok 1, e))
        \<and> (\<forall>method m. method_from_str (dt_method route) = Ok method
             \<and> mime_parse ext (dr_content_type (dt_response route)) = Err m
             \<longrightarrow> dummy_main sy net ext cf args e = Some (Ok 1, e))
        \<and> (\<forall>method mime. method_from_str (dt_method route) = Ok method
             \<and> mime_parse ext (dr_content_type (dt_response route)) = Ok mime \<and> dt_path route = []
             \<longrightarrow> dummy_main sy net ext cf args e = Some (Panic, e)))"
  by (intro conjI impI allI; (elim conjE)?)
    (simp_all add: dummy_main_def or_exit_def dummy_routes_append dummy_handler_def Let_def router_add_empty)

text \<open>
  C12. \<^verbatim>\<open>wrustatic\<close> never leaves its directory and never fails: whatever the request is, it
  is answered, either with 404 (a method other than GET, the root of the site), with 500 (a path
  that climbs above the root), or from the one file whose path is that of the directory followed by
  ordinary segments (no dots, no separators); the request goes back with its body unread.
\<close>

theorem static_site_confined:
  assumes "static_routes ext fl dir = Some rts" and "fl_canonicalize fl dir = Ok (canonical bs)"
    and "list_all normal_segment bs"
  shows "\<exists>r q'. run_action rts q = Some (r, q') \<and> rq_body q' = rq_body q
    \<and> (case normalize (rq_uri q) of
         Ok path \<Rightarrow> (\<exists>st. path = canonical st \<and> list_all normal_segment st
            \<and> r = (if rq_method q \<noteq> GET \<or> st = [] then Ok (response_from_status NotFoundStatus)
                   else file_response ext fl (canonical (bs @ st))))
       | Err _ \<Rightarrow> r = Ok (response_from_status InternalServerError)
       | Panic \<Rightarrow> False)"
proof (cases "normalize (rq_uri q)")
  case (Ok path)
  obtain st where st: "path = canonical st" "list_all normal_segment st"
    using normalize_OkE [OF Ok] by (metis list_all_iff)
  have route: "router_get_prefix rts path (rq_method q) = (if rq_method q = GET then Some (static_handler ext fl dir) else None)"
    unfolding st(1) using root_route_prefix [of "static_handler ext fl dir" rts st] assms(1)
    by (simp add: static_routes_def log_middleware_id)
  show ?thesis
  proof (cases "rq_method q = GET")
    case True
    obtain st' where "list_all normal_segment st'" "path = canonical st'"
      "run_action rts q = Some (if st' = [] then Ok (response_from_status NotFoundStatus)
          else file_response ext fl (canonical (bs @ st')), q\<lparr>rq_uri := path\<rparr>)"
      using static_handler_below [OF assms(2,3) Ok] route True by auto
    with Ok True show ?thesis by auto
  next
    case False
    with Ok route st show ?thesis by (auto simp: run_action_def)
  qed
next
  case Panic
  then show ?thesis by (auto simp: normalize_eq split: if_splits option.splits)
qed (simp add: run_action_def)

text \<open>The witnesses of the three properties: a configuration with one route, and a site with one file.\<close>

definition mem_route :: dummy_route where
  "mem_route = \<lparr>dt_path = ''/a'', dt_method = ''GET'',
     dt_response = \<lparr>dr_status = 404, dr_content = ''gone'', dr_content_type = ''text/plain''\<rparr>\<rparr>"

theorem dummy_serves_config_witness:
  "\<exists>rts c'. dummy_routes text_externals [(''one'', mem_route)] router_new = Ok rts
     \<and> handle_connection text_externals rev (mem_io 3) (bufreader_read (take_read cursor_read)) rts
          \<lparr>read_request_timeout = from_secs 5, write_response_timeout = from_secs 5\<rparr>
          \<lparr>cs_stream = \<lparr>ms_in = request_text rev \<lparr>rl_method = GET, rl_uri = ''/a'', rl_version = ''HTTP/1.1''\<rparr>
              headers_new [], ms_out = [], ms_done = False\<rparr>, cs_read_timeout = None, cs_write_timeout = None\<rparr>
        = Some (Ok True, c')
     \<and> ms_out (cs_stream c') = status_line_text NotFoundStatus
          @ headers_text [(''Content-Type'', [''text/plain'']), (''Content-Length'', [''4''])] @ ''gone''"
proof -
  let ?rl = "\<lparr>rl_method = GET, rl_uri = ''/a'', rl_version = ''HTTP/1.1''\<rparr>"
  let ?c = "\<lparr>cs_stream = \<lparr>ms_in = request_text rev ?rl headers_new [], ms_out = [], ms_done = False\<rparr>,
    cs_read_timeout = None, cs_write_timeout = None\<rparr>"
  let ?t = "\<lparr>read_request_timeout = from_secs 5, write_response_timeout = from_secs 5\<rparr>"
  have get: "method_from_str ''GET'' = Ok GET" by code_simp
  obtain rts :: "(string, mem_socket cancellable request_reader take_reader, byte list take_reader bufreader) handler router"
    where rts: "dummy_routes text_externals [(''one'', mem_route)] router_new = Ok rts"
    by (simp add: dummy_handler_def mem_route_def get text_externals_def Let_def router_add_eq)
  have rl: "request_line_ok ?rl" by code_simp
  have fr: "request_framed text_externals headers_new []" by (simp add: request_framed_def)
  have only: "only_route [(''one'', mem_route)] mem_route" by (simp add: only_route_def)
  have pre: "\<not> ms_done (cs_stream ?c)" "ms_in (cs_stream ?c) = request_text rev ?rl headers_new [] @ []"
    "headers_ok headers_new" "(0::nat) < as_secs (read_request_timeout ?t)" "0 < as_secs (write_response_timeout ?t)"
    "(''one'', mem_route) \<in> set [(''one'', mem_route)]" "method_from_str (dt_method mem_route) = Ok (rl_method ?rl)"
    "normalize (rl_uri ?rl) = Ok (dt_path mem_route)" "length (dr_content (dt_response mem_route)) < 2 ^ 64"
    by (simp_all add: mem_route_def get normalize_a)
  have status: "status_from_usize (unat (dr_status (dt_response mem_route))) = NotFoundStatus"
    by (simp add: mem_route_def status_from_usize_def)
  let ?text = "\<lambda>mime. status_line_text (status_from_usize (unat (dr_status (dt_response mem_route))))
        @ headers_text (rev [(''Content-Length'', [show_nat (length (dr_content (dt_response mem_route)))]),
            (''Content-Type'', [mime_text text_externals mime])])
        @ dr_content (dt_response mem_route)"
  have "\<exists>mime c' lost. mime_parse text_externals (dr_content_type (dt_response mem_route)) = Ok mime
    \<and> handle_connection text_externals rev (mem_io 3) (bufreader_read (take_read cursor_read)) rts ?t ?c
        = Some (Ok (persists (rl_version ?rl) headers_new), c')
    \<and> \<not> ms_done (cs_stream c') \<and> [] = lost @ ms_in (cs_stream c')
    \<and> ms_out (cs_stream c') = ms_out (cs_stream ?c) @ ?text mime"
    by (rule dummy_serves_config [OF mem_conn.connection_axioms _ _ rl pre(3) iteration_order_rev fr pre(4,5) rts
      pre(6) only pre(7,8,9)]) (use pre(1,2) in simp_all)
  then obtain mime c' where r: "mime_parse text_externals (dr_content_type (dt_response mem_route)) = Ok mime"
    "handle_connection text_externals rev (mem_io 3) (bufreader_read (take_read cursor_read)) rts ?t ?c
        = Some (Ok (persists (rl_version ?rl) headers_new), c')" "ms_out (cs_stream c') = ms_out (cs_stream ?c) @ ?text mime"
    by blast
  have "show_nat (length (dr_content (dt_response mem_route))) = ''4''" by code_simp
  moreover have "mime = ''text/plain''" using r(1) by (simp add: mem_route_def text_externals_def)
  ultimately have "ms_out (cs_stream c') = status_line_text NotFoundStatus
      @ headers_text [(''Content-Type'', [''text/plain'']), (''Content-Length'', [''4''])] @ ''gone''"
    using r(3) unfolding status by (simp add: text_externals_def mem_route_def)
  moreover have "persists (rl_version ?rl) headers_new" by (simp add: persists_def)
  ultimately show ?thesis using rts r(2) by (intro exI [of _ rts] exI [of _ c'] conjI) simp_all
qed

text \<open>Its configuration file, and one with a method that there is not.\<close>

definition mem_config :: "dummy_config config_files" where
  "mem_config =
     \<lparr>cf_open = (\<lambda>path. if path = ''good'' then Ok [(''one'', mem_route)]
        else if path = ''bad'' then Ok [(''one'', mem_route), (''two'', mem_route\<lparr>dt_method := ''FETCH''\<rparr>)]
        else Err (io_error_from NotFound)),
      cf_yaml = Ok, cf_yaml_str = Err\<rparr>"

theorem dummy_main_checks_witness:
  "\<forall>sy :: ('e, 'h, ((string, 'b, byte list take_reader bufreader) handler router,
        's \<Rightarrow> ('s cancellable, io_error) res option) accept_args) system. \<forall>net e.
     dummy_main sy net text_externals mem_config [''wrusdummy'', ''localhost:80''] e = Some (Ok 1, e)
     \<and> dummy_main sy net text_externals mem_config [''wrusdummy'', ''localhost:80'', ''none''] e = Some (Ok 1, e)
     \<and> dummy_main sy net text_externals mem_config [''wrusdummy'', ''localhost:80'', ''bad''] e = Some (Ok 1, e)"
proof (intro allI conjI)
  fix sy :: "('e, 'h, ((string, 'b, byte list take_reader bufreader) handler router,
        's \<Rightarrow> ('s cancellable, io_error) res option) accept_args) system" and net e
  note checks = dummy_main_checks [where sy = sy and net = net and ext = text_externals and cf = mem_config and e = e]
  show "dummy_main sy net text_externals mem_config [''wrusdummy'', ''localhost:80''] e = Some (Ok 1, e)"
    using checks [of "[''wrusdummy'', ''localhost:80'']"] by simp
  have "routes_from_file mem_config ''none'' = Err (io_error_from NotFound)"
    by (simp add: routes_from_file_def mem_config_def)
  then show "dummy_main sy net text_externals mem_config [''wrusdummy'', ''localhost:80'', ''none''] e = Some (Ok 1, e)"
    using checks [of "[''wrusdummy'', ''localhost:80'', ''none'']" "io_error_from NotFound"] by simp
  have bad: "routes_from_file mem_config ''bad'' = Ok ([(''one'', mem_route)] @ (''two'', mem_route\<lparr>dt_method := ''FETCH''\<rparr>) # [])"
    by (simp add: routes_from_file_def mem_config_def)
  have get: "method_from_str ''GET'' = Ok GET" by code_simp
  obtain rts :: "(string, 'b, byte list take_reader bufreader) handler router"
    where rts: "dummy_routes text_externals [(''one'', mem_route)] router_new = Ok rts"
    by (simp add: dummy_handler_def mem_route_def get text_externals_def Let_def router_add_eq)
  obtain m where m: "method_from_str (dt_method (mem_route\<lparr>dt_method := ''FETCH''\<rparr>)) = Err m"
    by (simp add: method_from_str_def)
  show "dummy_main sy net text_externals mem_config [''wrusdummy'', ''localhost:80'', ''bad''] e = Some (Ok 1, e)"
    using checks [where args = "[''wrusdummy'', ''localhost:80'', ''bad'']" and good = "[(''one'', mem_route)]"
      and name = "''two''" and route = "mem_route\<lparr>dt_method := ''FETCH''\<rparr>" and rest = "[]" and rts = rts] bad rts m
    by simp
qed

theorem static_site_confined_witness:
  "\<exists>rts resp q'. static_routes text_externals mem_files ''.'' = Some rts
     \<and> run_action rts \<lparr>rq_method = GET, rq_uri = ''/x/../a'', rq_version = ''HTTP/1.1'', rq_headers = headers_new,
          rq_body = None :: (string, byte list) body option\<rparr> = Some (Ok resp, q')
     \<and> rs_status resp = OK"
proof -
  let ?q = "\<lparr>rq_method = GET, rq_uri = ''/x/../a'', rq_version = ''HTTP/1.1'', rq_headers = headers_new,
    rq_body = None :: (string, byte list) body option\<rparr>"
  obtain rts :: "(string, byte list, byte list) handler router" where rts: "static_routes text_externals mem_files ''.'' = Some rts"
    by (simp add: static_routes_def router_add_eq)
  have base: "fl_canonicalize mem_files ''.'' = Ok (canonical [''srv''])" "list_all normal_segment [''srv'']"
    by (simp_all add: mem_files_def canonical_def normal_segment_def)
  have path: "normalize (rq_uri ?q) = Ok ''/a''" by (simp add: normalize_eq has_root_def canonical_def)
  obtain r q' st where r: "run_action rts ?q = Some (r, q')" "''/a'' = canonical st"
    "r = (if rq_method ?q \<noteq> GET \<or> st = [] then Ok (response_from_status NotFoundStatus)
          else file_response text_externals mem_files (canonical ([''srv''] @ st)))"
    using static_site_confined [OF rts base, of ?q] unfolding path by auto
  have "canonical ([''srv''] @ st) = ''/srv'' @ canonical st" "st \<noteq> []"
    using r(2) by (cases st; simp add: canonical_def)+
  then have "canonical ([''srv''] @ st) = ''/srv/a''" "st \<noteq> []" using r(2) [symmetric] by simp_all
  then obtain resp where "r = Ok resp" "rs_status resp = OK"
    using r(3) by (simp add: file_response_def mem_files_def Let_def)
  with rts r(1) show ?thesis by auto
qed

end
