(* ===== verification/Connection_Pool.thy ===== *)
theory Connection_Pool
  imports Timeout_Stream Kv_Store
begin

text \<open>
  \<^verbatim>\<open>http/client/connection_pool.rs\<close>: the idle resources of a client, at most one per
  key, with the instant each was last used. The map is behind a lock that every operation holds
  from its first to its last step, so the operations are functions of the map; instants are
  nanoseconds. Where the code drains the map, the order is a parameter.
\<close>

section \<open>The pool\<close>

record 't pool_resource =
  pr_resource :: 't
  pr_last_used :: nat

type_synonym 't resources = "(string, 't pool_resource) hash_map"

type_synonym 't drain_order = "'t resources \<Rightarrow> 't resources"

definition max_resources :: nat where
  "max_resources = 100"

definition default_idle_timeout :: duration where
  "default_idle_timeout = from_secs 30"

definition resource_new :: "nat \<Rightarrow> 't \<Rightarrow> 't pool_resource" where
  "resource_new now r = \<lparr>pr_resource = r, pr_last_used = now\<rparr>"

text \<open>The empty pool, and the idle time-out that its worker is started with.\<close>

definition resource_pool_new :: "duration option \<Rightarrow> 't resources \<times> duration" where
  "resource_pool_new idle_timeout =
     ([], case idle_timeout of Some d \<Rightarrow> d | None \<Rightarrow> default_idle_timeout)"

definition pool_get :: "string \<Rightarrow> 't resources \<Rightarrow> 't pool_resource option \<times> 't resources" where
  "pool_get key m = (hm_get m key, hm_remove key m)"

text \<open>
  The loop of \<^verbatim>\<open>remove_lru\<close>: it puts every entry back and keeps the address and the
  instant of the least recently used one so far.
\<close>

fun lru_loop :: "'t resources \<Rightarrow> string \<Rightarrow> nat option \<Rightarrow> 't resources \<Rightarrow> string \<times> 't resources" where
  "lru_loop [] least_used_addr least_used_time m = (least_used_addr, m)"
| "lru_loop ((addr, conn) # conns) least_used_addr least_used_time m =
     (let m' = hm_insert addr conn m in
      case least_used_time of
        Some last_used \<Rightarrow>
          if pr_last_used conn < last_used then lru_loop conns addr (Some (pr_last_used conn)) m'
          else lru_loop conns least_used_addr least_used_time m'
      | None \<Rightarrow> lru_loop conns addr (Some (pr_last_used conn)) m')"

text \<open>The \<^verbatim>\<open>unreachable!()\<close> is a panic.\<close>

definition remove_lru :: "'t drain_order \<Rightarrow> ('t resources, unit, unit) prog" where
  "remove_lru it m =
     (let (least_used_addr, m') = lru_loop (it m) [] None [] in
      case hm_get m' least_used_addr of
        Some _ \<Rightarrow> Some (Ok (), hm_remove least_used_addr m')
      | None \<Rightarrow> Some (Panic, m'))"

definition pool_insert :: "'t drain_order \<Rightarrow> string \<Rightarrow> 't pool_resource \<Rightarrow> ('t resources, unit, unit) prog" where
  "pool_insert it key connection m =
     (if length m = max_resources then remove_lru it m
      else Some (Ok (), hm_insert key connection m))"

definition pool_drain :: "'t drain_order \<Rightarrow> 't resources \<Rightarrow> 't pool_resource list \<times> 't resources" where
  "pool_drain it m = (map snd (it m), [])"

section \<open>The worker that expires resources\<close>

text \<open>One turn of \<^verbatim>\<open>expire_connections\<close> at the instant \<open>now\<close>.\<close>

fun expire_loop :: "duration \<Rightarrow> nat \<Rightarrow> 't resources \<Rightarrow> 't resources \<Rightarrow> 't resources" where
  "expire_loop idle_timeout now [] m = m"
| "expire_loop idle_timeout now ((addr, conn) # conns) m =
     expire_loop idle_timeout now conns
       (if now - pr_last_used conn < idle_timeout then hm_insert addr conn m else m)"

definition expire_turn :: "'t drain_order \<Rightarrow> duration \<Rightarrow> nat \<Rightarrow> 't resources \<Rightarrow> 't resources" where
  "expire_turn it idle_timeout now m = expire_loop idle_timeout now (it m) []"

text \<open>
  The worker (\<^verbatim>\<open>expire_connections\<close>) step by step, with what it shares with its pool: the flag that stops it and the
  token of \<^verbatim>\<open>unpark\<close>, which makes the next \<^verbatim>\<open>park_timeout\<close> return at once. Parking
  also ends by itself (\<open>wake\<close>), after the cycle time or for no reason.
\<close>

datatype expire_worker = Checking | Expiring | Parked | Ended

record 't idle_pool =
  ip_resources :: "'t resources"
  ip_timeout :: duration
  ip_stop :: bool
  ip_token :: bool
  ip_worker :: expire_worker

definition idle_pool_new :: "duration option \<Rightarrow> 't idle_pool" where
  "idle_pool_new idle_timeout =
     (let (resources, timeout) = resource_pool_new idle_timeout in
      \<lparr>ip_resources = resources, ip_timeout = timeout, ip_stop = False, ip_token = False, ip_worker = Checking\<rparr>)"

definition worker_step :: "'t drain_order \<Rightarrow> nat \<Rightarrow> bool \<Rightarrow> 't idle_pool \<Rightarrow> 't idle_pool" where
  "worker_step it now wake p =
     (case ip_worker p of
        Checking \<Rightarrow> p\<lparr>ip_worker := if ip_stop p then Ended else Expiring\<rparr>
      | Expiring \<Rightarrow> p\<lparr>ip_resources := expire_turn it (ip_timeout p) now (ip_resources p), ip_worker := Parked\<rparr>
      | Parked \<Rightarrow> if ip_token p \<or> wake then p\<lparr>ip_token := False, ip_worker := Checking\<rparr> else p
      | Ended \<Rightarrow> p)"

text \<open>Waiting for the worker, which goes on without being woken by anything but the token.\<close>

partial_function (option) join_worker :: "'t drain_order \<Rightarrow> nat \<Rightarrow> 't idle_pool \<Rightarrow> 't idle_pool option" where
  "join_worker it now p =
     (if ip_worker p = Ended then Some p else join_worker it now (worker_step it now False p))"

text \<open>\<^verbatim>\<open>Drop for Pool\<close>.\<close>

definition idle_pool_drop :: "'t drain_order \<Rightarrow> nat \<Rightarrow> 't idle_pool \<Rightarrow> 't idle_pool option" where
  "idle_pool_drop it now p = join_worker it now (p\<lparr>ip_stop := True, ip_token := True\<rparr>)"

section \<open>Invariant and the effect of each operation\<close>

definition resources_ok :: "'t resources \<Rightarrow> bool" where
  "resources_ok m \<longleftrightarrow> hm_inv m \<and> length m \<le> max_resources"

definition least_used :: "'t resources \<Rightarrow> string \<Rightarrow> bool" where
  "least_used m addr \<longleftrightarrow> (\<exists>r. hm_get m addr = Some r
     \<and> (\<forall>a r'. hm_get m a = Some r' \<longrightarrow> pr_last_used r \<le> pr_last_used r'))"

text \<open>Putting all the entries back restores the map, and the address is that of an oldest one.\<close>

lemma lru_loop_insert: "snd (lru_loop conns a t m) = fold (\<lambda>(k, v). hm_insert k v) conns m"
  by (induction conns arbitrary: a t m) (auto simp: Let_def split: option.split)

lemma fold_insert_get:
  "hm_inv conns \<Longrightarrow> hm_get (fold (\<lambda>(k, v). hm_insert k v) conns m) = hm_get m ++ hm_get conns"
proof (induction conns arbitrary: m)
  case (Cons e conns)
  obtain k v where e: "e = (k, v)" by fastforce
  have inv: "hm_inv conns" "k \<notin> fst ` set conns" using Cons.prems by (auto simp: hm_inv_def e)
  then have "hm_get conns k = None" by (simp add: hm_get_def map_of_eq_None_iff)
  with Cons.IH [OF inv(1)] show ?case
    by (auto simp: e fun_eq_iff hm_get_simps map_add_def split: option.split)
qed simp

lemma fold_insert_inv: "hm_inv m \<Longrightarrow> hm_inv (fold (\<lambda>(k, v). hm_insert k v) conns m)"
  by (induction conns arbitrary: m) auto

definition oldest_of :: "'t resources \<Rightarrow> string \<Rightarrow> nat option \<Rightarrow> string \<Rightarrow> bool" where
  "oldest_of conns a t addr \<longleftrightarrow>
     (case t of
        None \<Rightarrow> (conns = [] \<and> addr = a) \<or> (\<exists>r. (addr, r) \<in> set conns \<and> (\<forall>(b, r') \<in> set conns. pr_last_used r \<le> pr_last_used r'))
      | Some u \<Rightarrow>
          (addr = a \<and> (\<forall>(b, r') \<in> set conns. u \<le> pr_last_used r'))
          \<or> (\<exists>r. (addr, r) \<in> set conns \<and> pr_last_used r \<le> u \<and> (\<forall>(b, r') \<in> set conns. pr_last_used r \<le> pr_last_used r')))"

lemma lru_loop_oldest: "oldest_of conns a t (fst (lru_loop conns a t m))"
proof (induction conns arbitrary: a t m)
  case Nil
  show ?case by (simp add: oldest_of_def split: option.split)
next
  case (Cons e conns)
  obtain k v where e: "e = (k, v)" by fastforce
  show ?case
  proof (cases t)
    case None
    with Cons.IH [of k "Some (pr_last_used v)" "hm_insert k v m"] show ?thesis
      by (fastforce simp: e oldest_of_def Let_def)
  next
    case (Some u)
    show ?thesis
    proof (cases "pr_last_used v < u")
      case True
      with Some Cons.IH [of k "Some (pr_last_used v)" "hm_insert k v m"] show ?thesis
        by (fastforce simp: e oldest_of_def Let_def)
    next
      case False
      with Some Cons.IH [of a t "hm_insert k v m"] show ?thesis
        by (fastforce simp: e oldest_of_def Let_def)
    qed
  qed
qed

lemma remove_lru_spec:
  assumes "iteration_order it" and "hm_inv m" and "m \<noteq> []"
  obtains addr m' where "remove_lru it m = Some (Ok (), m')" "least_used m addr" "hm_inv m'"
    "hm_get m' = (hm_get m)(addr := None)"
proof -
  obtain addr m1 where loop: "lru_loop (it m) [] None [] = (addr, m1)" by fastforce
  have it: "hm_inv (it m)" "hm_get (it m) = hm_get m" "set (it m) = set m"
    using assms iteration_order_get [OF assms(1,2)] iteration_order_set [OF assms(1), of m]
    by (auto simp: iteration_order_inv)
  have ne: "it m \<noteq> []" using assms(1,3) iteration_order_length by (metis length_0_conv)
  have m1: "m1 = fold (\<lambda>(k, v). hm_insert k v) (it m) []"
    using lru_loop_insert [of "it m" "[]" None "[]"] loop by simp
  have get: "hm_get m1 = hm_get m" "hm_inv m1"
    using fold_insert_get [OF it(1), of "[]"] it(2) fold_insert_inv [of "[]" "it m"] by (simp_all add: m1)
  have "oldest_of (it m) [] None addr" using lru_loop_oldest [of "it m" "[]" None "[]"] loop by simp
  then obtain r where r: "(addr, r) \<in> set m" "\<forall>(b, r') \<in> set m. pr_last_used r \<le> pr_last_used r'"
    using it(3) ne by (auto simp: oldest_of_def)
  then have least: "least_used m addr"
    using hm_get_mem [OF assms(2)] unfolding least_used_def by fastforce
  have "hm_get m1 addr = Some r" using r(1) hm_get_mem [OF assms(2)] get(1) by simp
  then show thesis
    using loop get least by (intro that [of "hm_remove addr m1" addr]) (simp_all add: remove_lru_def)
qed

lemma expire_loop_get:
  "hm_inv conns \<Longrightarrow> hm_get (expire_loop d now conns m)
     = hm_get m ++ (\<lambda>a. case hm_get conns a of None \<Rightarrow> None
         | Some r \<Rightarrow> if now - pr_last_used r < d then Some r else None)"
proof (induction conns arbitrary: m)
  case (Cons e conns)
  obtain k v where e: "e = (k, v)" by fastforce
  have inv: "hm_inv conns" "k \<notin> fst ` set conns" using Cons.prems by (auto simp: hm_inv_def e)
  then have "hm_get conns k = None" by (simp add: hm_get_def map_of_eq_None_iff)
  with Cons.IH [OF inv(1)] show ?case
    by (auto simp: e fun_eq_iff hm_get_simps map_add_def split: option.splits)
qed (simp add: map_add_def)

lemma expire_loop_inv: "hm_inv m \<Longrightarrow> hm_inv (expire_loop d now conns m)"
  by (induction conns arbitrary: m) auto

lemma expire_turn_get:
  assumes "iteration_order it" and "hm_inv m"
  shows "hm_get (expire_turn it d now m) = (\<lambda>a. case hm_get m a of None \<Rightarrow> None
           | Some r \<Rightarrow> if now - pr_last_used r < d then Some r else None)"
    and "hm_inv (expire_turn it d now m)"
  using expire_loop_get [of "it m" d now "[]"] expire_loop_inv [of "[]" d now "it m"] assms
  by (auto simp: expire_turn_def iteration_order_inv iteration_order_get map_add_def fun_eq_iff split: option.split)

text \<open>A map with fewer keys is shorter.\<close>

lemma length_mono:
  assumes "hm_inv m" and "hm_inv m'" and "dom (hm_get m') \<subseteq> dom (hm_get m)"
  shows "length m' \<le> length m"
proof -
  have "finite (dom (hm_get m))" by (simp add: hm_get_def [abs_def] finite_dom_map_of)
  then show ?thesis using assms by (simp add: hm_length_dom card_mono)
qed

section \<open>Histories of a pool\<close>

text \<open>What clients and the worker can do to the map, in any order.\<close>

inductive pool_uses :: "'t resources \<Rightarrow> bool" where
  new: "pool_uses []"
| get: "pool_uses m \<Longrightarrow> pool_uses (snd (pool_get key m))"
| put: "pool_uses m \<Longrightarrow> iteration_order it \<Longrightarrow> pool_insert it key r m = Some (q, m') \<Longrightarrow> pool_uses m'"
| drain: "pool_uses m \<Longrightarrow> pool_uses (snd (pool_drain it m))"
| expire: "pool_uses m \<Longrightarrow> iteration_order it \<Longrightarrow> pool_uses (expire_turn it d now m)"

lemma pool_insert_ok:
  assumes "resources_ok m" and "iteration_order it"
  obtains m' where "pool_insert it key r m = Some (Ok (), m')" "resources_ok m'"
    "length m < max_resources \<Longrightarrow> hm_get m' = (hm_get m)(key \<mapsto> r)"
    "length m = max_resources \<Longrightarrow> \<exists>addr. least_used m addr \<and> hm_get m' = (hm_get m)(addr := None)"
proof (cases "length m = max_resources")
  case True
  then have "m \<noteq> []" by (auto simp: max_resources_def)
  moreover have inv: "hm_inv m" using assms(1) by (simp add: resources_ok_def)
  ultimately obtain addr m' where m': "remove_lru it m = Some (Ok (), m')" "least_used m addr" "hm_inv m'"
    "hm_get m' = (hm_get m)(addr := None)"
    using remove_lru_spec [OF assms(2)] by metis
  have "length m' \<le> length m" by (rule length_mono [OF inv m'(3)]) (auto simp: m'(4))
  then show thesis
    using True m' by (intro that [of m']) (auto simp: pool_insert_def resources_ok_def)
next
  case False
  let ?m' = "hm_insert key r m"
  have inv: "hm_inv m" "length m < max_resources" using assms(1) False by (auto simp: resources_ok_def)
  have fin: "finite (dom (hm_get m))" by (simp add: hm_get_def [abs_def] finite_dom_map_of)
  have "length ?m' = card (insert key (dom (hm_get m)))" using inv by (simp add: hm_length_dom)
  also have "\<dots> \<le> Suc (length m)" using fin inv(1) by (simp add: hm_length_dom card_insert_if)
  finally have "resources_ok ?m'" using inv by (simp add: resources_ok_def)
  with False show thesis by (intro that [of ?m']) (auto simp: pool_insert_def)
qed

lemma pool_uses_ok: "pool_uses m \<Longrightarrow> resources_ok m"
proof (induction rule: pool_uses.induct)
  case (get m key)
  then have "length (hm_remove key m) \<le> length m"
    by (intro length_mono) (auto simp: resources_ok_def)
  with get show ?case by (auto simp: pool_get_def resources_ok_def)
next
  case (put m it key r q m')
  then show ?case using pool_insert_ok [of m it key r] by (metis option.inject prod.inject)
next
  case (expire m it d now)
  then have inv: "hm_inv m" "hm_inv (expire_turn it d now m)"
    by (simp_all add: resources_ok_def expire_turn_get)
  have "dom (hm_get (expire_turn it d now m)) \<subseteq> dom (hm_get m)"
    using expire inv(1) by (auto simp: expire_turn_get resources_ok_def split: option.splits)
  from length_mono [OF inv this] expire inv show ?case by (auto simp: resources_ok_def)
qed (auto simp: resources_ok_def pool_drain_def)

section \<open>Properties\<close>

text \<open>
  C23. Whatever is done to the pool, it never has more than a hundred resources, one for each
  address; an insertion returns without a panic, and what it did depends on whether the pool was
  full: into a pool with room the resource is put, where a lookup finds it; from a full one the
  least recently used resource is removed and the new one is not put in, even if its address was
  there.
\<close>

theorem pool_insert_evicts:
  assumes "pool_uses m" and "iteration_order it"
  shows "length m \<le> 100 \<and> distinct (map fst m)
    \<and> (\<exists>m'. pool_insert it key r m = Some (Ok (), m')
         \<and> (if length m < 100 then fst (pool_get key m') = Some r \<and> (\<forall>a. a \<noteq> key \<longrightarrow> hm_get m' a = hm_get m a)
            else \<exists>addr. least_used m addr \<and> hm_get m' = (hm_get m)(addr := None)))"
proof -
  have ok: "resources_ok m" by (rule pool_uses_ok [OF assms(1)])
  obtain m' where m': "pool_insert it key r m = Some (Ok (), m')"
    "length m < max_resources \<Longrightarrow> hm_get m' = (hm_get m)(key \<mapsto> r)"
    "length m = max_resources \<Longrightarrow> \<exists>addr. least_used m addr \<and> hm_get m' = (hm_get m)(addr := None)"
    using pool_insert_ok [OF ok assms(2)] by metis
  show ?thesis
  proof (cases "length m < max_resources")
    case True
    then show ?thesis using ok m' by (auto simp: resources_ok_def hm_inv_def max_resources_def pool_get_def)
  next
    case False
    then have "length m = max_resources" using ok by (simp add: resources_ok_def)
    with m' ok show ?thesis by (auto simp: resources_ok_def hm_inv_def max_resources_def)
  qed
qed

theorem pool_insert_evicts_witness:
  "\<exists>m'. pool_insert rev ''a:80'' (resource_new 5 (1::nat)) [] = Some (Ok (), m')
     \<and> fst (pool_get ''a:80'' m') = Some (resource_new 5 1)"
  using pool_insert_evicts [OF pool_uses.new iteration_order_rev, of "''a:80''" "resource_new 5 (1::nat)"] by auto

text \<open>
  A turn of the worker removes exactly the resources that have been idle for at least the
  time-out, in whatever order the map is drained, and keeps the others with their instants.
\<close>

theorem expire_turn_exact:
  assumes "pool_uses m" and "iteration_order it"
  shows "hm_get (expire_turn it d now m) a = Some r \<longleftrightarrow> hm_get m a = Some r \<and> now - pr_last_used r < d"
  using pool_uses_ok [OF assms(1)] expire_turn_get(1) [OF assms(2)]
  by (auto simp: resources_ok_def split: option.splits if_splits)

theorem expire_turn_exact_witness:
  "hm_get (expire_turn rev default_idle_timeout (from_secs 40) [(''a'', resource_new (from_secs 20) (1::nat))]) ''a''
     = Some (resource_new (from_secs 20) 1)"
proof -
  have "pool_uses [(''a'', resource_new (from_secs 20) (1::nat))]"
    by (rule pool_uses.put [OF pool_uses.new iteration_order_rev, of "''a''"])
      (simp add: pool_insert_def max_resources_def hm_insert_def)
  from expire_turn_exact [OF this iteration_order_rev, of default_idle_timeout "from_secs 40" "''a''"]
  show ?thesis by (simp add: hm_get_def resource_new_def default_idle_timeout_def from_secs_def)
qed


text \<open>
  Dropping the pool returns whatever its worker is doing, without waiting for the cycle time: a
  worker that is parked or about to be is released by the token, and one that is expiring has
  one turn left, after which nothing that was idle too long is there.
\<close>

theorem idle_pool_drop_joins:
  fixes p :: "'t idle_pool" and it :: "'t drain_order"
  shows "\<exists>p'. idle_pool_drop it now p = Some p' \<and> ip_worker p' = Ended
     \<and> ip_resources p' = (if ip_worker p = Expiring then expire_turn it (ip_timeout p) now (ip_resources p)
         else ip_resources p)"
proof -
  have ended: "join_worker it now q = Some q" if "ip_worker q = Ended" for q :: "'t idle_pool"
    using that by (subst join_worker.simps) simp
  have chk: "join_worker it now q = Some (q\<lparr>ip_worker := Ended\<rparr>)" if "ip_worker q = Checking" "ip_stop q"
    for q :: "'t idle_pool"
    using that by (subst join_worker.simps) (simp add: worker_step_def ended)
  have parked: "join_worker it now q = Some (q\<lparr>ip_token := False, ip_worker := Ended\<rparr>)"
    if "ip_worker q = Parked" "ip_stop q" "ip_token q" for q :: "'t idle_pool"
    using that by (subst join_worker.simps) (simp add: worker_step_def chk)
  have expiring: "join_worker it now q = Some (q\<lparr>ip_resources := expire_turn it (ip_timeout q) now (ip_resources q),
      ip_token := False, ip_worker := Ended\<rparr>)"
    if "ip_worker q = Expiring" "ip_stop q" "ip_token q" for q :: "'t idle_pool"
    using that by (subst join_worker.simps) (simp add: worker_step_def parked)
  show ?thesis
    by (cases "ip_worker p") (simp_all add: idle_pool_drop_def ended chk parked expiring)
qed

end
