(* ===== verification/Client.thy ===== *)
theory Client
  imports Connection_Pool Server_Connection Tcp_Stream
begin

text \<open>
  \<^verbatim>\<open>http/client/mod.rs\<close>: a client that keeps its connections in a pool, from which a
  request takes one and to which the drop of its response gives it back. A connection has an
  address of its own, which the clones of its \<^verbatim>\<open>TcpStream\<close> share; its state is in the
  store of the client, and in the reader of a response as long as that is being read.
\<close>

section \<open>The client\<close>

record ('e, 'c) client =
  cl_env :: 'e
  cl_pool :: "nat resources"
  cl_conns :: "nat \<Rightarrow> 'c"
  cl_alive :: bool

record ('m, 'c) client_response =
  cr_response :: "('m, 'c request_reader take_reader) response"
  cr_conn :: nat
  cr_addr :: string

text \<open>Name resolution, connecting, cloning a socket and the clock.\<close>

record ('w, 'a) tcp =
  tc_resolve :: "string \<Rightarrow> ('w, 'a list, io_error) prog"
  tc_connect :: "'a list \<Rightarrow> ('w, nat, io_error) prog"
  tc_try_clone :: "nat \<Rightarrow> ('w, unit, io_error) prog"
  tc_now :: "'w \<Rightarrow> nat"

definition default_read_response_timeout :: duration where
  "default_read_response_timeout = from_secs 60"

definition default_write_request_timeout :: duration where
  "default_write_request_timeout = from_secs 60"

definition client_new :: "'e \<Rightarrow> (nat \<Rightarrow> 'c) \<Rightarrow> ('e, 'c) client" where
  "client_new e conns =
     \<lparr>cl_env = e, cl_pool = fst (resource_pool_new None), cl_conns = conns, cl_alive = True\<rparr>"

definition client_connect :: "('w, 'a) tcp \<Rightarrow> string \<Rightarrow> ('w, nat, http_error) prog" where
  "client_connect tc addr =
     and_then (map_err http_error_from_io (tc_resolve tc addr)) (\<lambda>addrs.
       map_err http_error_from_io (tc_connect tc addrs))"

text \<open>The connection for a request. The lock is never poisoned: nothing panics that holds it.\<close>

definition client_take :: "(('e, 'c) client, 'a) tcp \<Rightarrow> string \<Rightarrow> ('m, 'rb) request
    \<Rightarrow> (('e, 'c) client, nat, http_error) prog" where
  "client_take tc addr q s =
     (case request_is_connection_persistent q of
        Panic \<Rightarrow> Some (Panic, s)
      | Err e \<Rightarrow> Some (Err e, s)
      | Ok persistent \<Rightarrow>
          if persistent then
            (let (found, m) = pool_get addr (cl_pool s); s1 = s\<lparr>cl_pool := m\<rparr> in
             case found of
               Some conn \<Rightarrow> Some (Ok (pr_resource conn), s1)
             | None \<Rightarrow> client_connect tc addr s1)
          else client_connect tc addr s)"

text \<open>Sending the request and reading the head of the response, over one stream with time-outs.\<close>

definition request_sent :: "entry_order \<Rightarrow> 'c connection_io \<Rightarrow> 'rb reader \<Rightarrow> ('n, 'rb) request
    \<Rightarrow> ('c timeout_stream, unit, http_error) prog" where
  "request_sent it io rbd q ts =
     (case request_write it rbd (timeout_write (ci_stream io)) (q, ts) of
        None \<Rightarrow> None
      | Some (r, (_, ts1)) \<Rightarrow> Some (r, ts1))"

definition client_exchange :: "'m externals \<Rightarrow> entry_order \<Rightarrow> 'c connection_io \<Rightarrow> 'rb reader \<Rightarrow> ('n, 'rb) request
    \<Rightarrow> ('c, ('m, 'c request_reader take_reader) response, http_error) prog" where
  "client_exchange ext it io rbd q c =
     (case and_then (request_sent it io rbd q) (\<lambda>_. map_err http_error_from_io (timeout_flush (ci_stream io)))
             (timeout_stream_from c (Some default_read_response_timeout) (Some default_write_request_timeout)) of
        None \<Rightarrow> None
      | Some (r, ts) \<Rightarrow>
          (case r of
             Err e \<Rightarrow> Some (Err e, ts_stream ts)
           | Panic \<Rightarrow> Some (Panic, ts_stream ts)
           | Ok _ \<Rightarrow> (case response_read_from ext (timeout_read (ci_stream io)) ts of
                 None \<Rightarrow> None
               | Some (q, b) \<Rightarrow> Some (q, conn_of b))))"

definition client_run :: "'m externals \<Rightarrow> entry_order \<Rightarrow> 'c connection_io \<Rightarrow> 'rb reader \<Rightarrow> (('e, 'c) client, 'a) tcp
    \<Rightarrow> string \<Rightarrow> ('n, 'rb) request \<Rightarrow> (('e, 'c) client, ('m, 'c) client_response, http_error) prog" where
  "client_run ext it io rbd tc addr q =
     and_then (client_take tc addr q) (\<lambda>conn.
     and_then (map_err http_error_from_io (tc_try_clone tc conn)) (\<lambda>_.
     and_then (map_err http_error_from_io (tc_try_clone tc conn)) (\<lambda>_ s.
       case client_exchange ext it io rbd q (cl_conns s conn) of
         None \<Rightarrow> None
       | Some (r, c) \<Rightarrow>
           Some (case r of
                   Ok response \<Rightarrow> Ok \<lparr>cr_response = response, cr_conn = conn, cr_addr = addr\<rparr>
                 | Err e \<Rightarrow> Err e
                 | Panic \<Rightarrow> Panic,
                 s\<lparr>cl_conns := (cl_conns s)(conn := c)\<rparr>))))"

text \<open>
  \<^verbatim>\<open>Drop for ClientResponse\<close>: the rest of the body is read, whether that fails or not; then
  the connection goes into the pool, if there still is one.
\<close>

definition give_back :: "nat drain_order \<Rightarrow> (('e, 'c) client, 'a) tcp \<Rightarrow> nat \<Rightarrow> string
    \<Rightarrow> (('e, 'c) client, unit, unit) prog" where
  "give_back drain_order tc conn addr s =
     (case tc_try_clone tc conn s of
        None \<Rightarrow> None
      | Some (r, s1) \<Rightarrow>
          (case r of
             Err _ \<Rightarrow> Some (Ok (), s1)
           | Panic \<Rightarrow> Some (Panic, s1)
           | Ok _ \<Rightarrow>
               (case pool_insert drain_order addr (resource_new (tc_now tc s1) conn) (cl_pool s1) of
                  None \<Rightarrow> None
                | Some (q, m) \<Rightarrow> Some (q, s1\<lparr>cl_pool := m\<rparr>))))"

definition client_response_drop :: "nat drain_order \<Rightarrow> 'c connection_io \<Rightarrow> (('e, 'c) client, 'a) tcp
    \<Rightarrow> ('m, 'c) client_response \<Rightarrow> (('e, 'c) client, unit, unit) prog" where
  "client_response_drop drain_order io tc cr s =
     (if \<not> cl_alive s then Some (Ok (), s)
      else case rs_body (cr_response cr) of
        None \<Rightarrow> give_back drain_order tc (cr_conn cr) (cr_addr cr) s
      | Some body \<Rightarrow>
          (case body_ensure_read (body_reader io) body of
             None \<Rightarrow> None
           | Some (r, body') \<Rightarrow>
               (let s1 = s\<lparr>cl_conns := (cl_conns s)(cr_conn cr := conn_of (tk_inner (body_content body')))\<rparr> in
                if r = Panic then Some (Panic, s1)
                else give_back drain_order tc (cr_conn cr) (cr_addr cr) s1)))"

text \<open>\<^verbatim>\<open>Drop for Client\<close>: all idle connections are shut down, errors ignored.\<close>

fun shutdown_all :: "'c connection_io \<Rightarrow> nat pool_resource list \<Rightarrow> (nat \<Rightarrow> 'c) \<Rightarrow> ((unit, unit) res \<times> (nat \<Rightarrow> 'c)) option" where
  "shutdown_all io [] conns = Some (Ok (), conns)"
| "shutdown_all io (r # rs) conns =
     (case ci_shutdown io (conns (pr_resource r)) of
        None \<Rightarrow> None
      | Some (q, c) \<Rightarrow>
          if q = Panic then Some (Panic, conns(pr_resource r := c))
          else shutdown_all io rs (conns(pr_resource r := c)))"

definition client_drop :: "nat drain_order \<Rightarrow> 'c connection_io \<Rightarrow> (('e, 'c) client, unit, unit) prog" where
  "client_drop drain_order io s =
     (let (connections, m) = pool_drain drain_order (cl_pool s) in
      case shutdown_all io connections (cl_conns s) of
        None \<Rightarrow> None
      | Some (r, conns) \<Rightarrow> Some (r, s\<lparr>cl_pool := m, cl_conns := conns, cl_alive := False\<rparr>))"

text \<open>The connections of a client are TCP streams.\<close>

definition tcp_io :: "('s, 'x) tcp_stream_scheme \<Rightarrow> 's connection_io" where
  "tcp_io tp = \<lparr>ci_stream = tcp_timed tp, ci_shutdown = tp_shutdown tp\<rparr>"

section \<open>Writing leaves the reading side of a stream with time-outs as it was\<close>

definition same_reading :: "'s timeout_stream \<Rightarrow> 's timeout_stream \<Rightarrow> bool" where
  "same_reading ts ts' \<longleftrightarrow> ts_read ts' = ts_read ts \<and> ts_ongoing_read ts' = ts_ongoing_read ts"

lemma timeout_write_same: "timeout_write tm bs ts = Some (r, ts') \<Longrightarrow> same_reading ts ts'"
  by (auto simp: timeout_write_def same_reading_def Let_def split: option.splits prod.splits)

lemma full_sink_frame:
  assumes "full_sink wr appended wok wretries" and "\<And>bs w r w'. wr bs w = Some (r, w') \<Longrightarrow> F w w'"
    and "\<And>w. F w w" and "\<And>u v w. F u v \<Longrightarrow> F v w \<Longrightarrow> F u w"
  shows "full_sink wr (\<lambda>w bs w'. appended w bs w' \<and> F w w') wok wretries"
proof -
  note byte = full_sink.axioms(1) [OF assms(1)]
  show ?thesis
  proof
    fix w and bs :: "byte list" assume h: "wok w" "bs \<noteq> []"
    show "(\<exists>n w'. wr bs w = Some (Ok n, w') \<and> 0 < n \<and> n \<le> length bs \<and> (appended w (take n bs) w' \<and> F w w') \<and> wok w')
     \<or> (\<exists>e w'. wr bs w = Some (Err e, w') \<and> io_kind e = Interrupted \<and> (appended w [] w' \<and> F w w')
         \<and> wretries w' < wretries w \<and> wok w')"
      using byte_sink.write_data [OF byte h] assms(2) by blast
  next
    fix w and bs :: "byte list" assume h: "wok w"
    show "\<exists>w'. wr bs w = Some (Ok (length bs), w') \<and> (appended w bs w' \<and> F w w') \<and> wok w'"
      using full_sink.write_full [OF assms(1) h, of bs] assms(2) by blast
  qed (use byte_sink.appended_Nil [OF byte] byte_sink.appended_trans [OF byte] assms(3,4) in blast)+
qed

section \<open>One exchange on a connection\<close>

text \<open>A connection that flushes what was written.\<close>

locale exchanging = connection io incoming outgoing up tries
  for io :: "'c connection_io" and incoming outgoing up tries +
  assumes flush_ok: "up c \<Longrightarrow> \<exists>c'. tm_flush (ci_stream io) c = Some (Ok (), c') \<and> up c'
      \<and> outgoing c' = outgoing c \<and> incoming c' = incoming c"

definition request_wire :: "entry_order \<Rightarrow> ('rb \<Rightarrow> byte list) \<Rightarrow> ('n, 'rb) request \<Rightarrow> byte list" where
  "request_wire it rcontent q =
     request_line_text \<lparr>rl_method = rq_method q, rl_uri = rq_uri q, rl_version = rq_version q\<rparr>
       @ headers_text (it (header_map (ensure_length_header (rq_body q) (rq_headers q))))
       @ body_bytes rcontent (rq_body q)"

definition response_wire :: "entry_order \<Rightarrow> status_code \<Rightarrow> headers \<Rightarrow> byte list \<Rightarrow> byte list" where
  "response_wire it st hs body = status_line_text st @ headers_text (it (header_map hs)) @ body"

text \<open>
  The response that is on its way: what the client's reader \<open>b\<close> still has of the connection is
  the body and what follows it.
\<close>

definition response_at :: "'c request_reader \<Rightarrow> byte list \<Rightarrow> status_code \<Rightarrow> headers
    \<Rightarrow> ('m, 'c request_reader take_reader) response \<Rightarrow> bool" where
  "response_at b body st hs p \<longleftrightarrow> rs_status p = status_from_usize (usize_from_status st)
     \<and> headers_get (rs_headers p) = headers_get hs
     \<and> (case rs_body p of
          None \<Rightarrow> body = []
        | Some bd \<Rightarrow> body_content bd = \<lparr>tk_inner = b, tk_limit = length body\<rparr> \<and> body_limited bd)"

text \<open>
  The connection may be another when the request has been flushed (the peer answers), so that the
  response is read under a contract of its own.
\<close>

lemma request_flushed:
  assumes "connection io incoming outgoing up tries"
    and "eof_source rbd rcontent rok rretries" and "\<forall>b. rq_body q = Some b \<longrightarrow> rok (body_content b)" and "up c"
    and "\<And>c1. up c1 \<Longrightarrow> incoming c1 = incoming c \<Longrightarrow> \<exists>c2. tm_flush (ci_stream io) c1 = Some (Ok (), c2) \<and> up2 c2
      \<and> outgoing c2 = outgoing c1 \<and> incoming c2 = text"
  obtains ts where "and_then (request_sent it io rbd q) (\<lambda>_. map_err http_error_from_io (timeout_flush (ci_stream io)))
      (timeout_stream_from c (Some default_read_response_timeout) (Some default_write_request_timeout)) = Some (Ok (), ts)"
    "reader_ok up2 outgoing (outgoing c @ request_wire it rcontent q) ts" "incoming (ts_stream ts) = text"
proof -
  let ?ts = "timeout_stream_from c (Some default_read_response_timeout) (Some default_write_request_timeout)"
  let ?sent = "outgoing c @ request_wire it rcontent q"
  have sink: "full_sink (timeout_write (ci_stream io))
      (\<lambda>ts bs ts'. (outgoing (ts_stream ts') = outgoing (ts_stream ts) @ bs
          \<and> incoming (ts_stream ts') = incoming (ts_stream ts)) \<and> same_reading ts ts')
      (\<lambda>ts. up (ts_stream ts) \<and> fast_op (ts_write ts) (ts_ongoing_write ts)) (\<lambda>ts. tries (ts_stream ts))"
    by (rule full_sink_frame [OF fast_sink.timeout_sink [OF connection.writing [OF assms(1)]] timeout_write_same])
      (auto simp: same_reading_def)
  have secs: "0 < as_secs default_read_response_timeout" "0 < as_secs default_write_request_timeout"
    by (simp_all add: default_read_response_timeout_def default_write_request_timeout_def)
  have wok: "up (ts_stream ?ts) \<and> fast_op (ts_write ?ts) (ts_ongoing_write ?ts)"
    using assms(4) secs by (simp add: timeout_stream_from_def fast_op_def op_left_def op_from_timeout_def)
  obtain q' ts1 where ts1: "request_write it rbd (timeout_write (ci_stream io)) (q, ?ts) = Some (Ok (), (q', ts1))"
    "up (ts_stream ts1)" "outgoing (ts_stream ts1) = ?sent" "incoming (ts_stream ts1) = incoming c"
    "ts_read ts1 = ts_read ?ts" "ts_ongoing_read ts1 = ts_ongoing_read ?ts"
    using sending.request_write_ok [OF sending.intro [OF copying.intro [OF assms(2) full_sink.axioms(1) [OF sink]] sink]
        assms(3) wok refl refl, of it]
    by (auto simp: request_wire_def timeout_stream_from_def same_reading_def)
  obtain c2 where c2: "tm_flush (ci_stream io) (ts_stream ts1) = Some (Ok (), c2)" "up2 c2" "outgoing c2 = ?sent"
    "incoming c2 = text"
    using assms(5) [OF ts1(2,4)] ts1(3) by auto
  define ts2 where "ts2 = ts1\<lparr>ts_stream := c2\<rparr>"
  have "and_then (request_sent it io rbd q) (\<lambda>_. map_err http_error_from_io (timeout_flush (ci_stream io))) ?ts
      = Some (Ok (), ts2)"
    using ts1(1) c2(1) by (simp add: and_then_def request_sent_def timeout_flush_def map_err_def ts2_def)
  moreover have "reader_ok up2 outgoing ?sent ts2"
    using c2 ts1(5,6) secs
    by (simp add: ts2_def reader_ok_def timeout_stream_from_def fast_op_def op_left_def op_from_timeout_def)
  ultimately show thesis using c2(4) by (intro that [of ts2]) (simp_all add: ts2_def)
qed

lemma exchange_flushed:
  assumes "connection io incoming outgoing up tries" and "connection io incoming outgoing up2 tries2"
    and "eof_source rbd rcontent rok rretries" and "\<forall>b. rq_body q = Some b \<longrightarrow> rok (body_content b)" and "up c"
    and "\<And>c1. up c1 \<Longrightarrow> incoming c1 = incoming c \<Longrightarrow> \<exists>c2. tm_flush (ci_stream io) c1 = Some (Ok (), c2) \<and> up2 c2
      \<and> outgoing c2 = outgoing c1 \<and> incoming c2 = response_wire it2 st hs body @ rest"
    and "three_digits st" and "headers_ok hs" and "iteration_order it2" and "request_framed ext hs body"
  obtains p b where "client_exchange ext it io rbd q c = Some (Ok p, conn_of b)" "response_at b body st hs p"
    "br_content (\<lambda>ts. incoming (ts_stream ts)) b = body @ rest"
    "reader_ok up2 outgoing (outgoing c @ request_wire it rcontent q) (br_src b)"
proof -
  let ?sent = "outgoing c @ request_wire it rcontent q"
  obtain ts where sent: "and_then (request_sent it io rbd q) (\<lambda>_. map_err http_error_from_io (timeout_flush (ci_stream io)))
      (timeout_stream_from c (Some default_read_response_timeout) (Some default_write_request_timeout)) = Some (Ok (), ts)"
    and ok: "reader_ok up2 outgoing ?sent ts" and inp: "incoming (ts_stream ts) = response_wire it2 st hs body @ rest"
    by (rule request_flushed [where it = it, OF assms(1,3-6)])
  from inp have inp: "incoming (ts_stream ts) = status_line_text st @ headers_text (it2 (header_map hs)) @ (body @ rest)"
    by (simp add: response_wire_def)
  obtain b hs' where b: "headers_get hs' = headers_get hs" "br_content (\<lambda>ts. incoming (ts_stream ts)) b = body @ rest"
    "reader_ok up2 outgoing ?sent (br_src b)"
    "response_read_from ext (timeout_read (ci_stream io)) ts = Some (case body_read_from ext hs b of
        Ok bd \<Rightarrow> Ok \<lparr>rs_status = status_from_usize (usize_from_status st), rs_headers = hs', rs_body = bd\<rparr>
      | Err e \<Rightarrow> Err e | Panic \<Rightarrow> Panic, b)"
    using byte_source.response_read_ok [OF connection.source [OF assms(2)] ok inp assms(7-9), of ext] by blast
  from request_framed_read [OF assms(10), of b] obtain got where got: "body_read_from ext hs b = Ok got"
    "case got of None \<Rightarrow> body = []
     | Some bd \<Rightarrow> body_content bd = \<lparr>tk_inner = b, tk_limit = length body\<rparr> \<and> body_limited bd"
    by (elim exE conjE)
  show thesis
    by (rule that [of "\<lparr>rs_status = status_from_usize (usize_from_status st), rs_headers = hs', rs_body = got\<rparr>" b])
      (use sent b got in \<open>simp_all add: client_exchange_def response_at_def\<close>)
qed

context exchanging
begin

lemma exchange_ok:
  assumes "eof_source rbd rcontent rok rretries" and "\<forall>b. rq_body q = Some b \<longrightarrow> rok (body_content b)"
    and "up c" and "incoming c = response_wire it2 st hs body @ rest"
    and "three_digits st" and "headers_ok hs" and "iteration_order it2" and "request_framed ext hs body"
  obtains p b where "client_exchange ext it io rbd q c = Some (Ok p, conn_of b)" "response_at b body st hs p"
    "br_content (\<lambda>ts. incoming (ts_stream ts)) b = body @ rest"
    "reader_ok up outgoing (outgoing c @ request_wire it rcontent q) (br_src b)"
proof -
  have "\<exists>c2. tm_flush (ci_stream io) c1 = Some (Ok (), c2) \<and> up c2 \<and> outgoing c2 = outgoing c1
      \<and> incoming c2 = response_wire it2 st hs body @ rest" if "up c1" "incoming c1 = incoming c" for c1
    using flush_ok [OF that(1)] that(2) assms(4) by auto
  from exchange_flushed [OF connection_axioms connection_axioms assms(1-3) this assms(5-8)] that show thesis by blast
qed

end

section \<open>Responses in use\<close>

text \<open>What the user of a response does with it before dropping it: read of its body what they want.\<close>

definition response_used :: "'c connection_io \<Rightarrow> ('m, 'c) client_response \<Rightarrow> ('m, 'c) client_response \<Rightarrow> bool" where
  "response_used io cr cr' \<longleftrightarrow> cr_conn cr' = cr_conn cr \<and> cr_addr cr' = cr_addr cr
     \<and> (case rs_body (cr_response cr) of
          None \<Rightarrow> rs_body (cr_response cr') = None
        | Some b0 \<Rightarrow> \<exists>b1. rs_body (cr_response cr') = Some b1 \<and> body_used (body_reader io) b0 b1)"

lemma pool_get_room:
  assumes "resources_ok m" and "hm_get m key \<noteq> None"
  shows "resources_ok (snd (pool_get key m)) \<and> length (snd (pool_get key m)) < max_resources"
proof -
  have inv: "hm_inv m" using assms(1) by (simp add: resources_ok_def)
  have "finite (dom (hm_get m))" by (simp add: hm_get_def [abs_def] finite_dom_map_of)
  then have "card (dom (hm_get m) - {key}) < card (dom (hm_get m))" using assms(2) by (intro card_Diff1_less) auto
  then have "length (hm_remove key m) < length m" using inv by (simp add: hm_length_dom hm.dom_del)
  then show ?thesis using assms(1) inv by (auto simp: pool_get_def resources_ok_def)
qed

lemma give_back_ok:
  assumes "\<And>s. tc_try_clone tc conn s = Some (Ok (), s)" and "resources_ok (cl_pool s)"
    and "length (cl_pool s) < max_resources" and "iteration_order drain_order"
  obtains s' where "give_back drain_order tc conn addr s = Some (Ok (), s')" "cl_conns s' = cl_conns s"
    "hm_get (cl_pool s') = (hm_get (cl_pool s))(addr \<mapsto> resource_new (tc_now tc s) conn)"
    "resources_ok (cl_pool s')" "cl_alive s' = cl_alive s"
proof -
  obtain m where "pool_insert drain_order addr (resource_new (tc_now tc s) conn) (cl_pool s) = Some (Ok (), m)"
    "hm_get m = (hm_get (cl_pool s))(addr \<mapsto> resource_new (tc_now tc s) conn)" "resources_ok m"
    using pool_insert_ok [OF assms(2,4)] assms(3) by metis
  with assms(1) show thesis by (intro that [of "s\<lparr>cl_pool := m\<rparr>"]) (simp_all add: give_back_def)
qed

context connection
begin

lemma response_drop_ok:
  assumes "response_at b body st hs (cr_response cr)" and "response_used io cr cr'"
    and "br_content (\<lambda>ts. incoming (ts_stream ts)) b = body @ rest" and "reader_ok up outgoing sent (br_src b)"
    and "cl_conns s (cr_conn cr) = conn_of b" and "cl_alive s" and "\<And>s. tc_try_clone tc (cr_conn cr) s = Some (Ok (), s)"
    and "resources_ok (cl_pool s)" and "length (cl_pool s) < max_resources" and "iteration_order drain_order"
  obtains s2 now lost where "client_response_drop drain_order io tc cr' s = Some (Ok (), s2)"
    "hm_get (cl_pool s2) (cr_addr cr) = Some (resource_new now (cr_conn cr))"
    "up (cl_conns s2 (cr_conn cr))" "outgoing (cl_conns s2 (cr_conn cr)) = sent"
    "rest = lost @ incoming (cl_conns s2 (cr_conn cr))" "resources_ok (cl_pool s2)" "cl_alive s2"
proof -
  have cr': "cr_conn cr' = cr_conn cr" "cr_addr cr' = cr_addr cr" using assms(2) by (simp_all add: response_used_def)
  show thesis
  proof (cases "rs_body (cr_response cr)")
    case None
    then have none: "rs_body (cr_response cr') = None" "body = []"
      using assms(1,2) by (simp_all add: response_used_def response_at_def)
    obtain s' where "give_back drain_order tc (cr_conn cr) (cr_addr cr) s = Some (Ok (), s')" "cl_conns s' = cl_conns s"
      "hm_get (cl_pool s') = (hm_get (cl_pool s))(cr_addr cr \<mapsto> resource_new (tc_now tc s) (cr_conn cr))"
      "resources_ok (cl_pool s')" "cl_alive s' = cl_alive s"
      by (rule give_back_ok [OF assms(7-10)])
    with none cr' assms(3-6) show thesis
      by (intro that [of s' "tc_now tc s" "br_buf b"])
        (simp_all add: client_response_drop_def conn_of_def br_content_def reader_ok_def)
  next
    case (Some b0)
    then obtain b1 where b1: "rs_body (cr_response cr') = Some b1" "body_used (body_reader io) b0 b1"
      and b0: "body_content b0 = \<lparr>tk_inner = b, tk_limit = length body\<rparr>" "body_limited b0"
      using assms(1,2) by (auto simp: response_used_def response_at_def)
    obtain b2 where b2: "body_ensure_read (body_reader io) b1 = Some (Ok (), b2)"
      "br_content (\<lambda>ts. incoming (ts_stream ts)) (tk_inner (body_content b2)) = rest"
      "reader_ok up outgoing sent (br_src (tk_inner (body_content b2)))"
      by (rule drained_ok [OF assms(4,3) b0 b1(2)])
    let ?c = "conn_of (tk_inner (body_content b2))"
    let ?s1 = "s\<lparr>cl_conns := (cl_conns s)(cr_conn cr := ?c)\<rparr>"
    have pool: "resources_ok (cl_pool ?s1)" "length (cl_pool ?s1) < max_resources" using assms(8,9) by simp_all
    obtain s' where "give_back drain_order tc (cr_conn cr) (cr_addr cr) ?s1 = Some (Ok (), s')" "cl_conns s' = cl_conns ?s1"
      "hm_get (cl_pool s') = (hm_get (cl_pool ?s1))(cr_addr cr \<mapsto> resource_new (tc_now tc ?s1) (cr_conn cr))"
      "resources_ok (cl_pool s')" "cl_alive s' = cl_alive ?s1"
      by (rule give_back_ok [OF assms(7) pool assms(10)])
    with b1 b2 cr' assms(6) show thesis
      by (intro that [of s' "tc_now tc ?s1" "br_buf (tk_inner (body_content b2))"])
        (simp_all add: client_response_drop_def conn_of_def br_content_def reader_ok_def Let_def)
  qed
qed

end

text \<open>A request on a pooled connection, from the pool and back.\<close>

lemma client_reuse:
  assumes "connection io incoming outgoing up tries" and "connection io incoming outgoing up2 tries2"
    and "eof_source rbd rcontent rok rretries" and "\<forall>b. rq_body q = Some b \<longrightarrow> rok (body_content b)"
    and "headers_get (rq_headers q) ''Connection'' \<noteq> Some []" and "persists (rq_version q) (rq_headers q)"
    and "resources_ok (cl_pool s)" and "iteration_order drain_order" and "hm_get (cl_pool s) addr = Some r" and "cl_alive s"
    and "\<And>s. tc_try_clone tc (pr_resource r) s = Some (Ok (), s)" and "up (cl_conns s (pr_resource r))"
    and "\<And>c1. up c1 \<Longrightarrow> incoming c1 = incoming (cl_conns s (pr_resource r)) \<Longrightarrow>
      \<exists>c2. tm_flush (ci_stream io) c1 = Some (Ok (), c2) \<and> up2 c2 \<and> outgoing c2 = outgoing c1
        \<and> incoming c2 = response_wire it2 st hs body @ rest"
    and "three_digits st" and "headers_ok hs" and "iteration_order it2" and "request_framed ext hs body"
  obtains cr s1 b where "client_run ext it io rbd tc addr q s = Some (Ok cr, s1)" "hm_get (cl_pool s1) addr = None"
    "response_at b body st hs (cr_response cr)" "br_content (\<lambda>ts. incoming (ts_stream ts)) b = body @ rest"
    "reader_ok up2 outgoing (outgoing (cl_conns s (pr_resource r)) @ request_wire it rcontent q) (br_src b)"
    "\<forall>cr'. response_used io cr cr' \<longrightarrow>
       (\<exists>s2 now lost. client_response_drop drain_order io tc cr' s1 = Some (Ok (), s2) \<and> resources_ok (cl_pool s2)
         \<and> cl_alive s2 \<and> hm_get (cl_pool s2) addr = Some (resource_new now (pr_resource r))
         \<and> up2 (cl_conns s2 (pr_resource r))
         \<and> outgoing (cl_conns s2 (pr_resource r)) = outgoing (cl_conns s (pr_resource r)) @ request_wire it rcontent q
         \<and> rest = lost @ incoming (cl_conns s2 (pr_resource r)))"
proof -
  let ?c = "pr_resource r"
  obtain p b where x: "client_exchange ext it io rbd q (cl_conns s ?c) = Some (Ok p, conn_of b)" "response_at b body st hs p"
    "br_content (\<lambda>ts. incoming (ts_stream ts)) b = body @ rest"
    "reader_ok up2 outgoing (outgoing (cl_conns s ?c) @ request_wire it rcontent q) (br_src b)"
    by (rule exchange_flushed [OF assms(1-4,12,13-17)])
  let ?m = "snd (pool_get addr (cl_pool s))"
  let ?s1 = "s\<lparr>cl_pool := ?m, cl_conns := (cl_conns s)(?c := conn_of b)\<rparr>"
  let ?cr = "\<lparr>cr_response = p, cr_conn = ?c, cr_addr = addr\<rparr>"
  have room: "resources_ok (cl_pool ?s1)" "length (cl_pool ?s1) < max_resources"
    using pool_get_room [OF assms(7), of addr] assms(9) by simp_all
  have take: "client_take tc addr q s = Some (Ok ?c, s\<lparr>cl_pool := ?m\<rparr>)"
    using request_is_connection_persistent_eq [OF assms(5)] assms(6,9) by (simp add: client_take_def pool_get_def)
  have run: "client_run ext it io rbd tc addr q s = Some (Ok ?cr, ?s1)"
    using take assms(11) x(1) by (simp add: client_run_def and_then_def map_err_def)
  have drop: "\<exists>s2 now lost. client_response_drop drain_order io tc cr' ?s1 = Some (Ok (), s2) \<and> resources_ok (cl_pool s2)
      \<and> cl_alive s2 \<and> hm_get (cl_pool s2) addr = Some (resource_new now ?c) \<and> up2 (cl_conns s2 ?c)
      \<and> outgoing (cl_conns s2 ?c) = outgoing (cl_conns s ?c) @ request_wire it rcontent q
      \<and> rest = lost @ incoming (cl_conns s2 ?c)" if used: "response_used io ?cr cr'" for cr'
    by (rule connection.response_drop_ok [OF assms(2) _ used x(3,4), of st hs ?s1 tc drain_order])
      (use x(2) assms(8,10,11) room in auto)
  have "hm_get (cl_pool ?s1) addr = None" by (simp add: pool_get_def)
  with run x(2-4) drop show thesis by (intro that [of ?cr ?s1 b]) simp_all
qed

interpretation mem_exchange: exchanging "mem_io k" "\<lambda>c. ms_in (cs_stream c)" "\<lambda>c. ms_out (cs_stream c)"
  "\<lambda>c. \<not> ms_done (cs_stream c)" "\<lambda>_. 0"
  by unfold_locales (simp add: mem_io_def cancellable_io_def cancellable_timed_def cancellable_flush_def on_stream_def mem_os_def)

section \<open>A server that closes the connection\<close>

text \<open>A TCP stream whose peer has closed reports the end of the input as a read of no bytes.\<close>

locale peer_closed = exchanging io incoming outgoing up tries
  for io :: "'c connection_io" and incoming outgoing up tries +
  assumes read_end: "up c \<Longrightarrow> incoming c = [] \<Longrightarrow> \<exists>c'. tm_read (ci_stream io) n c = Some (Ok [], c')
      \<and> incoming c' = [] \<and> up c' \<and> outgoing c' = outgoing c"
begin

lemma timeout_source_ends:
  "eof_source (timeout_read (ci_stream io)) (\<lambda>ts. incoming (ts_stream ts)) (reader_ok up outgoing sent) (\<lambda>ts. tries (ts_stream ts))"
  using fast_source.timeout_eof_source [OF reading, of sent] read_end unfolding reader_ok_def by blast

text \<open>A response that breaks off in its head, after the status line.\<close>

lemma cut_response_hangs:
  assumes "eof_source rbd rcontent rok rretries" and "\<forall>b. rq_body q = Some b \<longrightarrow> rok (body_content b)" and "up c"
    and "incoming c = status_line_text st @ take n (headers_text (it2 (header_map hs)))"
    and "n < length (headers_text (it2 (header_map hs)))"
    and "three_digits st" and "headers_ok hs" and "iteration_order it2"
  shows "client_exchange ext it io rbd q c = None"
proof -
  let ?sent = "outgoing c @ request_wire it rcontent q" and ?cut = "take n (headers_text (it2 (header_map hs)))"
  have flush: "\<exists>c2. tm_flush (ci_stream io) c1 = Some (Ok (), c2) \<and> up c2 \<and> outgoing c2 = outgoing c1
      \<and> incoming c2 = status_line_text st @ ?cut" if "up c1" "incoming c1 = incoming c" for c1
    using flush_ok [OF that(1)] that(2) assms(4) by auto
  obtain ts where ts: "and_then (request_sent it io rbd q) (\<lambda>_. map_err http_error_from_io (timeout_flush (ci_stream io)))
      (timeout_stream_from c (Some default_read_response_timeout) (Some default_write_request_timeout)) = Some (Ok (), ts)"
    "reader_ok up outgoing ?sent ts" "incoming (ts_stream ts) = status_line_text st @ ?cut"
    by (rule request_flushed [where it = it, OF connection_axioms assms(1-3) flush])
  note src = timeout_source_ends [of ?sent]
  obtain b sl where b: "response_line_read (timeout_read (ci_stream io)) (bufreader_new ts) = Some (Ok sl, b)"
    "br_content (\<lambda>ts. incoming (ts_stream ts)) b = ?cut" "reader_ok up outgoing ?sent (br_src b)"
    using byte_source.response_line_read_ok [OF eof_source.axioms(1) [OF src], of "bufreader_new ts" st ?cut] ts(2,3) assms(6)
    by auto
  have "headers_read_from (timeout_read (ci_stream io)) b = None"
    by (rule headers_text_cut [OF src assms(7,8) b(3,2) assms(5)])
  then have "response_read_from ext (timeout_read (ci_stream io)) ts = None"
    using b(1) by (simp add: response_read_from_def and_then_def)
  with ts(1) show ?thesis by (simp add: client_exchange_def)
qed

end

interpretation mem_closed: peer_closed "tcp_io (mem_tcp_stream k)" ms_in ms_out "\<lambda>s. \<not> ms_done s" "\<lambda>_. 0"
proof (intro peer_closed.intro exchanging.intro connection.intro)
  show "fast_source (ci_stream (tcp_io (mem_tcp_stream k))) ms_in (\<lambda>s. \<not> ms_done s \<and> ms_out s = sent) (\<lambda>_. 0)" for sent
    by (simp add: tcp_io_def mem_tcp_reads.fast_source_axioms)
  show "fast_sink (ci_stream (tcp_io (mem_tcp_stream k))) (\<lambda>s bs s'. ms_out s' = ms_out s @ bs \<and> ms_in s' = ms_in s)
      (\<lambda>s. \<not> ms_done s) (\<lambda>_. 0)"
    by (simp add: tcp_io_def mem_tcp_writes.fast_sink_axioms)
qed (unfold_locales, simp_all add: tcp_io_def tcp_timed_def mem_tcp_stream_def mem_os_def)

text \<open>A network and a client in memory, for the witnesses.\<close>

definition mem_tcp :: "((unit, 'c) client, nat) tcp" where
  "mem_tcp = \<lparr>tc_resolve = (\<lambda>_. ret [9]), tc_connect = (\<lambda>addrs. ret (hd addrs)), tc_try_clone = (\<lambda>_. ret ()), tc_now = (\<lambda>_. 5)\<rparr>"

definition mem_client :: "byte list \<Rightarrow> (unit, mem_socket cancellable) client" where
  "mem_client bs =
     \<lparr>cl_env = (), cl_pool = [(''a:80'', resource_new 0 7)],
      cl_conns = (\<lambda>_. \<lparr>cs_stream = \<lparr>ms_in = bs, ms_out = [], ms_done = False\<rparr>, cs_read_timeout = None, cs_write_timeout = None\<rparr>),
      cl_alive = True\<rparr>"

lemma mem_client_pool: "pool_uses (cl_pool (mem_client bs))" "hm_get (cl_pool (mem_client bs)) ''a:80'' = Some (resource_new 0 7)"
proof -
  show "pool_uses (cl_pool (mem_client bs))"
    by (rule pool_uses.put [OF pool_uses.new iteration_order_rev, of "''a:80''" "resource_new 0 7"])
      (simp add: mem_client_def pool_insert_def max_resources_def hm_insert_def)
  show "hm_get (cl_pool (mem_client bs)) ''a:80'' = Some (resource_new 0 7)"
    by (simp add: mem_client_def hm_get_def)
qed

section \<open>Properties\<close>



text \<open>
  C31. Any connection goes into the pool when its response is dropped: also one on which reading
  the body failed, whose request was not persistent, or whose response announced that the server
  closes it. The next persistent request to that address is then sent on it, without connecting.
\<close>

theorem client_pools_any_connection:
  assumes "client_response_drop drain_order io tc cr s = Some (Ok (), s1)" and "cl_alive s"
    and "length (cl_pool s) < 100" and "\<And>s. tc_try_clone tc (cr_conn cr) s = Some (Ok (), s)"
    and "headers_get (rq_headers q) ''Connection'' \<noteq> Some []" and "persists (rq_version q) (rq_headers q)"
  shows "\<exists>s2. client_take tc (cr_addr cr) q s1 = Some (Ok (cr_conn cr), s2) \<and> cl_conns s2 = cl_conns s1"
proof -
  have pooled: "\<exists>now. hm_get (cl_pool s1) (cr_addr cr) = Some (resource_new now (cr_conn cr))"
    if "give_back drain_order tc (cr_conn cr) (cr_addr cr) s0 = Some (Ok (), s1)" "cl_pool s0 = cl_pool s" for s0
    using that assms(3,4) by (auto simp: give_back_def pool_insert_def max_resources_def)
  have "\<exists>s0. give_back drain_order tc (cr_conn cr) (cr_addr cr) s0 = Some (Ok (), s1) \<and> cl_pool s0 = cl_pool s"
  proof (cases "rs_body (cr_response cr)")
    case None
    then show ?thesis using assms(1,2) by (auto simp: client_response_drop_def)
  next
    case (Some b)
    then show ?thesis using assms(1,2)
      by (auto simp: client_response_drop_def Let_def split: option.splits prod.splits if_splits)
  qed
  then obtain now where "hm_get (cl_pool s1) (cr_addr cr) = Some (resource_new now (cr_conn cr))" using pooled by blast
  then show ?thesis
    using request_is_connection_persistent_eq [OF assms(5)] assms(6)
    by (simp add: client_take_def pool_get_def resource_new_def)
qed

theorem client_pools_any_connection_witness:
  "\<exists>s1 s2. client_response_drop rev (mem_io 3) mem_tcp
        \<lparr>cr_response = \<lparr>rs_status = OK, rs_headers = \<lparr>header_map = [(''Connection'', [''close''])]\<rparr>,
            rs_body = None :: (string, mem_socket cancellable request_reader take_reader) body option\<rparr>,
         cr_conn = 4, cr_addr = ''b:80''\<rparr> (mem_client []) = Some (Ok (), s1)
     \<and> client_take mem_tcp ''b:80'' (\<lparr>rq_method = GET, rq_uri = ''/'', rq_version = ''HTTP/1.1'',
          rq_headers = headers_new, rq_body = None\<rparr> :: (string, byte list) request) s1 = Some (Ok 4, s2)"
proof -
  let ?q = "\<lparr>rq_method = GET, rq_uri = ''/'', rq_version = ''HTTP/1.1'', rq_headers = headers_new, rq_body = None\<rparr>
    :: (string, byte list) request"
  let ?cr = "\<lparr>cr_response = \<lparr>rs_status = OK, rs_headers = \<lparr>header_map = [(''Connection'', [''close''])]\<rparr>,
      rs_body = None :: (string, mem_socket cancellable request_reader take_reader) body option\<rparr>,
    cr_conn = 4, cr_addr = ''b:80''\<rparr>"
  have conn: "headers_get (rq_headers ?q) ''Connection'' \<noteq> Some []" "persists (rq_version ?q) (rq_headers ?q)"
    by (simp_all add: persists_def)
  have alive: "cl_alive (mem_client [])" "length (cl_pool (mem_client [])) < 100"
    and clone: "\<And>s. tc_try_clone mem_tcp (cr_conn ?cr) s = Some (Ok (), s)"
    by (simp_all add: mem_client_def mem_tcp_def)
  obtain s1 where drop: "client_response_drop rev (mem_io 3) mem_tcp ?cr (mem_client []) = Some (Ok (), s1)"
    by (simp add: client_response_drop_def give_back_def mem_tcp_def mem_client_def pool_insert_def max_resources_def)
  from client_pools_any_connection [OF this alive clone conn] drop show ?thesis by auto
qed

text \<open>
  C32. A client waits for ever when the server closes the connection inside the head of a response:
  after the status line, and however much of the headers arrived before the empty line, running the
  request never returns. The end of the input is a read of no bytes, which the loop that looks
  for the end of a header line does not notice, and which takes no time that a time-out would count.
\<close>

theorem client_hangs_on_cut_response:
  assumes "peer_closed io incoming outgoing up tries" and "eof_source rbd rcontent rok rretries"
    and "\<forall>b. rq_body q = Some b \<longrightarrow> rok (body_content b)"
    and "client_take tc addr q s = Some (Ok conn, s1)" and "\<And>s. tc_try_clone tc conn s = Some (Ok (), s)"
    and "up (cl_conns s1 conn)" and "incoming (cl_conns s1 conn) = status_line_text st @ take n head"
    and "head = headers_text (it2 (header_map hs))" and "n < length head"
    and "three_digits st" and "headers_ok hs" and "iteration_order it2"
  shows "client_run ext it io rbd tc addr q s = None"
proof -
  have "client_exchange ext it io rbd q (cl_conns s1 conn) = None"
    by (rule peer_closed.cut_response_hangs [OF assms(1-3,6) assms(7) [unfolded assms(8)] assms(9) [unfolded assms(8)]
          assms(10-12)])
  with assms(4,5) show ?thesis by (simp add: client_run_def and_then_def map_err_def)
qed

theorem client_hangs_on_cut_response_witness:
  "client_run text_externals rev (tcp_io (mem_tcp_stream 3)) cursor_read mem_tcp ''a:80''
     (\<lparr>rq_method = GET, rq_uri = ''/'', rq_version = ''HTTP/1.1'', rq_headers = headers_new, rq_body = None\<rparr>
        :: (string, byte list) request)
     \<lparr>cl_env = (), cl_pool = [],
      cl_conns = (\<lambda>_. \<lparr>ms_in = status_line_text OK @ ''Server: x'', ms_out = [], ms_done = False\<rparr>), cl_alive = True\<rparr> = None"
proof -
  let ?q = "\<lparr>rq_method = GET, rq_uri = ''/'', rq_version = ''HTTP/1.1'', rq_headers = headers_new, rq_body = None\<rparr>
    :: (string, byte list) request"
  let ?s = "\<lparr>cl_env = (), cl_pool = [], cl_conns = (\<lambda>_. \<lparr>ms_in = status_line_text OK @ ''Server: x'', ms_out = [], ms_done = False\<rparr>),
    cl_alive = True\<rparr>"
  let ?hs = "\<lparr>header_map = [(''Server'', [''xy''])]\<rparr>"
  let ?head = "headers_text (rev (header_map ?hs))"
  have head: "take 9 ?head = ''Server: x''" "9 < length ?head" "headers_ok ?hs" by code_simp+
  have conn: "headers_get (rq_headers ?q) ''Connection'' \<noteq> Some []" "persists (rq_version ?q) (rq_headers ?q)"
    by (simp_all add: persists_def)
  have take: "client_take mem_tcp ''a:80'' ?q ?s = Some (Ok 9, ?s)"
    using request_is_connection_persistent_eq [OF conn(1)] conn(2)
    by (simp add: client_take_def pool_get_def client_connect_def mem_tcp_def and_then_def map_err_def hm_get_def hm_remove_def)
  have clone: "tc_try_clone mem_tcp 9 s = Some (Ok (), s)" for s :: "(unit, mem_socket) client" by (simp add: mem_tcp_def)
  have inp: "ms_in (cl_conns ?s 9) = status_line_text OK @ take 9 ?head" "\<not> ms_done (cl_conns ?s 9)"
    by (simp_all add: head(1) [simplified])
  have three: "three_digits OK" by (simp add: three_digits_def)
  show ?thesis
    by (rule client_hangs_on_cut_response [OF mem_closed.peer_closed_axioms cursor.eof_source_axioms _ take clone inp(2,1) refl
          head(2) three head(3) iteration_order_rev]) simp
qed

end
