(* ===== verification/Dialogue.thy ===== *)
theory Dialogue
  imports Server_Connection
begin

text \<open>
  Whole conversations of \<^verbatim>\<open>handle_conversation\<close> with a peer that waits for each answer
  before it sends its next request: what the peer gets, and how the connection ends. The contract
  of such a peer is stated for a connection (\<open>dialogue\<close>) and for the system below a cancellable
  stream (\<open>waiting_peer\<close>), which provides it.
\<close>

section \<open>A peer that waits for its answers\<close>

text \<open>
  The two sides take turns: what the other side has still to send arrives message by message, the
  next one when what was written has been flushed.
\<close>

locale turn_taking =
  fixes io :: "'c connection_io" and incoming outgoing :: "'c \<Rightarrow> byte list" and up :: "'c \<Rightarrow> bool"
    and tries :: "'c \<Rightarrow> nat" and upcoming :: "'c \<Rightarrow> byte list list"
  assumes talks: "connection io incoming outgoing (\<lambda>c. up c \<and> upcoming c = ms) tries"
    and flushed: "up c \<Longrightarrow> incoming c = [] \<Longrightarrow> \<exists>c'. tm_flush (ci_stream io) c = Some (Ok (), c') \<and> up c'
      \<and> outgoing c' = outgoing c \<and> incoming c' = (case upcoming c of [] \<Rightarrow> [] | m # _ \<Rightarrow> m)
      \<and> upcoming c' = tl (upcoming c)"

text \<open>
  A peer of the server that has nothing more to send has closed the connection, which the next read
  finds; a connection can be shut down.
\<close>

locale dialogue = turn_taking io incoming outgoing up tries upcoming
  for io :: "'c connection_io" and incoming outgoing up tries upcoming +
  fixes gone :: "'c \<Rightarrow> bool"
  assumes hung_up: "up c \<Longrightarrow> incoming c = [] \<Longrightarrow> upcoming c = [] \<Longrightarrow> 0 < n \<Longrightarrow>
      \<exists>e c'. tm_read (ci_stream io) n c = Some (Err e, c') \<and> io_kind e \<noteq> Interrupted \<and> up c'
        \<and> incoming c' = [] \<and> upcoming c' = [] \<and> outgoing c' = outgoing c"
    and closes: "up c \<Longrightarrow> \<exists>r c'. ci_shutdown io c = Some (r, c') \<and> r \<noteq> Panic \<and> gone c' \<and> outgoing c' = outgoing c"

text \<open>One exchange: the request of the peer, and the handler that is registered for it with its answer.\<close>

record ('c, 'm, 'rb) exchange =
  ex_line :: request_line
  ex_headers :: headers
  ex_body :: "byte list"
  ex_path :: string
  ex_handler :: "('m, 'c request_reader take_reader, 'rb) handler"
  ex_response :: "('m, 'rb) response"

definition exchange_text :: "entry_order \<Rightarrow> ('c, 'm, 'rb) exchange \<Rightarrow> byte list" where
  "exchange_text it x = request_text it (ex_line x) (ex_headers x) (ex_body x)"

definition exchange_answer :: "entry_order \<Rightarrow> ('rb \<Rightarrow> byte list) \<Rightarrow> ('c, 'm, 'rb) exchange \<Rightarrow> byte list" where
  "exchange_answer it rcontent x = response_text it rcontent (ex_response x)"

definition exchange_ok :: "'m externals \<Rightarrow> 'c connection_io \<Rightarrow> ('c \<Rightarrow> byte list) \<Rightarrow> ('c \<Rightarrow> byte list) \<Rightarrow> ('c \<Rightarrow> bool)
    \<Rightarrow> ('rb \<Rightarrow> bool) \<Rightarrow> ('m, 'c request_reader take_reader, 'rb) handler router \<Rightarrow> ('c, 'm, 'rb) exchange \<Rightarrow> bool" where
  "exchange_ok ext io incoming outgoing up rok rts x \<longleftrightarrow>
     request_line_ok (ex_line x) \<and> headers_ok (ex_headers x) \<and> request_framed ext (ex_headers x) (ex_body x)
     \<and> normalize (rl_uri (ex_line x)) = Ok (ex_path x)
     \<and> router_get_prefix rts (ex_path x) (rl_method (ex_line x)) = Some (ex_handler x)
     \<and> (\<forall>sent q. delivered incoming (reader_ok up outgoing sent) (ex_line x) (ex_headers x) (ex_body x) (ex_path x) q
          \<longrightarrow> answers io (ex_handler x) (ex_response x) q)
     \<and> (\<forall>b. rs_body (ex_response x) = Some b \<longrightarrow> rok (body_content b))"

definition stays_open :: "('c, 'm, 'rb) exchange \<Rightarrow> bool" where
  "stays_open x \<longleftrightarrow> persists (rl_version (ex_line x)) (ex_headers x)"

text \<open>The exchanges up to the first one after which the connection does not stay open.\<close>

fun held :: "('c, 'm, 'rb) exchange list \<Rightarrow> ('c, 'm, 'rb) exchange list" where
  "held [] = []"
| "held (x # xs) = x # (if stays_open x then held xs else [])"

lemma delivered_mono:
  assumes "delivered incoming (reader_ok (\<lambda>c. up c \<and> P c) outgoing sent) rl hs body path q"
  shows "delivered incoming (reader_ok up outgoing sent) rl hs body path q"
  using assms by (auto simp: delivered_def reader_ok_def split: option.splits)

text \<open>A stream that fails before the first byte of a request.\<close>

lemma request_read_failed:
  assumes "rd buf_capacity s = Some (Err e, s')" and "io_kind e \<noteq> Interrupted"
  shows "request_read_from ext rd s = Some (Err (http_error_from_io e), bufreader_new s')"
  using assms
  by (simp add: request_read_from_def request_read_buffered_def request_line_read_def and_then_def map_err_def
      read_until.simps [of rd] fill_buf_def bufreader_new_def)

context dialogue
begin

lemma hung_up_timeout:
  assumes "up c" and "incoming c = []" and "upcoming c = []" and "0 < n" and "0 < as_secs d"
  shows "\<exists>e ts. timeout_read (ci_stream io) n (timeout_stream_from c (Some d) w) = Some (Err e, ts)
    \<and> io_kind e \<noteq> Interrupted \<and> up (ts_stream ts) \<and> incoming (ts_stream ts) = [] \<and> upcoming (ts_stream ts) = []
    \<and> outgoing (ts_stream ts) = outgoing c"
proof -
  have left: "op_left (op_from_timeout d) = as_secs d" by (simp add: op_left_def op_from_timeout_def)
  obtain c1 where c1: "tm_set_read_timeout (ci_stream io) (Some (from_secs (as_secs d))) c = Some (Ok (), c1)"
    "up c1" "incoming c1 = []" "upcoming c1 = []" "outgoing c1 = outgoing c"
    using fast_source.set_read_ok [OF connection.reading [OF talks [of "[]"], of "outgoing c"], of c] assms(1-3) by metis
  obtain e c2 where "tm_read (ci_stream io) n c1 = Some (Err e, c2)" "io_kind e \<noteq> Interrupted" "up c2"
    "incoming c2 = []" "upcoming c2 = []" "outgoing c2 = outgoing c1"
    using hung_up [OF c1(2-4) assms(4)] by blast
  with c1 left assms(5) show ?thesis
    by (auto simp: timeout_read_def timeout_stream_from_def timed_call_def next_timeout_left
        would_block_is_timeout_def)
qed

lemma turn_hung_up:
  assumes "up c" and "incoming c = []" and "upcoming c = []" and "0 < as_secs (read_request_timeout t)"
  obtains c' where "handle_connection ext it io rbd rts t c = Some (Ok False, c')" "up c'" "incoming c' = []"
    "upcoming c' = []" "outgoing c' = outgoing c"
proof -
  have "0 < buf_capacity" by (simp add: buf_capacity_def)
  from hung_up_timeout [OF assms(1-3) this assms(4)] obtain e ts where
    ts: "timeout_read (ci_stream io) buf_capacity
      (timeout_stream_from c (Some (read_request_timeout t)) (Some (write_response_timeout t))) = Some (Err e, ts)"
      "io_kind e \<noteq> Interrupted" "up (ts_stream ts)" "incoming (ts_stream ts) = []" "upcoming (ts_stream ts) = []"
      "outgoing (ts_stream ts) = outgoing c" by blast
  have "\<nexists>x. http_error_from_io e = InvalidRequest x" by (simp add: http_error_from_io_def split: io_kind.split)
  then have "handle_connection ext it io rbd rts t c = Some (Ok False, ts_stream ts)"
    using request_read_failed [where rd = "timeout_read (ci_stream io)" and ext = ext, OF ts(1,2)]
    by (cases "http_error_from_io e") (simp_all add: handle_connection_def conn_of_def bufreader_new_def)
  with ts show thesis by (intro that [of "ts_stream ts"]) simp_all
qed

text \<open>The turn that ends a conversation.\<close>

lemma last_turn:
  assumes "handle_connection ext it io rbd rts t c = Some (Ok False, c1)" and "up c1" and "incoming c1 = []"
  shows "\<exists>c'. handle_conversation ext it io rbd rts t c = Some (Ok (), c') \<and> gone c' \<and> outgoing c' = outgoing c1"
proof -
  obtain c2 where c2: "tm_flush (ci_stream io) c1 = Some (Ok (), c2)" "up c2" "outgoing c2 = outgoing c1"
    using flushed [OF assms(2,3)] by blast
  obtain r c3 where "ci_shutdown io c2 = Some (r, c3)" "r \<noteq> Panic" "gone c3" "outgoing c3 = outgoing c2"
    using closes [OF c2(2)] by blast
  with c2 assms(1) show ?thesis by (subst handle_conversation.simps) simp
qed

lemma turn_served:
  assumes "eof_source rbd rcontent rok rretries" and "iteration_order itq"
    and "0 < as_secs (read_request_timeout t)" and "0 < as_secs (write_response_timeout t)"
    and "exchange_ok ext io incoming outgoing up rok rts x" and "up c" and "incoming c = exchange_text itq x"
  obtains c' where "handle_connection ext it io rbd rts t c = Some (Ok (stays_open x), c')" "up c'" "incoming c' = []"
    "upcoming c' = upcoming c" "outgoing c' = outgoing c @ exchange_answer it rcontent x"
proof -
  have x: "request_line_ok (ex_line x)" "headers_ok (ex_headers x)" "request_framed ext (ex_headers x) (ex_body x)"
    "normalize (rl_uri (ex_line x)) = Ok (ex_path x)"
    "router_get_prefix rts (ex_path x) (rl_method (ex_line x)) = Some (ex_handler x)"
    "\<forall>b. rs_body (ex_response x) = Some b \<longrightarrow> rok (body_content b)"
    using assms(5) by (simp_all add: exchange_ok_def)
  have ans: "answers io (ex_handler x) (ex_response x) q"
    if "delivered incoming (reader_ok (\<lambda>c'. up c' \<and> upcoming c' = upcoming c) outgoing (outgoing c)) (ex_line x)
      (ex_headers x) (ex_body x) (ex_path x) q" for q
    using delivered_mono [OF that] assms(5) by (simp add: exchange_ok_def)
  have here: "up c \<and> upcoming c = upcoming c" and inp: "incoming c = request_text itq (ex_line x) (ex_headers x) (ex_body x) @ []"
    using assms(6,7) by (simp_all add: exchange_text_def)
  show thesis
    using connection.request_served [OF talks assms(1) here inp x(1,2) assms(2) x(3) assms(3,4) x(4,5) ans x(6)] that
    by (auto simp: stays_open_def exchange_answer_def)
qed

text \<open>Going on: the answer is flushed, and the next request is there.\<close>

lemma next_turn:
  assumes "handle_connection ext it io rbd rts t c = Some (Ok True, c1)" and "up c1" and "incoming c1 = []"
  obtains c2 where "handle_conversation ext it io rbd rts t c = handle_conversation ext it io rbd rts t c2" "up c2"
    "outgoing c2 = outgoing c1" "incoming c2 = (case upcoming c1 of [] \<Rightarrow> [] | m # _ \<Rightarrow> m)" "upcoming c2 = tl (upcoming c1)"
proof -
  obtain c2 where "tm_flush (ci_stream io) c1 = Some (Ok (), c2)" "up c2" "outgoing c2 = outgoing c1"
    "incoming c2 = (case upcoming c1 of [] \<Rightarrow> [] | m # _ \<Rightarrow> m)" "upcoming c2 = tl (upcoming c1)"
    using flushed [OF assms(2,3)] by blast
  with assms(1) show thesis by (intro that) (subst handle_conversation.simps, simp_all)
qed

lemma conversation_held:
  assumes "eof_source rbd rcontent rok rretries" and "iteration_order itq"
    and "0 < as_secs (read_request_timeout t)" and "0 < as_secs (write_response_timeout t)"
    and "list_all (exchange_ok ext io incoming outgoing up rok rts) xs"
    and "up c" and "incoming c = (case map (exchange_text itq) xs of [] \<Rightarrow> [] | m # _ \<Rightarrow> m)"
    and "upcoming c = tl (map (exchange_text itq) xs)"
  shows "\<exists>c'. handle_conversation ext it io rbd rts t c = Some (Ok (), c') \<and> gone c'
    \<and> outgoing c' = outgoing c @ concat (map (exchange_answer it rcontent) (held xs))"
  using assms(5-)
proof (induction xs arbitrary: c)
  case Nil
  obtain c1 where c1: "handle_connection ext it io rbd rts t c = Some (Ok False, c1)" "up c1" "incoming c1 = []"
    "upcoming c1 = []" "outgoing c1 = outgoing c"
    by (rule turn_hung_up [OF Nil(2) _ _ assms(3)]) (use Nil in simp_all)
  from last_turn [OF c1(1-3)] c1(5) show ?case by simp
next
  case (Cons x xs)
  obtain c1 where c1: "handle_connection ext it io rbd rts t c = Some (Ok (stays_open x), c1)" "up c1" "incoming c1 = []"
    "upcoming c1 = upcoming c" "outgoing c1 = outgoing c @ exchange_answer it rcontent x"
    by (rule turn_served [where it = it, OF assms(1-4), of ext rts x c]) (use Cons.prems in simp_all)
  show ?case
  proof (cases "stays_open x")
    case True
    obtain c2 where c2: "handle_conversation ext it io rbd rts t c = handle_conversation ext it io rbd rts t c2" "up c2"
      "outgoing c2 = outgoing c1" "incoming c2 = (case upcoming c1 of [] \<Rightarrow> [] | m # _ \<Rightarrow> m)" "upcoming c2 = tl (upcoming c1)"
      by (rule next_turn [of ext it rbd rts t c c1]) (use c1 True in simp_all)
    from Cons.IH [of c2] Cons.prems c1(4) c2(2,4,5)
    obtain c' where "handle_conversation ext it io rbd rts t c2 = Some (Ok (), c')" "gone c'"
      "outgoing c' = outgoing c2 @ concat (map (exchange_answer it rcontent) (held xs))" by auto
    with True c1(5) c2(1,3) show ?thesis by simp
  next
    case False
    with last_turn [of ext it rbd rts t c c1] c1 show ?thesis by simp
  qed
qed

end

section \<open>The system below a cancellable stream\<close>

text \<open>
  The same of a system: a socket on which nothing arrives while a request is served, whose flush
  is the moment at which the peer has its answer, and which reports the end of the input as a
  read of no bytes.
\<close>

locale waiting_peer =
  fixes os :: "'s os" and incoming outgoing :: "'s \<Rightarrow> byte list" and up :: "'s \<Rightarrow> bool"
    and tries :: "'s \<Rightarrow> nat" and upcoming :: "'s \<Rightarrow> byte list list" and gone :: "'s \<Rightarrow> bool"
  assumes peer: "socket os incoming outgoing (\<lambda>s. up s \<and> upcoming s = ms) tries"
    and clock: "as_secs (os_now os s' - os_now os s) = 0"
    and flush_ok: "up s \<Longrightarrow> incoming s = [] \<Longrightarrow> \<exists>s'. os_flush os s = Some (Ok (), s') \<and> up s'
      \<and> outgoing s' = outgoing s \<and> incoming s' = (case upcoming s of [] \<Rightarrow> [] | m # _ \<Rightarrow> m)
      \<and> upcoming s' = tl (upcoming s)"
    and read_end: "up s \<Longrightarrow> incoming s = [] \<Longrightarrow> upcoming s = [] \<Longrightarrow> 0 < n \<Longrightarrow> \<exists>s'. os_read os n s = Some (Ok [], s')
      \<and> up s' \<and> incoming s' = [] \<and> upcoming s' = [] \<and> outgoing s' = outgoing s"
    and shutdown_ok: "up s \<Longrightarrow> \<exists>r s'. os_shutdown os (os_set_done os s) = Some (r, s') \<and> r \<noteq> Panic \<and> gone s'
      \<and> outgoing s' = outgoing s"

text \<open>A socket with a slow clock makes a connection.\<close>

lemma socket_connection:
  assumes "socket os incoming outgoing up tries" and "\<And>s s'. as_secs (os_now os s' - os_now os s) = 0"
  shows "connection (cancellable_io os) (\<lambda>c. incoming (cs_stream c)) (\<lambda>c. outgoing (cs_stream c))
    (\<lambda>c. up (cs_stream c)) (\<lambda>c. tries (cs_stream c))"
proof (rule connection.intro)
  fix sent
  show "fast_source (ci_stream (cancellable_io os)) (\<lambda>c. incoming (cs_stream c))
      (\<lambda>c. up (cs_stream c) \<and> outgoing (cs_stream c) = sent) (\<lambda>c. tries (cs_stream c))"
    using socket.read_source [OF assms(1), of sent]
    by (simp add: fast_source_def fast_source_axioms_def cancellable_io_def cancellable_timed_def set_read_timeout_def
        assms(2) del: split_paired_All)
next
  show "fast_sink (ci_stream (cancellable_io os)) (\<lambda>c bs c'. outgoing (cs_stream c') = outgoing (cs_stream c) @ bs
      \<and> incoming (cs_stream c') = incoming (cs_stream c)) (\<lambda>c. up (cs_stream c)) (\<lambda>c. tries (cs_stream c))"
    using socket.write_sink [OF assms(1)]
    by (simp add: fast_sink_def fast_sink_axioms_def cancellable_io_def cancellable_timed_def set_write_timeout_def
        assms(2))
qed

context waiting_peer
begin

text \<open>The end of the input is a reset of the cancellable stream, unless it was cancelled.\<close>

lemma read_int_end:
  assumes "up (cs_stream c)" and "incoming (cs_stream c) = []" and "upcoming (cs_stream c) = []" and "0 < n"
  shows "\<exists>e c'. read_int os n c = Some (Err e, c') \<and> io_kind e \<noteq> Interrupted \<and> up (cs_stream c')
    \<and> incoming (cs_stream c') = [] \<and> upcoming (cs_stream c') = [] \<and> outgoing (cs_stream c') = outgoing (cs_stream c)"
proof -
  have here: "up (cs_stream c) \<and> upcoming (cs_stream c) = []" using assms by simp
  obtain s1 where s1: "os_modify os (event_readable 1) (cs_stream c) = Some (Ok (), s1)" "up s1 \<and> upcoming s1 = []"
    "incoming s1 = []" "outgoing s1 = outgoing (cs_stream c)"
    using socket.modify_ok [OF peer here, of "event_readable 1"] assms(2) by auto
  obtain s2 e where s2: "os_wait os (cs_read_timeout c) s1 = Some (Ok [e], s2)" "ev_key e = 1" "up s2 \<and> upcoming s2 = []"
    "incoming s2 = []" "outgoing s2 = outgoing s1"
    using socket.wait_ok [OF peer s1(2), of "cs_read_timeout c"] s1(3) by auto
  obtain s3 where "os_read os n s2 = Some (Ok [], s3)" "up s3" "incoming s3 = []" "upcoming s3 = []" "outgoing s3 = outgoing s2"
    using read_end [of s2 n] s2(3,4) assms(4) by blast
  then show ?thesis using s1 s2 assms(4) by (simp add: read_int_def on_stream_def and_then_def)
qed

end

sublocale waiting_peer \<subseteq> cancellable: dialogue "cancellable_io os" "\<lambda>c. incoming (cs_stream c)"
  "\<lambda>c. outgoing (cs_stream c)" "\<lambda>c. up (cs_stream c)" "\<lambda>c. tries (cs_stream c)" "\<lambda>c. upcoming (cs_stream c)"
  "\<lambda>c. gone (cs_stream c)"
proof (intro dialogue.intro turn_taking.intro dialogue_axioms.intro)
  fix ms
  show "connection (cancellable_io os) (\<lambda>c. incoming (cs_stream c)) (\<lambda>c. outgoing (cs_stream c))
      (\<lambda>c. up (cs_stream c) \<and> upcoming (cs_stream c) = ms) (\<lambda>c. tries (cs_stream c))"
    by (rule socket_connection [OF peer clock])
next
  fix c :: "'s cancellable" assume "up (cs_stream c)" "incoming (cs_stream c) = []"
  from flush_ok [OF this] show "\<exists>c'. tm_flush (ci_stream (cancellable_io os)) c = Some (Ok (), c') \<and> up (cs_stream c')
      \<and> outgoing (cs_stream c') = outgoing (cs_stream c)
      \<and> incoming (cs_stream c') = (case upcoming (cs_stream c) of [] \<Rightarrow> [] | m # _ \<Rightarrow> m)
      \<and> upcoming (cs_stream c') = tl (upcoming (cs_stream c))"
    by (auto simp: cancellable_io_def cancellable_timed_def cancellable_flush_def on_stream_def)
next
  fix c :: "'s cancellable" and n :: nat
  assume "up (cs_stream c)" "incoming (cs_stream c) = []" "upcoming (cs_stream c) = []" "0 < n"
  from read_int_end [OF this] show "\<exists>e c'. tm_read (ci_stream (cancellable_io os)) n c = Some (Err e, c')
      \<and> io_kind e \<noteq> Interrupted \<and> up (cs_stream c') \<and> incoming (cs_stream c') = [] \<and> upcoming (cs_stream c') = []
      \<and> outgoing (cs_stream c') = outgoing (cs_stream c)"
    by (simp add: cancellable_io_def cancellable_timed_def)
next
  fix c :: "'s cancellable" assume "up (cs_stream c)"
  from shutdown_ok [OF this] show "\<exists>r c'. ci_shutdown (cancellable_io os) c = Some (r, c') \<and> r \<noteq> Panic \<and> gone (cs_stream c')
      \<and> outgoing (cs_stream c') = outgoing (cs_stream c)"
    by (auto simp: cancellable_io_def cancellable_shutdown_def on_stream_def)
qed

text \<open>Such a peer in memory.\<close>

record mem_peer =
  mp_in :: "byte list"
  mp_next :: "byte list list"
  mp_out :: "byte list"
  mp_done :: bool

definition peer_os :: "nat \<Rightarrow> mem_peer os" where
  "peer_os k =
     \<lparr>os_poller_new = ret (), os_add = (\<lambda>_. ret ()), os_modify = (\<lambda>_. ret ()),
      os_wait = (\<lambda>_. ret [event_all 1]),
      os_read = (\<lambda>n s. Some (Ok (take (min n (Suc k)) (mp_in s)), s\<lparr>mp_in := drop (min n (Suc k)) (mp_in s)\<rparr>)),
      os_write = (\<lambda>bs s. Some (Ok (length (take (Suc k) bs)), s\<lparr>mp_out := mp_out s @ take (Suc k) bs\<rparr>)),
      os_flush = (\<lambda>s. Some (Ok (), if mp_in s = [] \<and> mp_next s \<noteq> [] then s\<lparr>mp_in := hd (mp_next s), mp_next := tl (mp_next s)\<rparr> else s)),
      os_shutdown = ret (), os_set_nonblocking = (\<lambda>_. ret ()),
      os_set_read_timeout = (\<lambda>_. ret ()), os_set_write_timeout = (\<lambda>_. ret ()),
      os_done = mp_done, os_set_done = (\<lambda>s. s\<lparr>mp_done := True\<rparr>), os_now = (\<lambda>_. 0)\<rparr>"

interpretation mem_peer: waiting_peer "peer_os k" mp_in mp_out "\<lambda>s. \<not> mp_done s" "\<lambda>_. 0" mp_next mp_done
proof (rule waiting_peer.intro)
  show "socket (peer_os k) mp_in mp_out (\<lambda>s. \<not> mp_done s \<and> mp_next s = ms) (\<lambda>_. 0)" for ms
    by unfold_locales (auto simp: peer_os_def event_all_def min_def)
qed (auto simp: peer_os_def as_secs_def split: list.split)

section \<open>Properties\<close>

text \<open>
  C1. The server holds a whole conversation. With a peer that sends well-formed requests one after
  the other, each when it has the answer to the one before, the conversation returns; every request
  up to the first that is not persistent is answered, in order, with exactly the text of the response of the
  handler of its path (which may depend on the request and read its body), nothing else is
  written, later requests are not read, and the connection is shut down, also when the peer
  hangs up after a persistent request.
\<close>

theorem conversation_answers_all:
  fixes xs :: "('c, 'm, 'rb) exchange list"
  assumes "dialogue io incoming outgoing up tries upcoming gone"
    and "eof_source rbd rcontent rok rretries" and "iteration_order itq"
    and "0 < as_secs (read_request_timeout t)" and "0 < as_secs (write_response_timeout t)"
    and "list_all (exchange_ok ext io incoming outgoing up rok rts) xs"
    and "up c" and "incoming c = (case map (exchange_text itq) xs of [] \<Rightarrow> [] | m # _ \<Rightarrow> m)"
    and "upcoming c = tl (map (exchange_text itq) xs)"
  shows "\<exists>c'. handle_conversation ext it io rbd rts t c = Some (Ok (), c') \<and> gone c'
    \<and> outgoing c' = outgoing c @ concat (map (exchange_answer it rcontent) (held xs))"
  by (rule dialogue.conversation_held [OF assms])

text \<open>Three requests, of which the second closes the connection.\<close>

theorem conversation_answers_all_witness:
  "\<exists>h rts c'. router_add ''/'' GET h router_new = Some rts
     \<and> handle_conversation text_externals rev (cancellable_io (peer_os 2)) cursor_read rts
         \<lparr>read_request_timeout = from_secs 5, write_response_timeout = from_secs 5\<rparr>
         \<lparr>cs_stream = \<lparr>mp_in = request_text rev \<lparr>rl_method = GET, rl_uri = ''/a'', rl_version = ''HTTP/1.1''\<rparr> headers_new [],
            mp_next = [request_text rev \<lparr>rl_method = GET, rl_uri = ''/b'', rl_version = ''HTTP/1.1''\<rparr>
               \<lparr>header_map = [(''Connection'', [''close''])]\<rparr> [],
             request_text rev \<lparr>rl_method = GET, rl_uri = ''/a'', rl_version = ''HTTP/1.1''\<rparr> headers_new []],
            mp_out = [], mp_done = False\<rparr>, cs_read_timeout = None, cs_write_timeout = None\<rparr> = Some (Ok (), c')
     \<and> mp_done (cs_stream c')
     \<and> mp_out (cs_stream c') = response_text rev (\<lambda>s. s) (response_from_status OK :: (string, byte list) response)
         @ response_text rev (\<lambda>s. s) (response_from_status NotFoundStatus :: (string, byte list) response)"
proof -
  let ?io = "cancellable_io (peer_os 2)"
  let ?resp = "\<lambda>uri. response_from_status (if uri = ''/a'' then OK else NotFoundStatus) :: (string, byte list) response"
  let ?h = "\<lambda>q. Some (Ok (?resp (rq_uri q)), q)
    :: (((string, byte list) response, unit) res \<times> (string, mem_peer cancellable request_reader take_reader) request) option"
  let ?x = "\<lambda>uri hs. \<lparr>ex_line = \<lparr>rl_method = GET, rl_uri = uri, rl_version = ''HTTP/1.1''\<rparr>, ex_headers = hs, ex_body = [],
    ex_path = uri, ex_handler = ?h, ex_response = ?resp uri\<rparr>"
  let ?close = "\<lparr>header_map = [(''Connection'', [''close''])]\<rparr>"
  let ?xs = "[?x ''/a'' headers_new, ?x ''/b'' ?close, ?x ''/a'' headers_new]"
  let ?t = "\<lparr>read_request_timeout = from_secs 5, write_response_timeout = from_secs 5\<rparr>"
  let ?c = "\<lparr>cs_stream = \<lparr>mp_in = exchange_text rev (?xs ! 0), mp_next = [exchange_text rev (?xs ! 1), exchange_text rev (?xs ! 2)],
    mp_out = [], mp_done = False\<rparr>, cs_read_timeout = None, cs_write_timeout = None\<rparr>"
  obtain rts where rts: "router_add ''/'' GET ?h router_new = Some rts" by (simp add: router_add_eq)
  have path: "normalize uri = Ok uri" "router_get_prefix rts uri GET = Some ?h" if "uri = ''/a'' \<or> uri = ''/b''" for uri
  proof -
    have "uri = canonical [tl uri]" using that by (auto simp: canonical_def)
    from root_route_prefix [OF rts, of "[tl uri]" GET] this show "router_get_prefix rts uri GET = Some ?h" by simp
    show "normalize uri = Ok uri" using that by (auto simp: normalize_eq has_root_def canonical_def)
  qed
  have ok: "exchange_ok text_externals ?io (\<lambda>c. mp_in (cs_stream c)) (\<lambda>c. mp_out (cs_stream c))
      (\<lambda>c. \<not> mp_done (cs_stream c)) (\<lambda>_. True) rts (?x uri hs)"
    if "uri = ''/a'' \<or> uri = ''/b''" "hs = headers_new \<or> hs = ?close" for uri hs
  proof -
    have "request_line_ok \<lparr>rl_method = GET, rl_uri = uri, rl_version = ''HTTP/1.1''\<rparr>" "headers_ok hs"
      using that by (elim disjE; simp; code_simp)+
    moreover have "request_framed text_externals hs []"
      using that(2) by (auto simp: request_framed_def headers_get_def hm_get_def headers_new_def)
    moreover have "answers ?io ?h (?resp uri) q" if "rq_uri q = uri" for q
      using that answers_at_once [of ?io "?resp uri" q] by (simp add: answers_def)
    ultimately show ?thesis
      using path [OF that(1)] by (simp add: exchange_ok_def delivered_def response_from_status_def)
  qed
  have oks: "list_all (exchange_ok text_externals ?io (\<lambda>c. mp_in (cs_stream c)) (\<lambda>c. mp_out (cs_stream c))
      (\<lambda>c. \<not> mp_done (cs_stream c)) (\<lambda>_. True) rts) ?xs"
    by (simp only: list.pred_inject, intro conjI ok TrueI) simp_all
  have "\<exists>c'. handle_conversation text_externals rev ?io cursor_read rts ?t ?c = Some (Ok (), c') \<and> mp_done (cs_stream c')
    \<and> mp_out (cs_stream c') = mp_out (cs_stream ?c) @ concat (map (exchange_answer rev (\<lambda>s. s)) (held ?xs))"
    by (rule conversation_answers_all [OF mem_peer.cancellable.dialogue_axioms cursor.eof_source_axioms iteration_order_rev
          _ _ oks]) simp_all
  moreover have "persists ''HTTP/1.1'' headers_new" "\<not> persists ''HTTP/1.1'' ?close" by code_simp+
  then have "stays_open (?x ''/a'' headers_new)" "\<not> stays_open (?x ''/b'' ?close)" by (simp_all add: stays_open_def)
  ultimately show ?thesis using rts by (auto simp: exchange_answer_def exchange_text_def)
qed

end
