(* ===== verification/Client_Server.thy ===== *)
theory Client_Server
  imports Client Dialogue
begin

text \<open>
  The client of \<^verbatim>\<open>http/client/\<close> and the server of \<^verbatim>\<open>lib.rs\<close> at the two ends of
  one connection. Each side is proved against the contract of its own end (\<open>turn_taking\<close>,
  \<open>dialogue\<close>); what closes the circle is that the messages in the contract of one side are the
  bytes that the other side is shown to write.
\<close>

section \<open>The two sides agree on the texts of messages\<close>

definition line_of :: "('n, 'qb) request \<Rightarrow> request_line" where
  "line_of q = \<lparr>rl_method = rq_method q, rl_uri = rq_uri q, rl_version = rq_version q\<rparr>"

definition sent_headers :: "('n, 'qb) request \<Rightarrow> headers" where
  "sent_headers q = ensure_length_header (rq_body q) (rq_headers q)"

definition answered_headers :: "('m, 'rb) response \<Rightarrow> headers" where
  "answered_headers p = ensure_length_header (rs_body p) (rs_headers p)"

lemma request_wire_text:
  "request_wire it content q = request_text it (line_of q) (sent_headers q) (body_bytes content (rq_body q))"
  by (simp add: request_wire_def request_text_def line_of_def sent_headers_def)

lemma response_text_wire:
  "response_text it content p = response_wire it (rs_status p) (answered_headers p) (body_bytes content (rs_body p))"
  by (simp add: response_text_def response_wire_def answered_headers_def)

lemma announces_framed:
  assumes "announces ext content hs body"
  shows "request_framed ext (ensure_length_header body hs) (body_bytes content body)"
proof (cases body)
  case None
  have "show_nat 0 = ''0''" by code_simp
  then have "parse_usize ''0'' = Ok 0" using parse_uint_show [of 0 "2 ^ 64"] by (simp add: parse_usize_def)
  with None assms show ?thesis
    by (simp add: announces_def request_framed_def body_bytes_def ensure_length_header_get,
        simp add: ensure_length_header_def headers_get_add content_length_zero_def)
next
  case (Some s)
  have "unat (content_length s) < 2 ^ 64" using unsigned_less [of "content_length s"] by simp
  with Some assms show ?thesis
    by (auto simp: announces_def request_framed_def body_bytes_def ensure_length_header_def parse_usize_def)
qed

section \<open>What the client has of an answer\<close>

text \<open>Copying the body of a response, as \<^verbatim>\<open>std::io::copy\<close> does, delivers these bytes.\<close>

definition body_arrives :: "'c connection_io \<Rightarrow> byte list \<Rightarrow> ('m, 'c request_reader take_reader) response \<Rightarrow> bool" where
  "body_arrives io body p \<longleftrightarrow>
     (case rs_body p of
        None \<Rightarrow> body = []
      | Some bd \<Rightarrow> \<exists>t. io_copy (body_reader io) vec_write (body_content bd, []) = Some (Ok (length body), (t, body)))"

definition answer_arrived :: "'c connection_io \<Rightarrow> ('rb \<Rightarrow> byte list) \<Rightarrow> ('m, 'rb) response
    \<Rightarrow> ('n, 'c request_reader take_reader) response \<Rightarrow> bool" where
  "answer_arrived io rcontent resp p \<longleftrightarrow>
     rs_status p = status_from_usize (usize_from_status (rs_status resp))
     \<and> headers_get (rs_headers p) = headers_get (answered_headers resp)
     \<and> body_arrives io (body_bytes rcontent (rs_body resp)) p"

context connection
begin

lemma body_at_arrives:
  assumes "response_at b body st hs p" and "br_content (\<lambda>ts. incoming (ts_stream ts)) b = body @ rest"
    and "reader_ok up outgoing sent (br_src b)"
  shows "body_arrives io body p"
proof (cases "rs_body p")
  case None
  then show ?thesis using assms(1) by (simp add: response_at_def body_arrives_def)
next
  case (Some bd)
  then have bd: "body_content bd = \<lparr>tk_inner = b, tk_limit = length body\<rparr>" using assms(1) by (simp add: response_at_def)
  note copy = copying.intro [OF byte_source.take_source [OF buffered] full_sink.axioms(1) [OF vec.full_sink_axioms]]
  from copying.io_copy_ok [OF copy [of sent rest], of "body_content bd" "[]"] assms(2,3) Some bd show ?thesis
    by (auto simp: body_arrives_def body_reader_def)
qed

end

section \<open>A session of the client\<close>

text \<open>
  A program that runs requests one after the other: it uses each response in some way, then drops
  it before it runs the next.
\<close>

fun client_session :: "'m externals \<Rightarrow> entry_order \<Rightarrow> 'c connection_io \<Rightarrow> 'qb reader \<Rightarrow> nat drain_order
    \<Rightarrow> (('e, 'c) client, 'a) tcp \<Rightarrow> (('m, 'c) client_response \<Rightarrow> ('m, 'c) client_response) \<Rightarrow> string
    \<Rightarrow> ('n, 'qb) request list \<Rightarrow> ('e, 'c) client \<Rightarrow> (('m, 'c) client_response list \<times> ('e, 'c) client) option" where
  "client_session ext it io qbd drain_order tc uses addr [] s = Some ([], s)"
| "client_session ext it io qbd drain_order tc uses addr (q # qs) s =
     (case client_run ext it io qbd tc addr q s of
        Some (Ok cr, s1) \<Rightarrow>
          (case client_response_drop drain_order io tc (uses cr) s1 of
             Some (Ok _, s2) \<Rightarrow>
               map_option (apfst ((#) cr)) (client_session ext it io qbd drain_order tc uses addr qs s2)
           | _ \<Rightarrow> None)
      | _ \<Rightarrow> None)"

text \<open>What the client asks in an exchange: a persistent request with a body that it can read.\<close>

definition asks :: "('qb \<Rightarrow> byte list) \<Rightarrow> ('qb \<Rightarrow> bool) \<Rightarrow> ('n, 'qb) request \<Rightarrow> ('d, 'm, 'rb) exchange \<Rightarrow> bool" where
  "asks qcontent qok q x \<longleftrightarrow>
     ex_line x = line_of q \<and> ex_headers x = sent_headers q \<and> ex_body x = body_bytes qcontent (rq_body q)
     \<and> headers_ok (rq_headers q) \<and> persists (rq_version q) (rq_headers q)
     \<and> (\<forall>b. rq_body q = Some b \<longrightarrow> qok (body_content b))"

definition answerable :: "'m externals \<Rightarrow> ('rb \<Rightarrow> byte list) \<Rightarrow> ('d, 'm, 'rb) exchange \<Rightarrow> bool" where
  "answerable ext rcontent x \<longleftrightarrow>
     (let p = ex_response x in
      three_digits (rs_status p) \<and> headers_ok (rs_headers p) \<and> announces ext rcontent (rs_headers p) (rs_body p))"

lemma asks_stays_open: "asks qcontent qok q x \<Longrightarrow> stays_open x"
  by (simp add: asks_def stays_open_def line_of_def sent_headers_def persists_def ensure_length_header_get)

lemma asks_held: "list_all2 (asks qcontent qok) qs xs \<Longrightarrow> held xs = xs"
  by (induction rule: list_all2_induct) (simp_all add: asks_stays_open)

lemma asks_text: "asks qcontent qok q x \<Longrightarrow> exchange_text it x = request_wire it qcontent q"
  by (simp add: asks_def exchange_text_def request_wire_text)

lemma asks_texts: "list_all2 (asks qcontent qok) qs xs \<Longrightarrow> map (request_wire it qcontent) qs = map (exchange_text it) xs"
  by (induction rule: list_all2_induct) (simp_all add: asks_text)

text \<open>The connection of the client between two requests, with the coming that are still to come.\<close>

definition idle_at :: "('c \<Rightarrow> bool) \<Rightarrow> ('c \<Rightarrow> byte list) \<Rightarrow> ('c \<Rightarrow> byte list list) \<Rightarrow> string \<Rightarrow> nat \<Rightarrow> byte list list
    \<Rightarrow> ('e, 'c) client \<Rightarrow> bool" where
  "idle_at up incoming upcoming addr conn coming s \<longleftrightarrow>
     resources_ok (cl_pool s) \<and> cl_alive s \<and> (\<exists>now. hm_get (cl_pool s) addr = Some (resource_new now conn))
     \<and> up (cl_conns s conn) \<and> incoming (cl_conns s conn) = [] \<and> upcoming (cl_conns s conn) = coming"

context turn_taking
begin

lemma session_step:
  assumes "idle_at up incoming upcoming addr conn (exchange_answer itr rcontent x # coming) s"
    and "eof_source qbd qcontent qok qretries" and "iteration_order itr" and "iteration_order drain_order"
    and "\<And>s. tc_try_clone tc conn s = Some (Ok (), s)" and "\<And>cr. response_used io cr (uses cr)"
    and "asks qcontent qok q x" and "answerable ext rcontent x"
  obtains cr s1 s2 where "client_run ext it io qbd tc addr q s = Some (Ok cr, s1)"
    "answer_arrived io rcontent (ex_response x) (cr_response cr)"
    "client_response_drop drain_order io tc (uses cr) s1 = Some (Ok (), s2)"
    "idle_at up incoming upcoming addr conn coming s2"
    "outgoing (cl_conns s2 conn) = outgoing (cl_conns s conn) @ exchange_text it x"
proof -
  let ?up = "\<lambda>ms c. up c \<and> upcoming c = ms" and ?p = "ex_response x"
  let ?a = "exchange_answer itr rcontent x"
  obtain now where pool: "hm_get (cl_pool s) addr = Some (resource_new now conn)"
    and s: "resources_ok (cl_pool s)" "cl_alive s" "?up (?a # coming) (cl_conns s conn)" "incoming (cl_conns s conn) = []"
    using assms(1) by (auto simp: idle_at_def)
  have res: "pr_resource (resource_new now conn) = conn" by (simp add: resource_new_def)
  have q: "\<forall>b. rq_body q = Some b \<longrightarrow> qok (body_content b)" "headers_get (rq_headers q) ''Connection'' \<noteq> Some []"
    "persists (rq_version q) (rq_headers q)"
    using assms(7) headers_ok_not_empty by (auto simp: asks_def)
  have p: "three_digits (rs_status ?p)" "headers_ok (answered_headers ?p)"
    "request_framed ext (answered_headers ?p) (body_bytes rcontent (rs_body ?p))"
    using assms(8) announces_framed ensure_length_header_ok by (auto simp: answerable_def Let_def answered_headers_def)
  have flush: "\<exists>c2. tm_flush (ci_stream io) c1 = Some (Ok (), c2) \<and> ?up coming c2 \<and> outgoing c2 = outgoing c1
      \<and> incoming c2 = response_wire itr (rs_status ?p) (answered_headers ?p) (body_bytes rcontent (rs_body ?p)) @ []"
    if "?up (?a # coming) c1" "incoming c1 = incoming (cl_conns s (pr_resource (resource_new now conn)))" for c1
    using flushed [of c1] that s(4) by (auto simp: res exchange_answer_def response_text_wire)
  have used: "tc_try_clone tc (pr_resource (resource_new now conn)) s = Some (Ok (), s)" for s
    unfolding res by (rule assms(5))
  have here: "?up (?a # coming) (cl_conns s (pr_resource (resource_new now conn)))" unfolding res by (rule s(3))
  obtain cr s1 b where x: "client_run ext it io qbd tc addr q s = Some (Ok cr, s1)"
    "response_at b (body_bytes rcontent (rs_body ?p)) (rs_status ?p) (answered_headers ?p) (cr_response cr)"
    "br_content (\<lambda>ts. incoming (ts_stream ts)) b = body_bytes rcontent (rs_body ?p) @ []"
    "reader_ok (?up coming) outgoing (outgoing (cl_conns s conn) @ request_wire it qcontent q) (br_src b)"
    and drop: "\<forall>cr'. response_used io cr cr' \<longrightarrow>
       (\<exists>s2 now lost. client_response_drop drain_order io tc cr' s1 = Some (Ok (), s2) \<and> resources_ok (cl_pool s2)
         \<and> cl_alive s2 \<and> hm_get (cl_pool s2) addr = Some (resource_new now conn)
         \<and> ?up coming (cl_conns s2 conn)
         \<and> outgoing (cl_conns s2 conn) = outgoing (cl_conns s conn) @ request_wire it qcontent q
         \<and> [] = lost @ incoming (cl_conns s2 conn))"
    by (rule client_reuse [where it = it, OF talks talks assms(2) q s(1) assms(4) pool s(2) used here flush p(1,2)
          assms(3) p(3), unfolded res]) blast
  obtain s2 where "client_response_drop drain_order io tc (uses cr) s1 = Some (Ok (), s2)"
    "idle_at up incoming upcoming addr conn coming s2"
    "outgoing (cl_conns s2 conn) = outgoing (cl_conns s conn) @ exchange_text it x"
    using drop [rule_format, OF assms(6) [of cr]] asks_text [OF assms(7), of it] by (auto simp: idle_at_def)
  moreover have "answer_arrived io rcontent ?p (cr_response cr)"
    using connection.body_at_arrives [OF talks x(2-4)] x(2) by (simp add: answer_arrived_def response_at_def)
  ultimately show thesis using x(1) by (intro that)
qed

lemma session_answered:
  assumes "eof_source qbd qcontent qok qretries" and "iteration_order itr" and "iteration_order drain_order"
    and "\<And>s. tc_try_clone tc conn s = Some (Ok (), s)" and "\<And>cr. response_used io cr (uses cr)"
    and "list_all2 (asks qcontent qok) qs xs" and "list_all (answerable ext rcontent) xs"
    and "idle_at up incoming upcoming addr conn (map (exchange_answer itr rcontent) xs) s"
  shows "\<exists>crs s'. client_session ext it io qbd drain_order tc uses addr qs s = Some (crs, s')
    \<and> list_all2 (\<lambda>cr x. answer_arrived io rcontent (ex_response x) (cr_response cr)) crs xs
    \<and> outgoing (cl_conns s' conn) = outgoing (cl_conns s conn) @ concat (map (exchange_text it) xs)
    \<and> idle_at up incoming upcoming addr conn [] s'"
  using assms(6-8)
proof (induction arbitrary: s rule: list_all2_induct)
  case (Cons q qs x xs)
  have idle: "idle_at up incoming upcoming addr conn (exchange_answer itr rcontent x # map (exchange_answer itr rcontent) xs) s"
    using Cons.prems by simp
  obtain cr s1 s2 where x: "client_run ext it io qbd tc addr q s = Some (Ok cr, s1)"
    "answer_arrived io rcontent (ex_response x) (cr_response cr)"
    "client_response_drop drain_order io tc (uses cr) s1 = Some (Ok (), s2)"
    "idle_at up incoming upcoming addr conn (map (exchange_answer itr rcontent) xs) s2"
    "outgoing (cl_conns s2 conn) = outgoing (cl_conns s conn) @ exchange_text it x"
    by (rule session_step [where it = it and ext = ext, OF idle assms(1-5) Cons.hyps(1)]) (use Cons.prems in simp_all)
  have "list_all (answerable ext rcontent) xs" using Cons.prems by simp
  from Cons.IH [OF this x(4)] x show ?case by auto
qed simp

end

section \<open>Both ends\<close>

lemma session_held:
  fixes xs :: "('d, 'm, 'rb) exchange list"
  assumes "dialogue io incoming outgoing up tries upcoming gone" and "turn_taking jo inc out open_end jtries coming"
    and "eof_source rbd rcontent rok rretries" and "eof_source qbd qcontent qok qretries"
    and "iteration_order itq" and "iteration_order itr" and "iteration_order drain_order"
    and "0 < as_secs (read_request_timeout t)" and "0 < as_secs (write_response_timeout t)"
    and "list_all (exchange_ok ext io incoming outgoing up rok rts) xs"
    and "list_all2 (asks qcontent qok) qs xs" and "list_all (answerable ext' rcontent) xs"
    and "up d" and "incoming d # upcoming d = (if qs = [] then [[]] else map (request_wire itq qcontent) qs)"
    and "idle_at open_end inc coming addr conn (map (\<lambda>x. response_text itr rcontent (ex_response x)) xs) s"
    and "\<And>s. tc_try_clone tc conn s = Some (Ok (), s)" and "\<And>cr. response_used jo cr (uses cr)"
  shows "\<exists>d' crs s'. handle_conversation ext itr io rbd rts t d = Some (Ok (), d') \<and> gone d'
    \<and> client_session ext' itq jo qbd drain_order tc uses addr qs s = Some (crs, s')
    \<and> list_all2 (\<lambda>cr x. answer_arrived jo rcontent (ex_response x) (cr_response cr)) crs xs
    \<and> idle_at open_end inc coming addr conn [] s'
    \<and> outgoing d' = outgoing d @ concat (coming (cl_conns s conn))
    \<and> out (cl_conns s' conn) = out (cl_conns s conn) @ concat (incoming d # upcoming d)"
proof -
  have texts: "map (request_wire itq qcontent) qs = map (exchange_text itq) xs" by (rule asks_texts [OF assms(11)])
  have "incoming d = (case map (exchange_text itq) xs of [] \<Rightarrow> [] | m # _ \<Rightarrow> m)" "upcoming d = tl (map (exchange_text itq) xs)"
    using assms(14) texts by (cases "map (exchange_text itq) xs"; auto)+
  from dialogue.conversation_held [where it = itr, OF assms(1,3,5,8,9,10,13) this]
  obtain d' where d': "handle_conversation ext itr io rbd rts t d = Some (Ok (), d')" "gone d'"
    "outgoing d' = outgoing d @ concat (map (exchange_answer itr rcontent) xs)"
    using asks_held [OF assms(11)] by auto
  have idle: "idle_at open_end inc coming addr conn (map (exchange_answer itr rcontent) xs) s"
    using assms(15) by (simp add: exchange_answer_def [abs_def])
  from turn_taking.session_answered [where it = itq, OF assms(2,4,6,7,16,17,11,12) idle]
  obtain crs s' where s': "client_session ext' itq jo qbd drain_order tc uses addr qs s = Some (crs, s')"
    "list_all2 (\<lambda>cr x. answer_arrived jo rcontent (ex_response x) (cr_response cr)) crs xs"
    "out (cl_conns s' conn) = out (cl_conns s conn) @ concat (map (exchange_text itq) xs)"
    "idle_at open_end inc coming addr conn [] s'" by blast
  have "concat (incoming d # upcoming d) = concat (map (exchange_text itq) xs)"
    using assms(14) texts by (cases qs) auto
  moreover have "coming (cl_conns s conn) = map (exchange_answer itr rcontent) xs" using idle by (simp add: idle_at_def)
  ultimately show ?thesis using d' s' by auto
qed

section \<open>Properties\<close>

text \<open>
  C2. The client and the server hold a session over one connection. A client with a pooled connection
  runs persistent requests one after the other, using the response of each as it likes and dropping it
  before the next; the server holds a conversation on the other end. Both return: the n-th response
  that the client gets has the status, the headers and the body of the response of the handler for the
  n-th request, every request goes out on the one connection, which is in the pool in the end, and the
  server has shut it down when the client leaves. What each side writes is exactly what the other was
  assumed to have coming.
\<close>

theorem client_server_session:
  fixes xs :: "('d, 'm, 'rb) exchange list"
  assumes "dialogue io incoming outgoing up tries upcoming gone" and "turn_taking jo inc out open_end jtries coming"
    and "eof_source rbd rcontent rok rretries" and "eof_source qbd qcontent qok qretries"
    and "iteration_order itq" and "iteration_order itr" and "iteration_order drain_order"
    and "0 < as_secs (read_request_timeout t)" and "0 < as_secs (write_response_timeout t)"
    and "list_all (exchange_ok ext io incoming outgoing up rok rts) xs"
    and "list_all2 (asks qcontent qok) qs xs" and "list_all (answerable ext' rcontent) xs"
    and "up d" and "incoming d # upcoming d = (if qs = [] then [[]] else map (request_wire itq qcontent) qs)"
    and "idle_at open_end inc coming addr conn (map (\<lambda>x. response_text itr rcontent (ex_response x)) xs) s"
    and "\<And>s. tc_try_clone tc conn s = Some (Ok (), s)" and "\<And>cr. response_used jo cr (uses cr)"
  shows "\<exists>d' crs s'. handle_conversation ext itr io rbd rts t d = Some (Ok (), d') \<and> gone d'
    \<and> client_session ext' itq jo qbd drain_order tc uses addr qs s = Some (crs, s')
    \<and> list_all2 (\<lambda>cr x. answer_arrived jo rcontent (ex_response x) (cr_response cr)) crs xs
    \<and> idle_at open_end inc coming addr conn [] s'
    \<and> outgoing d' = outgoing d @ concat (coming (cl_conns s conn))
    \<and> out (cl_conns s' conn) = out (cl_conns s conn) @ concat (incoming d # upcoming d)"
  by (rule session_held [OF assms])

text \<open>Two requests, and a handler that says hello.\<close>

definition hello :: "(string, byte list) response" where
  "hello = \<lparr>rs_status = OK, rs_headers = \<lparr>header_map = [(''Content-Length'', [''5'']), (''Content-Type'', [''text/plain''])]\<rparr>,
     rs_body = Some (body_new (Some ''text/plain'') 5 ''hello'')\<rparr>"

definition get_request :: "string \<Rightarrow> (string, byte list) request" where
  "get_request uri = \<lparr>rq_method = GET, rq_uri = uri, rq_version = ''HTTP/1.1'', rq_headers = headers_new, rq_body = None\<rparr>"

definition mem_session :: "byte list list \<Rightarrow> (unit, mem_peer cancellable) client" where
  "mem_session answers_to_come =
     \<lparr>cl_env = (), cl_pool = [(''a:80'', resource_new 0 7)],
      cl_conns = (\<lambda>_. \<lparr>cs_stream = \<lparr>mp_in = [], mp_next = answers_to_come, mp_out = [], mp_done = False\<rparr>,
        cs_read_timeout = None, cs_write_timeout = None\<rparr>),
      cl_alive = True\<rparr>"

lemma hello_answerable: "ex_response x = hello \<Longrightarrow> answerable text_externals (\<lambda>s. s) x"
proof -
  have "show_nat 5 = ''5''" by code_simp
  moreover have "headers_ok (rs_headers hello)" by code_simp
  ultimately show "ex_response x = hello \<Longrightarrow> answerable text_externals (\<lambda>s. s) x"
    by (simp add: answerable_def announces_def three_digits_def, simp add: hello_def headers_get_def hm_get_def body_new_def
        body_mime_def text_externals_def)
qed

lemma get_request_asks:
  assumes "ex_line x = line_of (get_request uri)" and "ex_headers x = sent_headers (get_request uri)" and "ex_body x = []"
  shows "asks (\<lambda>s. s) (\<lambda>_. True) (get_request uri) x"
proof -
  have "headers_ok headers_new" "persists ''HTTP/1.1'' headers_new" by code_simp+
  with assms show ?thesis by (simp add: asks_def get_request_def body_bytes_def)
qed

theorem client_server_session_witness:
  "\<exists>rts d' crs s'. router_add ''/'' GET (\<lambda>q. Some (Ok hello, q)) router_new = Some rts
     \<and> handle_conversation text_externals rev (cancellable_io (peer_os 2)) cursor_read rts
         \<lparr>read_request_timeout = from_secs 5, write_response_timeout = from_secs 5\<rparr>
         \<lparr>cs_stream = \<lparr>mp_in = request_wire rev (\<lambda>s. s) (get_request ''/a''),
            mp_next = [request_wire rev (\<lambda>s. s) (get_request ''/b'')], mp_out = [], mp_done = False\<rparr>,
          cs_read_timeout = None, cs_write_timeout = None\<rparr> = Some (Ok (), d')
     \<and> client_session text_externals rev (cancellable_io (peer_os 4)) cursor_read rev mem_tcp (\<lambda>cr. cr) ''a:80''
         [get_request ''/a'', get_request ''/b''] (mem_session [response_text rev (\<lambda>s. s) hello, response_text rev (\<lambda>s. s) hello])
         = Some (crs, s')
     \<and> length crs = 2
     \<and> list_all (\<lambda>cr. rs_status (cr_response cr) = OK \<and> body_arrives (cancellable_io (peer_os 4)) ''hello'' (cr_response cr)) crs"
proof -
  let ?io = "cancellable_io (peer_os 2)" and ?jo = "cancellable_io (peer_os 4)"
  let ?h = "\<lambda>q. Some (Ok hello, q)
    :: (((string, byte list) response, unit) res \<times> (string, mem_peer cancellable request_reader take_reader) request) option"
  let ?x = "\<lambda>uri. \<lparr>ex_line = line_of (get_request uri), ex_headers = sent_headers (get_request uri), ex_body = [],
    ex_path = uri, ex_handler = ?h, ex_response = hello\<rparr>"
  let ?xs = "[?x ''/a'', ?x ''/b'']" and ?qs = "[get_request ''/a'', get_request ''/b'']"
  let ?t = "\<lparr>read_request_timeout = from_secs 5, write_response_timeout = from_secs 5\<rparr>"
  let ?w = "\<lambda>uri. request_wire rev (\<lambda>s. s) (get_request uri)"
  let ?d = "\<lparr>cs_stream = \<lparr>mp_in = ?w ''/a'', mp_next = [?w ''/b''], mp_out = [], mp_done = False\<rparr>,
    cs_read_timeout = None, cs_write_timeout = None\<rparr>"
  let ?s = "mem_session [response_text rev (\<lambda>s. s) hello, response_text rev (\<lambda>s. s) hello]"
  obtain rts where rts: "router_add ''/'' GET ?h router_new = Some rts" by (simp add: router_add_eq)
  have path: "normalize uri = Ok uri" "router_get_prefix rts uri GET = Some ?h" if "uri = ''/a'' \<or> uri = ''/b''" for uri
  proof -
    have "uri = canonical [tl uri]" using that by (auto simp: canonical_def)
    from root_route_prefix [OF rts, of "[tl uri]" GET] this show "router_get_prefix rts uri GET = Some ?h" by simp
    show "normalize uri = Ok uri" using that by (auto simp: normalize_eq has_root_def canonical_def)
  qed
  have ok: "exchange_ok text_externals ?io (\<lambda>c. mp_in (cs_stream c)) (\<lambda>c. mp_out (cs_stream c))
      (\<lambda>c. \<not> mp_done (cs_stream c)) (\<lambda>_. True) rts (?x uri)" if "uri = ''/a'' \<or> uri = ''/b''" for uri
  proof -
    have "request_line_ok (line_of (get_request uri))" "headers_ok (sent_headers (get_request uri))"
      using that by (elim disjE; simp; code_simp)+
    moreover have "announces text_externals (\<lambda>s. s) headers_new None" by (simp add: announces_def)
    from announces_framed [OF this] have "request_framed text_externals (sent_headers (get_request uri)) []"
      by (simp add: sent_headers_def get_request_def body_bytes_def)
    moreover have "answers ?io ?h hello q" for q by (rule answers_at_once)
    moreover have "rl_uri (line_of (get_request uri)) = uri" "rl_method (line_of (get_request uri)) = GET"
      by (simp_all add: line_of_def get_request_def)
    ultimately show ?thesis using path [OF that] by (simp add: exchange_ok_def)
  qed
  have oks: "list_all (exchange_ok text_externals ?io (\<lambda>c. mp_in (cs_stream c)) (\<lambda>c. mp_out (cs_stream c))
      (\<lambda>c. \<not> mp_done (cs_stream c)) (\<lambda>_. True) rts) ?xs"
    by (simp only: list.pred_inject, intro conjI ok TrueI) simp_all
  have asked: "list_all2 (asks (\<lambda>s. s) (\<lambda>_. True)) ?qs ?xs" by (simp add: get_request_asks)
  have ans: "list_all (answerable text_externals (\<lambda>s. s)) ?xs" by (simp add: hello_answerable)
  have idle: "idle_at (\<lambda>c. \<not> mp_done (cs_stream c)) (\<lambda>c. mp_in (cs_stream c)) (\<lambda>c. mp_next (cs_stream c)) ''a:80'' 7
      (map (\<lambda>x. response_text rev (\<lambda>s. s) (ex_response x)) ?xs) ?s"
    by (auto simp: idle_at_def mem_session_def resources_ok_def hm_inv_def max_resources_def hm_get_def)
  have used: "response_used ?jo cr cr" for cr
    by (auto simp: response_used_def intro: body_used.unused split: option.split)
  obtain d' crs s' where r: "handle_conversation text_externals rev ?io cursor_read rts ?t ?d = Some (Ok (), d')"
    "client_session text_externals rev ?jo cursor_read rev mem_tcp (\<lambda>cr. cr) ''a:80'' ?qs ?s = Some (crs, s')"
    "list_all2 (\<lambda>cr x. answer_arrived ?jo (\<lambda>s. s) (ex_response x) (cr_response cr)) crs ?xs"
    using client_server_session [OF mem_peer.cancellable.dialogue_axioms mem_peer.cancellable.turn_taking_axioms
        cursor.eof_source_axioms cursor.eof_source_axioms iteration_order_rev iteration_order_rev iteration_order_rev
        _ _ oks asked ans _ _ idle _ used, of ?t ?d mem_tcp] by (auto simp: mem_tcp_def)
  have got: "rs_status p = OK \<and> body_arrives ?jo ''hello'' p" if "answer_arrived ?jo (\<lambda>s. s) hello p"
    for p :: "(string, mem_peer cancellable request_reader take_reader) response"
    using that by (simp add: answer_arrived_def hello_def body_bytes_def body_new_def status_from_usize_def)
  have "length crs = 2" "list_all (\<lambda>cr. rs_status (cr_response cr) = OK \<and> body_arrives ?jo ''hello'' (cr_response cr)) crs"
    using r(3) got by (auto simp: list_all2_Cons2)
  with r(1,2) rts show ?thesis by blast
qed

end
