(* ===== verification/Returning.thy ===== *)
theory Returning
  imports Http_Message
begin

text \<open>
  Total correctness of the loops over a peer that may send anything: a measure of what is still to
  come (bytes and interruptions) that no call raises and that every successful read lowers. Under
  it, reading a request and writing a message return, with a value, an error or a panic, whatever
  the bytes are.
\<close>

section \<open>Programs that return\<close>

definition returns :: "('s \<Rightarrow> bool) \<Rightarrow> ('s \<Rightarrow> nat) \<Rightarrow> nat \<Rightarrow> (('a, 'e) res \<times> 's) option \<Rightarrow> bool" where
  "returns ok left n x \<longleftrightarrow> (\<exists>r s. x = Some (r, s) \<and> ok s \<and> left s \<le> n)"

text \<open>A program that returns, and has consumed something if it succeeded.\<close>

definition consumes :: "('s \<Rightarrow> bool) \<Rightarrow> ('s \<Rightarrow> nat) \<Rightarrow> nat \<Rightarrow> (('a, 'e) res \<times> 's) option \<Rightarrow> bool" where
  "consumes ok left n x \<longleftrightarrow>
     (\<exists>r s. x = Some (r, s) \<and> ok s \<and> left s \<le> n \<and> (\<forall>a. r = Ok a \<longrightarrow> left s < n))"

named_theorems returning \<open>programs that return\<close>

lemma returnsI: "x = Some (r, s) \<Longrightarrow> ok s \<Longrightarrow> left s \<le> n \<Longrightarrow> returns ok left n x"
  by (simp add: returns_def)

lemma returnsE:
  assumes "returns ok left n x"
  obtains r s where "x = Some (r, s)" "ok s" "left s \<le> n"
  using assms by (auto simp: returns_def)

lemma consumesE:
  assumes "consumes ok left n x"
  obtains r s where "x = Some (r, s)" "ok s" "left s \<le> n" "\<And>a. r = Ok a \<Longrightarrow> left s < n"
  using assms by (auto simp: consumes_def)

lemma consumes_returns: "consumes ok left n x \<Longrightarrow> returns ok left n x"
  by (auto simp: consumes_def returns_def)

lemma returns_mono: "returns ok left n x \<Longrightarrow> n \<le> m \<Longrightarrow> returns ok left m x"
  by (auto simp: returns_def)

lemma returns_Some [returning]: "ok s \<Longrightarrow> left s \<le> n \<Longrightarrow> returns ok left n (Some (r, s))"
  by (simp add: returns_def)

lemma returns_simple [returning]:
  "ok s \<Longrightarrow> left s \<le> n \<Longrightarrow> returns ok left n (ret x s)"
  "ok s \<Longrightarrow> left s \<le> n \<Longrightarrow> returns ok left n (fail e s)"
  "ok s \<Longrightarrow> left s \<le> n \<Longrightarrow> returns ok left n (panic s)"
  "ok s \<Longrightarrow> left s \<le> n \<Longrightarrow> returns ok left n (of_res r s)"
  by (simp_all add: returns_def)

lemma returns_and_then [returning]:
  assumes "returns ok left n (m s)"
    and "\<And>x s'. ok s' \<Longrightarrow> left s' \<le> n \<Longrightarrow> returns ok left n (f x s')"
  shows "returns ok left n (and_then m f s)"
  using assms by (auto simp: returns_def and_then_def split: res.splits)

lemma consumes_and_then:
  assumes "consumes ok left n (m s)"
    and "\<And>x s'. ok s' \<Longrightarrow> left s' < n \<Longrightarrow> returns ok left (left s') (f x s')"
  shows "consumes ok left n (and_then m f s)"
  using assms(1)
proof (rule consumesE)
  fix r s' assume r: "m s = Some (r, s')" "ok s'" "left s' \<le> n" "\<And>a. r = Ok a \<Longrightarrow> left s' < n"
  show ?thesis
  proof (cases r)
    case (Ok x)
    with assms(2) [OF r(2) r(4) [OF Ok], of x] r(4) [OF Ok] r(1) show ?thesis
      by (auto simp: returns_def consumes_def and_then_def)
  qed (use r in \<open>auto simp: consumes_def and_then_def\<close>)
qed

lemma returns_map_err [returning]: "returns ok left n (m s) \<Longrightarrow> returns ok left n (map_err g m s)"
  by (auto simp: returns_def map_err_def)

lemma consumes_map_err: "consumes ok left n (m s) \<Longrightarrow> consumes ok left n (map_err g m s)"
  by (auto simp: consumes_def map_err_def) (metis res.exhaust res.distinct(1,3) res_map_err.simps(2,3))

section \<open>Readers and writers that make progress\<close>

text \<open>
  A read delivers no more than is still to come, and is not interrupted for ever. At the end of
  the data it may deliver nothing; a reader that fails instead is \<open>failing\<close>.
\<close>

definition read_progress :: "('s \<Rightarrow> nat) \<Rightarrow> 's \<Rightarrow> (byte list, io_error) res \<Rightarrow> 's \<Rightarrow> bool" where
  "read_progress left s r s' \<longleftrightarrow>
     (case r of
        Ok bs \<Rightarrow> length bs + left s' \<le> left s
      | Err e \<Rightarrow> left s' \<le> left s \<and> (io_kind e = Interrupted \<longrightarrow> left s' < left s)
      | Panic \<Rightarrow> left s' \<le> left s)"

locale ending_reader =
  fixes rd :: "'s reader" and ok :: "'s \<Rightarrow> bool" and left :: "'s \<Rightarrow> nat"
  assumes read_ends: "ok s \<Longrightarrow> 0 < n \<Longrightarrow> \<exists>r s'. rd n s = Some (r, s') \<and> ok s' \<and> read_progress left s r s'"

locale failing_reader = ending_reader +
  assumes read_some: "ok s \<Longrightarrow> 0 < n \<Longrightarrow> rd n s = Some (Ok bs, s') \<Longrightarrow> bs \<noteq> []"

text \<open>A write returns and is not interrupted for ever; it does not bring back what was read.\<close>

locale ending_writer =
  fixes wr :: "'s writer" and ok :: "'s \<Rightarrow> bool" and left :: "'s \<Rightarrow> nat"
  assumes write_ends: "ok s \<Longrightarrow> bs \<noteq> [] \<Longrightarrow> \<exists>r s'. wr bs s = Some (r, s') \<and> ok s' \<and> left s' \<le> left s
    \<and> (\<forall>e. r = Err e \<longrightarrow> io_kind e = Interrupted \<longrightarrow> left s' < left s)"

definition br_left :: "('s \<Rightarrow> nat) \<Rightarrow> 's bufreader \<Rightarrow> nat" where
  "br_left left b = length (br_buf b) + left (br_src b)"

abbreviation br_ok :: "('s \<Rightarrow> bool) \<Rightarrow> 's bufreader \<Rightarrow> bool" where
  "br_ok ok b \<equiv> ok (br_src b)"

lemma br_left_consume: "n \<le> length (br_buf b) \<Longrightarrow> br_left left (consume n b) = br_left left b - n"
  by (simp add: br_left_def consume_def)

context ending_reader
begin

lemma fill_buf_ends:
  assumes "br_ok ok b"
  obtains r b' where "fill_buf rd b = Some (r, b')" "br_ok ok b'" "br_left left b' \<le> br_left left b"
    "\<forall>bs. r = Ok bs \<longrightarrow> br_buf b' = bs"
    "\<forall>e. r = Err e \<longrightarrow> io_kind e = Interrupted \<longrightarrow> br_left left b' < br_left left b"
proof (cases "br_buf b = []")
  case False
  then show ?thesis using assms by (intro that [of "Ok (br_buf b)" b]) (simp_all add: fill_buf_def)
next
  case True
  have "0 < buf_capacity" by (simp add: buf_capacity_def)
  from read_ends [OF assms this] obtain r s' where r: "rd buf_capacity (br_src b) = Some (r, s')" "ok s'"
    "read_progress left (br_src b) r s'" by blast
  let ?b = "\<lparr>br_buf = (case r of Ok bs \<Rightarrow> bs | _ \<Rightarrow> []), br_src = s'\<rparr>"
  show ?thesis
    using True r
    by (intro that [of r ?b]) (auto simp: fill_buf_def read_progress_def br_left_def split: res.splits)
qed

text \<open>A buffered reader and a limited one end with the reader below.\<close>

lemma buffered_ends: "ending_reader (bufreader_read rd) (br_ok ok) (br_left left)"
proof
  fix b :: "'s bufreader" and n :: nat
  assume b: "br_ok ok b" "0 < n"
  show "\<exists>r b'. bufreader_read rd n b = Some (r, b') \<and> br_ok ok b' \<and> read_progress (br_left left) b r b'"
  proof (cases "br_buf b = [] \<and> buf_capacity \<le> n")
    case True
    obtain r s' where "rd n (br_src b) = Some (r, s')" "ok s'" "read_progress left (br_src b) r s'"
      using read_ends [OF b] by blast
    with True show ?thesis
      by (intro exI [of _ r] exI [of _ "b\<lparr>br_src := s'\<rparr>"])
        (auto simp: bufreader_read_def read_progress_def br_left_def split: res.splits)
  next
    case False
    then have read: "bufreader_read rd n b =
        and_then (fill_buf rd) (\<lambda>bs b'. Some (Ok (take n bs), consume n b')) b"
      by (auto simp: bufreader_read_def)
    obtain r b' where r: "fill_buf rd b = Some (r, b')" "br_ok ok b'" "br_left left b' \<le> br_left left b"
      "\<forall>bs. r = Ok bs \<longrightarrow> br_buf b' = bs"
      "\<forall>e. r = Err e \<longrightarrow> io_kind e = Interrupted \<longrightarrow> br_left left b' < br_left left b"
      by (rule fill_buf_ends [OF b(1)])
    have "length (take n bs) + br_left left (consume n b') \<le> br_left left b" if "r = Ok bs" for bs
      using r(3,4) that by (auto simp: br_left_def consume_def)
    with r show ?thesis
      by (cases r) (auto simp: read and_then_def read_progress_def consume_def)
  qed
qed

lemma take_ends: "ending_reader (take_read rd) (\<lambda>t. ok (tk_inner t)) (\<lambda>t. left (tk_inner t))"
proof
  fix t :: "'s take_reader" and n :: nat
  assume t: "ok (tk_inner t)" "0 < n"
  show "\<exists>r t'. take_read rd n t = Some (r, t') \<and> ok (tk_inner t') \<and> read_progress (\<lambda>t. left (tk_inner t)) t r t'"
  proof (cases "tk_limit t = 0")
    case False
    then have "0 < min n (tk_limit t)" using t(2) by simp
    from read_ends [OF t(1) this] obtain r s' where "rd (min n (tk_limit t)) (tk_inner t) = Some (r, s')" "ok s'"
      "read_progress left (tk_inner t) r s'" by blast
    with False show ?thesis by (cases r) (auto simp: take_read_def read_progress_def)
  qed (use t in \<open>simp add: take_read_def read_progress_def\<close>)
qed

end

section \<open>Reading a request\<close>

context failing_reader
begin

lemma fill_buf_some:
  assumes "br_ok ok b" and "fill_buf rd b = Some (Ok bs, b')"
  shows "bs \<noteq> []"
proof (cases "br_buf b = []")
  case True
  have "0 < buf_capacity" by (simp add: buf_capacity_def)
  from read_some [OF assms(1) this] True assms(2) show ?thesis
    by (auto simp: fill_buf_def split: option.splits prod.splits res.splits)
next
  case False
  with assms(2) show ?thesis by (auto simp: fill_buf_def)
qed

lemma read_until_consumes:
  "br_ok ok b \<Longrightarrow> consumes (br_ok ok) (br_left left) (br_left left b) (read_until rd d acc b)"
proof (induction "br_left left b" arbitrary: b acc rule: less_induct)
  case less
  obtain r b' where r: "fill_buf rd b = Some (r, b')" "br_ok ok b'" "br_left left b' \<le> br_left left b"
    "\<forall>bs. r = Ok bs \<longrightarrow> br_buf b' = bs"
    "\<forall>e. r = Err e \<longrightarrow> io_kind e = Interrupted \<longrightarrow> br_left left b' < br_left left b"
    by (rule fill_buf_ends [OF less.prems])
  show ?case
  proof (cases r)
    case (Ok bs)
    have bs: "bs \<noteq> []" "br_buf b' = bs" using fill_buf_some [OF less.prems] r(1,4) Ok by auto
    have lt: "br_left left (consume (Suc k) b') < br_left left b" if "k < length bs" for k
    proof -
      have "br_left left (consume (Suc k) b') = br_left left b' - Suc k" "length bs \<le> br_left left b'"
        using that bs(2) by (simp_all add: br_left_def consume_def)
      with r(3) that show ?thesis by linarith
    qed
    show ?thesis
    proof (cases "index_of d bs")
      case (Some i)
      with lt [of i] index_of_SomeD [OF Some] r Ok show ?thesis
        by (subst read_until.simps) (auto simp: consumes_def consume_def)
    next
      case None
      have lt': "br_left left (consume (length bs) b') < br_left left b"
        using lt [of "length bs - 1"] bs(1) by simp
      have "br_ok ok (consume (length bs) b')" using r(2) by (simp add: consume_def)
      from less.hyps [OF lt' this, of "acc @ bs"] lt' None Ok r(1) bs(1) show ?thesis
        by (subst read_until.simps) (auto simp: consumes_def)
    qed
  next
    case (Err e)
    show ?thesis
    proof (cases "io_kind e = Interrupted")
      case True
      with r(5) less.hyps [of b' acc] r(1,2) Err show ?thesis
        by (subst read_until.simps) (auto simp: consumes_def)
    next
      case False
      with Err r show ?thesis by (subst read_until.simps) (simp add: consumes_def)
    qed
  next
    case Panic
    with r show ?thesis by (subst read_until.simps) (simp add: consumes_def)
  qed
qed

lemmas read_until_returns [returning] = consumes_returns [OF read_until_consumes, THEN returns_mono]

lemma read_line_loop_consumes:
  "br_ok ok b \<Longrightarrow> consumes (br_ok ok) (br_left left) (br_left left b) (read_line_loop rd line b)"
proof (induction "br_left left b" arbitrary: b line rule: less_induct)
  case less
  obtain r b' where r: "read_until rd LF [] b = Some (r, b')" "br_ok ok b'" "br_left left b' \<le> br_left left b"
    "\<And>a. r = Ok a \<Longrightarrow> br_left left b' < br_left left b"
    using consumesE [OF read_until_consumes [OF less.prems]] by metis
  show ?case
  proof (cases r)
    case (Ok chunk)
    note lt = r(4) [OF Ok]
    from less.hyps [OF lt r(2), of "line @ chunk"] lt r Ok show ?thesis
      by (subst read_line_loop.simps) (auto simp: consumes_def Let_def)
  qed (use r in \<open>subst read_line_loop.simps, simp add: consumes_def\<close>)+
qed

lemma header_read_consumes:
  "br_ok ok b \<Longrightarrow> consumes (br_ok ok) (br_left left) (br_left left b) (header_read_from rd b)"
  unfolding header_read_from_def
  by (rule consumes_and_then, rule read_line_loop_consumes) (auto intro: returning)

lemma headers_read_loop_returns:
  "br_ok ok b \<Longrightarrow> returns (br_ok ok) (br_left left) (br_left left b) (headers_read_loop rd hs b)"
proof (induction "br_left left b" arbitrary: b hs rule: less_induct)
  case less
  obtain r b' where r: "header_read_from rd b = Some (r, b')" "br_ok ok b'" "br_left left b' \<le> br_left left b"
    "\<And>a. r = Ok a \<Longrightarrow> br_left left b' < br_left left b"
    using consumesE [OF header_read_consumes [OF less.prems]] by metis
  show ?case
  proof (cases "\<exists>hdr. r = Ok (Some hdr)")
    case True
    then obtain hdr where hdr: "r = Ok (Some hdr)" ..
    from less.hyps [OF r(4) [OF hdr] r(2), of "headers_add hdr hs"] r(1,3) hdr show ?thesis
      by (subst headers_read_loop.simps) (auto intro: returns_mono)
  next
    case False
    with r show ?thesis
      by (subst headers_read_loop.simps) (auto simp: returns_def split: res.splits option.splits)
  qed
qed

lemma headers_read_returns [returning]:
  "br_ok ok b \<Longrightarrow> br_left left b \<le> n \<Longrightarrow> returns (br_ok ok) (br_left left) n (headers_read_from rd b)"
  unfolding headers_read_from_def by (rule returns_mono [OF headers_read_loop_returns])

lemma request_line_read_consumes:
  "br_ok ok b \<Longrightarrow> consumes (br_ok ok) (br_left left) (br_left left b) (request_line_read rd b)"
  unfolding request_line_read_def
  by (rule consumes_and_then, rule consumes_map_err, rule read_until_consumes)
    (auto simp: Let_def intro!: returning split: res.split)

text \<open>Whatever the bytes are, reading a request returns, and a request that was read was not empty.\<close>

lemma request_read_buffered_consumes:
  assumes "br_ok ok b"
  shows "consumes (br_ok ok) (br_left left) (br_left left b) (request_read_buffered ext rd b)"
  unfolding request_read_buffered_def
  by (rule consumes_and_then, rule request_line_read_consumes [OF assms])
    (auto intro!: returning)

end

section \<open>Writing a message\<close>

context ending_writer
begin

lemma write_all_returns [returning]:
  "ok s \<Longrightarrow> left s \<le> n \<Longrightarrow> returns ok left n (write_all wr bs s)"
proof (induction "(bs, s)" arbitrary: bs s rule: wf_induct_rule [OF wf_measures [of "[\<lambda>p. length (fst p), \<lambda>p. left (snd p)]"]])
  case (1 bs s)
  show ?case
  proof (cases "bs = []")
    case False
    obtain r s' where r: "wr bs s = Some (r, s')" "ok s'" "left s' \<le> left s"
      "\<forall>e. r = Err e \<longrightarrow> io_kind e = Interrupted \<longrightarrow> left s' < left s"
      using write_ends [OF "1.prems"(1) False] by blast
    have n: "left s' \<le> n" using r(3) "1.prems"(2) by simp
    have more: "returns ok left n (write_all wr (drop k bs) s')" if "0 < k" for k
      by (rule "1.hyps" [OF _ r(2) n]) (use that False in simp)
    have again: "returns ok left n (write_all wr bs s')" if "left s' < left s"
      by (rule "1.hyps" [OF _ r(2) n]) (use that in simp)
    show ?thesis
      using r n more again False "1.prems" by (subst write_all.simps) (auto intro: returns_Some split: res.split)
  qed (use "1.prems" in \<open>subst write_all.simps, simp add: returning\<close>)
qed

lemma write_once_returns [returning]:
  "ok s \<Longrightarrow> left s \<le> n \<Longrightarrow> bs \<noteq> [] \<Longrightarrow> returns ok left n (wr bs s)"
  using write_ends [of s bs] by (auto simp: returns_def)

lemma header_write_returns [returning]:
  "ok s \<Longrightarrow> left s \<le> n \<Longrightarrow> returns ok left n (header_write wr h s)"
  unfolding header_write_def by (auto intro!: returning)

lemma write_values_returns [returning]:
  "ok s \<Longrightarrow> left s \<le> n \<Longrightarrow> returns ok left n (write_values wr name vs s)"
  by (induction vs arbitrary: s) (auto intro!: returning)

lemma write_entries_returns [returning]:
  "ok s \<Longrightarrow> left s \<le> n \<Longrightarrow> returns ok left n (write_entries wr es s)"
  by (induction es arbitrary: s) (auto intro!: returning)

lemma headers_write_returns [returning]:
  "ok s \<Longrightarrow> left s \<le> n \<Longrightarrow> returns ok left n (headers_write it wr hs s)"
  unfolding headers_write_def by (auto intro!: returning)

lemma response_line_write_returns [returning]:
  "ok s \<Longrightarrow> left s \<le> n \<Longrightarrow> returns ok left n (response_line_write wr sl s)"
  unfolding response_line_write_def Let_def by (auto intro!: returning)

lemma flush_buf_ends:
  "ok w \<Longrightarrow> \<exists>r buf' w'. flush_buf wr buf w = Some (r, buf', w') \<and> ok w' \<and> left w' \<le> left w
     \<and> (\<forall>u. r = Ok u \<longrightarrow> buf' = [])"
proof (induction "(buf, w)" arbitrary: buf w rule: wf_induct_rule [OF wf_measures [of "[\<lambda>p. length (fst p), \<lambda>p. left (snd p)]"]])
  case (1 buf w)
  show ?case
  proof (cases "buf = []")
    case False
    obtain r w' where r: "wr buf w = Some (r, w')" "ok w'" "left w' \<le> left w"
      "\<forall>e. r = Err e \<longrightarrow> io_kind e = Interrupted \<longrightarrow> left w' < left w"
      using write_ends [OF "1.prems" False] by blast
    show ?thesis
    proof (cases r)
      case (Ok k)
      show ?thesis
      proof (cases "k = 0")
        case False
        have "((drop k buf, w'), (buf, w)) \<in> measures [\<lambda>p. length (fst p), \<lambda>p. left (snd p)]"
          using False \<open>buf \<noteq> []\<close> by simp
        from "1.hyps" [OF this r(2)] obtain q buf' w'' where "flush_buf wr (drop k buf) w' = Some (q, buf', w'')" "ok w''"
          "left w'' \<le> left w'" "\<forall>u. q = Ok u \<longrightarrow> buf' = []" by blast
        then show ?thesis using r Ok False \<open>buf \<noteq> []\<close> by (subst flush_buf.simps) auto
      qed (use r Ok False in \<open>subst flush_buf.simps, simp\<close>)
    next
      case (Err e)
      show ?thesis
      proof (cases "io_kind e = Interrupted")
        case True
        have "((buf, w'), (buf, w)) \<in> measures [\<lambda>p. length (fst p), \<lambda>p. left (snd p)]" using True Err r(4) by simp
        from "1.hyps" [OF this r(2)] obtain q buf' w'' where "flush_buf wr buf w' = Some (q, buf', w'')" "ok w''"
          "left w'' \<le> left w'" "\<forall>u. q = Ok u \<longrightarrow> buf' = []" by blast
        then show ?thesis using r Err True False by (subst flush_buf.simps) auto
      qed (use r Err False in \<open>subst flush_buf.simps, simp\<close>)
    qed (use r False in \<open>subst flush_buf.simps, simp\<close>)
  qed (use "1.prems" in \<open>subst flush_buf.simps, simp\<close>)
qed

end

text \<open>Both ends of a copy: the writer is fine, and the reader has no more to deliver than before.\<close>

definition both_ok :: "('r \<Rightarrow> bool) \<Rightarrow> ('w \<Rightarrow> bool) \<Rightarrow> ('w \<Rightarrow> nat) \<Rightarrow> nat \<Rightarrow> 'r \<times> 'w \<Rightarrow> bool" where
  "both_ok rok ok left n st \<longleftrightarrow> rok (fst st) \<and> ok (snd st) \<and> left (snd st) \<le> n"

lemma both_ok_simp [simp]: "both_ok rok ok left n (r, w) \<longleftrightarrow> rok r \<and> ok w \<and> left w \<le> n"
  by (simp add: both_ok_def)

locale ending_copy = src: ending_reader rd rok rleft + snk: ending_writer wr ok left
  for rd :: "'r reader" and rok and rleft and wr :: "'w writer" and ok and left
begin

lemma copy_loop_returns:
  "rok r \<Longrightarrow> ok w \<Longrightarrow> left w \<le> n \<Longrightarrow>
     returns (both_ok rok ok left n) (\<lambda>st. rleft (fst st)) (rleft r) (copy_loop rd wr k (r, w))"
proof (induction "rleft r" arbitrary: r w k rule: less_induct)
  case less
  have "0 < buf_capacity" by (simp add: buf_capacity_def)
  from src.read_ends [OF less.prems(1) this] obtain a r' where a: "rd buf_capacity r = Some (a, r')" "rok r'"
    "read_progress rleft r a r'" by blast
  have again: "returns (both_ok rok ok left n) (\<lambda>st. rleft (fst st)) (rleft r) (copy_loop rd wr j (r', w'))"
    if "rleft r' < rleft r" "ok w'" "left w' \<le> n" for j w'
    by (rule returns_mono [OF less.hyps [OF that(1) a(2) that(2,3)]]) (use that(1) in simp)
  show ?case
  proof (cases a)
    case (Ok bs)
    show ?thesis
    proof (cases "bs = []")
      case True
      with a Ok less.prems show ?thesis
        by (subst copy_loop.simps) (simp add: returns_def read_progress_def)
    next
      case False
      then have lt: "rleft r' < rleft r" using a(3) Ok by (cases bs) (auto simp: read_progress_def)
      obtain q w' where q: "write_all wr bs w = Some (q, w')" "ok w'" "left w' \<le> n"
        using snk.write_all_returns [OF less.prems(2,3), of bs] by (auto elim: returnsE)
      show ?thesis
        using a(1,2) Ok False q lt again [OF lt q(2,3)]
        by (subst copy_loop.simps) (auto intro!: returns_Some split: res.split)
    qed
  next
    case (Err e)
    show ?thesis
    proof (cases "io_kind e = Interrupted")
      case True
      then have "rleft r' < rleft r" using a(3) Err by (simp add: read_progress_def)
      from again [OF this less.prems(2,3)] True a(1) Err show ?thesis by (subst copy_loop.simps) simp
    next
      case False
      with a Err less.prems show ?thesis
        by (subst copy_loop.simps) (simp add: returns_def read_progress_def)
    qed
  next
    case Panic
    with a less.prems show ?thesis
      by (subst copy_loop.simps) (simp add: returns_def read_progress_def)
  qed
qed

lemma copy_buffered_ends:
  assumes "buf_capacity \<le> cap"
  shows "rok r \<Longrightarrow> ok w \<Longrightarrow> \<exists>a buf' r' w'. copy_buffered rd wr cap k buf r w = Some (a, buf', r', w')
     \<and> rok r' \<and> rleft r' \<le> rleft r \<and> ok w' \<and> left w' \<le> left w"
proof (induction "(r, buf)" arbitrary: r buf w k
    rule: wf_induct_rule [OF wf_measures [of "[\<lambda>p. rleft (fst p), \<lambda>p. length (snd p)]"]])
  case (1 r buf w k)
  show ?case
  proof (cases "buf_capacity \<le> cap - length buf")
    case room: True
    then have "0 < cap - length buf" by (simp add: buf_capacity_def)
    from src.read_ends [OF "1.prems"(1) this] obtain a r' where a: "rd (cap - length buf) r = Some (a, r')" "rok r'"
      "read_progress rleft r a r'" by blast
    have again: "\<exists>a buf'' r'' w'. copy_buffered rd wr cap j buf' r' w = Some (a, buf'', r'', w')
       \<and> rok r'' \<and> rleft r'' \<le> rleft r \<and> ok w' \<and> left w' \<le> left w" if lt: "rleft r' < rleft r" for j buf'
    proof -
      have "((r', buf'), (r, buf)) \<in> measures [\<lambda>p. rleft (fst p), \<lambda>p. length (snd p)]" using lt by simp
      from "1.hyps" [OF this a(2) "1.prems"(2), of j] lt show ?thesis
        by (elim exE conjE, intro exI conjI) (assumption | simp)+
    qed
    show ?thesis
    proof (cases a)
      case (Ok bs)
      show ?thesis
      proof (cases "bs = []")
        case True
        with a Ok room "1.prems" show ?thesis
          by (subst copy_buffered.simps) (simp add: read_progress_def)
      next
        case False
        then have "rleft r' < rleft r" using a(3) Ok by (cases bs) (auto simp: read_progress_def)
        from again [OF this] False a(1) Ok room show ?thesis by (subst copy_buffered.simps) simp
      qed
    next
      case (Err e)
      show ?thesis
      proof (cases "io_kind e = Interrupted")
        case True
        then have "rleft r' < rleft r" using a(3) Err by (simp add: read_progress_def)
        from again [OF this] True a(1) Err room show ?thesis by (subst copy_buffered.simps) simp
      next
        case False
        with a Err room "1.prems" show ?thesis
          by (subst copy_buffered.simps) (simp add: read_progress_def)
      qed
    next
      case Panic
      with a room "1.prems" show ?thesis
        by (subst copy_buffered.simps) (simp add: read_progress_def)
    qed
  next
    case full: False
    then have ne: "buf \<noteq> []" using assms by auto
    obtain q buf' w' where q: "flush_buf wr buf w = Some (q, buf', w')" "ok w'" "left w' \<le> left w"
      "\<forall>u. q = Ok u \<longrightarrow> buf' = []"
      using snk.flush_buf_ends [OF "1.prems"(2)] by blast
    show ?thesis
    proof (cases q)
      case (Ok u)
      have "((r, []), (r, buf)) \<in> measures [\<lambda>p. rleft (fst p), \<lambda>p. length (snd p)]" using ne by simp
      from "1.hyps" [OF this "1.prems"(1) q(2), of k] obtain a buf'' r'' w'' where
        "copy_buffered rd wr cap k [] r w' = Some (a, buf'', r'', w'')" "rok r''" "rleft r'' \<le> rleft r" "ok w''"
        "left w'' \<le> left w'" by blast
      then show ?thesis using q Ok full by (subst copy_buffered.simps) auto
    qed (use q full "1.prems" in \<open>subst copy_buffered.simps, simp\<close>)+
  qed
qed

lemma body_write_ends:
  fixes b :: "('m, 'r) body"
  assumes "rok (body_content b)" and "ok w"
  shows "\<exists>r b' w'. body_write rd wr (b, w) = Some (r, (b', w')) \<and> ok w' \<and> left w' \<le> left w"
proof -
  obtain r c w' where loop: "io_copy rd wr (body_content b, w) = Some (r, (c, w'))" "ok w'" "left w' \<le> left w"
    using copy_loop_returns [OF assms order_refl, of 0] by (auto simp: io_copy_def both_ok_def elim!: returnsE)
  have "buf_capacity \<le> 2 ^ 20" by (simp add: buf_capacity_def)
  from copy_buffered_ends [OF this assms, of 0 "[]"] obtain a buf c1 w1 where
    buf: "copy_buffered rd wr (2 ^ 20) 0 [] (body_content b) w = Some (a, buf, c1, w1)" "ok w1" "left w1 \<le> left w"
    by blast
  obtain q buf' w2 where "flush_buf wr buf w1 = Some (q, buf', w2)" "ok w2" "left w2 \<le> left w1"
    using snk.flush_buf_ends [OF buf(2)] by blast
  with buf have "\<exists>a c w'. copy_through_bufwriter rd wr (2 ^ 20) (body_content b, w) = Some (a, (c, w')) \<and> ok w' \<and> left w' \<le> left w"
    by (cases "a = Panic") (auto simp: copy_through_bufwriter_def)
  with loop show ?thesis by (auto simp: body_write_def Let_def)
qed

text \<open>Writing a response returns.\<close>

lemma response_write_ends:
  fixes p :: "('m, 'r) response"
  assumes "\<forall>b. rs_body p = Some b \<longrightarrow> rok (body_content b)" and "ok w"
  shows "\<exists>r p' w'. response_write it rd wr (p, w) = Some (r, (p', w')) \<and> ok w' \<and> left w' \<le> left w"
proof -
  let ?line = "\<lparr>sl_version = version_to_string HTTP1_1, sl_status = status_clone (rs_status p),
    sl_reason = string_from_status (status_clone (rs_status p))\<rparr>"
  let ?hs = "ensure_length_header (rs_body p) (rs_headers p)"
  obtain r1 w1 where line: "response_line_write wr ?line w = Some (r1, w1)" "ok w1" "left w1 \<le> left w"
    using snk.response_line_write_returns [OF assms(2) order_refl] by (rule returnsE)
  obtain r2 w2 where hs: "headers_write it wr ?hs w1 = Some (r2, w2)" "ok w2" "left w2 \<le> left w"
    using snk.headers_write_returns [OF line(2,3)] by (rule returnsE)
  obtain r3 b w3 where "body_option_write rd wr (rs_body p, w2) = Some (r3, (b, w3))" "ok w3" "left w3 \<le> left w"
  proof (cases "rs_body p")
    case None
    with hs show thesis by (intro that) (simp_all add: body_option_write_def)
  next
    case (Some b)
    with assms(1) obtain r3 b' w3 where "body_write rd wr (b, w2) = Some (r3, (b', w3))" "ok w3" "left w3 \<le> left w2"
      using body_write_ends [OF _ hs(2), of b] by blast
    with Some hs(3) show thesis by (intro that [of r3 "Some b'" w3]) (auto simp: body_option_write_def)
  qed
  with line hs show ?thesis
    by (cases r1; cases r2) (simp_all add: response_write_def Let_def)
qed

end

section \<open>Content and vectors in memory\<close>

interpretation cursor_ends: ending_reader cursor_read "\<lambda>_. True" length
  by unfold_locales (auto simp: cursor_read_def read_progress_def)

interpretation vec_ends: ending_writer vec_write "\<lambda>_. True" "\<lambda>_. 0"
  by unfold_locales (simp add: vec_write_def)

interpretation cursor_to_vec_ends: ending_copy cursor_read "\<lambda>_. True" length vec_write "\<lambda>_. True" "\<lambda>_. 0"
  by (rule ending_copy.intro [OF cursor_ends.ending_reader_axioms vec_ends.ending_writer_axioms])

end
