(* ===== verification/Conversation.thy ===== *)
theory Conversation
  imports Returning Server_Connection
begin

text \<open>
  Every conversation ends. Over any connection whose calls return and whose peer sends finitely
  much (anything at all, at any pace), \<^verbatim>\<open>handle_connection\<close> returns, and
  \<^verbatim>\<open>handle_conversation\<close> returns after as many turns as requests were read; the
  cancellable stream over a system that behaves so is such a connection.
\<close>

section \<open>A stream with time-outs\<close>

definition call_ends :: "('s \<Rightarrow> bool) \<Rightarrow> ('s \<Rightarrow> nat) \<Rightarrow> 's \<Rightarrow> (('a, io_error) res \<times> 's) option \<Rightarrow> bool" where
  "call_ends ok left s x \<longleftrightarrow> (\<exists>r s'. x = Some (r, s') \<and> ok s' \<and> left s' \<le> left s
     \<and> (\<forall>e. r = Err e \<longrightarrow> io_kind e = Interrupted \<longrightarrow> left s' < left s))"

lemma call_endsE:
  assumes "call_ends ok left s x"
  obtains r s' where "x = Some (r, s')" "ok s'" "left s' \<le> left s"
    "\<forall>e. r = Err e \<longrightarrow> io_kind e = Interrupted \<longrightarrow> left s' < left s"
  using assms unfolding call_ends_def by blast

locale ending_stream =
  fixes tm :: "'s timed" and ok :: "'s \<Rightarrow> bool" and left :: "'s \<Rightarrow> nat"
  assumes reads: "failing_reader (tm_read tm) ok left"
    and writes: "ending_writer (tm_write tm) ok left"
    and flush_ends: "ok s \<Longrightarrow> call_ends ok left s (tm_flush tm s)"
    and set_read_ends: "ok s \<Longrightarrow> call_ends ok left s (tm_set_read_timeout tm d s)"
    and set_write_ends: "ok s \<Longrightarrow> call_ends ok left s (tm_set_write_timeout tm d s)"
begin

lemma timed_call_ends:
  assumes "call_ends ok left s (st (Some (op_next_timeout op)) s)"
    and "\<And>s1. ok s1 \<Longrightarrow> \<exists>r s2. io s1 = Some (r, s2) \<and> ok s2 \<and> P s1 r s2"
    and "\<And>s1 r s2. left s1 \<le> left s \<Longrightarrow> P s1 r s2 \<Longrightarrow> P s (would_block_is_timeout r) s2"
    and "\<And>e s1. left s1 \<le> left s \<Longrightarrow> io_kind e = Interrupted \<longrightarrow> left s1 < left s \<Longrightarrow> P s (Err e) s1"
    and "\<And>s1. left s1 \<le> left s \<Longrightarrow> P s Panic s1" and "ok s"
  shows "\<exists>r op' s2. timed_call st now io op s = Some (r, op', s2) \<and> ok s2 \<and> P s r s2"
proof (cases "as_secs (op_next_timeout op) = 0")
  case True
  with assms(4) [of s "io_error_from TimedOut"] assms(6) show ?thesis by (simp add: timed_call_def)
next
  case False
  obtain r s1 where r: "st (Some (op_next_timeout op)) s = Some (r, s1)" "ok s1" "left s1 \<le> left s"
    "\<forall>e. r = Err e \<longrightarrow> io_kind e = Interrupted \<longrightarrow> left s1 < left s"
    using assms(1) by (auto simp: call_ends_def)
  show ?thesis
  proof (cases r)
    case (Ok u)
    from assms(2) [OF r(2)] obtain q s2 where q: "io s1 = Some (q, s2)" "ok s2" "P s1 q s2" by blast
    from assms(3) [OF r(3) q(3)] q r(1) Ok False show ?thesis by (simp add: timed_call_def)
  next
    case (Err e)
    with r assms(4) [OF r(3), of e] False show ?thesis by (simp add: timed_call_def)
  next
    case Panic
    with r assms(5) [OF r(3)] False show ?thesis by (simp add: timed_call_def)
  qed
qed

lemma timed_read_ends:
  assumes "ok s" and "0 < n"
  shows "\<exists>r op' s2. timed_call (tm_set_read_timeout tm) (tm_now tm) (tm_read tm n) op s = Some (r, op', s2)
    \<and> ok s2 \<and> read_progress left s r s2 \<and> r \<noteq> Ok []"
proof -
  have "\<exists>r op' s2. timed_call (tm_set_read_timeout tm) (tm_now tm) (tm_read tm n) op s = Some (r, op', s2)
    \<and> ok s2 \<and> (read_progress left s r s2 \<and> r \<noteq> Ok [])"
  proof (rule timed_call_ends [where P = "\<lambda>s r s'. read_progress left s r s' \<and> r \<noteq> Ok []"])
    show "call_ends ok left s (tm_set_read_timeout tm (Some (op_next_timeout op)) s)" by (rule set_read_ends [OF assms(1)])
  next
    fix s1 assume s1: "ok s1"
    obtain r s2 where r: "tm_read tm n s1 = Some (r, s2)" "ok s2" "read_progress left s1 r s2"
      using ending_reader.read_ends [OF failing_reader.axioms(1) [OF reads] s1 assms(2)] by blast
    moreover have "r \<noteq> Ok []" using failing_reader.read_some [OF reads s1 assms(2)] r(1) by auto
    ultimately show "\<exists>r s2. tm_read tm n s1 = Some (r, s2) \<and> ok s2 \<and> (read_progress left s1 r s2 \<and> r \<noteq> Ok [])"
      by blast
  qed (auto simp: read_progress_def would_block_is_timeout_def assms(1) split: res.splits if_splits)
  then show ?thesis by blast
qed

lemma timed_write_ends:
  assumes "ok s" and "bs \<noteq> []"
  shows "\<exists>r op' s2. timed_call (tm_set_write_timeout tm) (tm_now tm) (tm_write tm bs) op s = Some (r, op', s2)
    \<and> ok s2 \<and> left s2 \<le> left s \<and> (\<forall>e. r = Err e \<longrightarrow> io_kind e = Interrupted \<longrightarrow> left s2 < left s)"
proof (rule timed_call_ends [where P = "\<lambda>s r s'. left s' \<le> left s \<and> (\<forall>e. r = Err e \<longrightarrow> io_kind e = Interrupted \<longrightarrow> left s' < left s)"])
  show "call_ends ok left s (tm_set_write_timeout tm (Some (op_next_timeout op)) s)" by (rule set_write_ends [OF assms(1)])
  show "\<exists>r s2. tm_write tm bs s1 = Some (r, s2) \<and> ok s2
    \<and> (left s2 \<le> left s1 \<and> (\<forall>e. r = Err e \<longrightarrow> io_kind e = Interrupted \<longrightarrow> left s2 < left s1))" if "ok s1" for s1
    by (rule ending_writer.write_ends [OF writes that assms(2)])
qed (auto simp: would_block_is_timeout_def assms(1) split: res.splits if_splits)

abbreviation ts_ok :: "'s timeout_stream \<Rightarrow> bool" where "ts_ok ts \<equiv> ok (ts_stream ts)"
abbreviation ts_left :: "'s timeout_stream \<Rightarrow> nat" where "ts_left ts \<equiv> left (ts_stream ts)"

lemma timeout_read_ends: "failing_reader (timeout_read tm) ts_ok ts_left"
proof -
  have step: "\<exists>r ts'. timeout_read tm n ts = Some (r, ts') \<and> ts_ok ts' \<and> read_progress ts_left ts r ts' \<and> r \<noteq> Ok []"
    if ts: "ts_ok ts" "0 < n" for n ts
  proof (cases "ts_read ts")
    case None
    obtain r s where r: "tm_read tm n (ts_stream ts) = Some (r, s)" "ok s" "read_progress left (ts_stream ts) r s"
      using ending_reader.read_ends [OF failing_reader.axioms(1) [OF reads] ts] by blast
    moreover have "r \<noteq> Ok []" using failing_reader.read_some [OF reads ts] r(1) by auto
    ultimately show ?thesis using None by (auto simp: timeout_read_def read_progress_def split: res.splits)
  next
    case (Some d)
    let ?op = "case ts_ongoing_read ts of None \<Rightarrow> op_from_timeout d | Some op \<Rightarrow> op"
    obtain r op' s where "timed_call (tm_set_read_timeout tm) (tm_now tm) (tm_read tm n) ?op (ts_stream ts) = Some (r, op', s)"
      "ok s" "read_progress left (ts_stream ts) r s" "r \<noteq> Ok []"
      using timed_read_ends [OF ts, of ?op] by blast
    with Some show ?thesis by (auto simp: timeout_read_def read_progress_def split: res.splits)
  qed
  show ?thesis
  proof
    fix ts and n :: nat assume "ts_ok ts" "0 < n"
    from step [OF this] show "\<exists>r ts'. timeout_read tm n ts = Some (r, ts') \<and> ts_ok ts' \<and> read_progress ts_left ts r ts'"
      by blast
  next
    fix ts ts' bs and n :: nat assume "ts_ok ts" "0 < n" "timeout_read tm n ts = Some (Ok bs, ts')"
    with step [OF this(1,2)] show "bs \<noteq> []" by auto
  qed
qed

lemma timeout_write_ends: "ending_writer (timeout_write tm) ts_ok ts_left"
proof
  fix ts :: "'s timeout_stream" and bs :: "byte list"
  assume ts: "ts_ok ts" "bs \<noteq> []"
  show "\<exists>r ts'. timeout_write tm bs ts = Some (r, ts') \<and> ts_ok ts' \<and> ts_left ts' \<le> ts_left ts
    \<and> (\<forall>e. r = Err e \<longrightarrow> io_kind e = Interrupted \<longrightarrow> ts_left ts' < ts_left ts)"
  proof (cases "ts_write ts")
    case None
    with ending_writer.write_ends [OF writes ts] show ?thesis by (auto simp: timeout_write_def)
  next
    case (Some d)
    let ?op = "case ts_ongoing_write ts of None \<Rightarrow> op_from_timeout d | Some op \<Rightarrow> op"
    obtain r op' s where "timed_call (tm_set_write_timeout tm) (tm_now tm) (tm_write tm bs) ?op (ts_stream ts) = Some (r, op', s)"
      "ok s" "left s \<le> left (ts_stream ts)" "\<forall>e. r = Err e \<longrightarrow> io_kind e = Interrupted \<longrightarrow> left s < left (ts_stream ts)"
      using timed_write_ends [OF ts, of ?op] by blast
    with Some show ?thesis by (auto simp: timeout_write_def)
  qed
qed

end

section \<open>One turn\<close>

text \<open>A read body has the reader that is left; whatever a handler does with it is progress.\<close>

lemma request_read_body:
  assumes "request_read_buffered ext rd b0 = Some (Ok q, b)" and "rq_body q = Some bd"
  shows "tk_inner (body_content bd) = b"
proof -
  obtain hs where "body_read_from ext hs b = Ok (Some bd)"
    using assms by (auto simp: request_read_buffered_def elim!: and_then_OkD)
  from body_read_from_limited [OF this] show ?thesis by simp
qed

lemma read_progress_left: "read_progress left s r s' \<Longrightarrow> left s' \<le> left s"
  by (auto simp: read_progress_def split: res.splits)

context ending_reader
begin

lemma body_used_ends:
  "body_used rd b0 b \<Longrightarrow> ok (body_content b0) \<Longrightarrow> ok (body_content b) \<and> left (body_content b) \<le> left (body_content b0)"
proof (induction rule: body_used.induct)
  case (read_body b n r b')
  then have b: "ok (body_content b)" "left (body_content b) \<le> left (body_content b0)" by auto
  obtain q c where q: "rd n (body_content b) = Some (q, c)" "ok c" "read_progress left (body_content b) q c"
    using read_ends [OF b(1) read_body.hyps(2)] by blast
  then have "body_content b' = c" using read_body.hyps(3) by (auto simp: body_read_def split: res.splits)
  with q(2) read_progress_left [OF q(3)] b(2) show ?case by simp
next
  case (read_content b n r c)
  then have b: "ok (body_content b)" "left (body_content b) \<le> left (body_content b0)" by auto
  obtain q c' where q: "rd n (body_content b) = Some (q, c')" "ok c'" "read_progress left (body_content b) q c'"
    using read_ends [OF b(1) read_content.hyps(2)] by blast
  with read_content.hyps(3) read_progress_left [OF q(3)] b(2) show ?case by simp
qed simp

lemma body_ensure_read_ends:
  assumes "ok (body_content b)"
  shows "\<exists>r b'. body_ensure_read rd b = Some (r, b') \<and> ok (body_content b') \<and> left (body_content b') \<le> left (body_content b)"
proof (cases "bytes_read b = content_length b")
  case False
  have sink: "ending_writer sink_write (\<lambda>_. True) (\<lambda>_. 0)" by unfold_locales (simp add: sink_write_def)
  let ?t = "\<lparr>tk_inner = body_content b, tk_limit = unat (content_length b - bytes_read b)\<rparr>"
  have "returns (both_ok (\<lambda>t. ok (tk_inner t)) (\<lambda>_. True) (\<lambda>_. 0) 0) (\<lambda>st. left (tk_inner (fst st))) (left (tk_inner ?t))
      (copy_loop (take_read rd) sink_write 0 (?t, ()))"
    by (rule ending_copy.copy_loop_returns [OF ending_copy.intro [OF take_ends sink]]) (use assms in simp_all)
  then obtain r t u where "copy_loop (take_read rd) sink_write 0 (?t, ()) = Some (r, (t, u))" "ok (tk_inner t)"
    "left (tk_inner t) \<le> left (body_content b)"
    by (auto simp: returns_def both_ok_def)
  with False show ?thesis by (simp add: body_ensure_read_def Let_def io_copy_def)
qed (use assms in \<open>simp add: body_ensure_read_def\<close>)

end

text \<open>
  A handler that ends: it returns (or panics) on every request, with a response whose body can be
  read, and has done nothing with the body of the request but read it.
\<close>

definition handler_ends :: "'c connection_io \<Rightarrow> ('rb \<Rightarrow> bool) \<Rightarrow> ('m, 'c request_reader take_reader, 'rb) handler \<Rightarrow> bool" where
  "handler_ends io rok h \<longleftrightarrow> (\<forall>q. \<exists>r q1. h q = Some (r, q1)
     \<and> (\<forall>resp b. r = Ok resp \<longrightarrow> rs_body resp = Some b \<longrightarrow> rok (body_content b))
     \<and> (case rq_body q of
          None \<Rightarrow> rq_body q1 = None
        | Some b0 \<Rightarrow> \<exists>b1. rq_body q1 = Some b1 \<and> body_used (body_reader io) b0 b1))"

definition handlers_end :: "'c connection_io \<Rightarrow> ('rb \<Rightarrow> bool) \<Rightarrow> ('m, 'c request_reader take_reader, 'rb) handler router \<Rightarrow> bool" where
  "handlers_end io rok rts \<longleftrightarrow> (\<forall>path m h. router_get_prefix rts path m = Some h \<longrightarrow> handler_ends io rok h)"

lemma run_action_ends:
  fixes rts :: "('m, 'c request_reader take_reader, 'rb) handler router"
  assumes "handlers_end io rok rts"
  shows "handler_ends io rok (run_action rts)"
  unfolding handler_ends_def
proof
  fix q :: "('m, 'c request_reader take_reader) request"
  have same: "case rq_body q of None \<Rightarrow> rq_body q = None
      | Some b0 \<Rightarrow> \<exists>b1. rq_body q = Some b1 \<and> body_used (body_reader io) b0 b1"
    by (auto intro: body_used.unused split: option.split)
  show "\<exists>r q1. run_action rts q = Some (r, q1)
     \<and> (\<forall>resp b. r = Ok resp \<longrightarrow> rs_body resp = Some b \<longrightarrow> rok (body_content b))
     \<and> (case rq_body q of None \<Rightarrow> rq_body q1 = None
        | Some b0 \<Rightarrow> \<exists>b1. rq_body q1 = Some b1 \<and> body_used (body_reader io) b0 b1)"
  proof (cases "\<exists>path h. normalize (rq_uri q) = Ok path \<and> router_get_prefix rts path (rq_method q) = Some h")
    case True
    then obtain path h where h: "normalize (rq_uri q) = Ok path" "router_get_prefix rts path (rq_method q) = Some h" by blast
    then have "handler_ends io rok h" using assms by (simp add: handlers_end_def)
    from this [unfolded handler_ends_def, rule_format, of "q\<lparr>rq_uri := path\<rparr>"] h show ?thesis
      by (simp add: run_action_def)
  next
    case False
    with same show ?thesis
      by (cases "normalize (rq_uri q)") (auto simp: run_action_def response_from_status_def split: option.splits)
  qed
qed

locale ending_connection = ending_stream "ci_stream io" ok left
  for io :: "'c connection_io" and ok and left +
  assumes shutdown_ends: "ok c \<Longrightarrow> call_ends ok left c (ci_shutdown io c)"
begin

lemma body_reader_ends: "ending_reader (body_reader io) (\<lambda>t. br_ok ts_ok (tk_inner t)) (\<lambda>t. br_left ts_left (tk_inner t))"
  unfolding body_reader_def
  by (intro ending_reader.take_ends ending_reader.buffered_ends failing_reader.axioms(1) timeout_read_ends)

lemma send_response_ends:
  assumes "ending_reader rbd rok rleft" and "\<And>b. rs_body resp = Some b \<Longrightarrow> rok (body_content b)" and "ok c"
  shows "\<exists>r c'. send_response it io rbd t open resp c = Some (r, c') \<and> ok c' \<and> left c' \<le> left c"
proof -
  let ?ts = "timeout_stream_from c (Some (read_request_timeout t)) (Some (write_response_timeout t))"
  have "ts_ok ?ts" using assms(3) by (simp add: timeout_stream_from_def)
  from ending_copy.response_write_ends [OF ending_copy.intro [OF assms(1) timeout_write_ends] _ this, of resp it] assms(2)
  obtain r p ts where "response_write it rbd (timeout_write (ci_stream io)) (resp, ?ts) = Some (r, (p, ts))"
    "ts_ok ts" "ts_left ts \<le> ts_left ?ts" by blast
  then show ?thesis by (simp add: send_response_def timeout_stream_from_def)
qed

text \<open>After a request was read and its handler ran, the connection has no more to come than before.\<close>

lemma after_handler:
  assumes "br_ok ts_ok b" and "\<And>bd. rq_body q = Some bd \<Longrightarrow> tk_inner (body_content bd) = b"
    and "handler_ends io rok h"
  obtains r q1 where "h q = Some (r, q1)"
    "\<forall>resp bd. r = Ok resp \<longrightarrow> rs_body resp = Some bd \<longrightarrow> rok (body_content bd)"
    "ok (conn_after b q1)" "left (conn_after b q1) \<le> br_left ts_left b"
    "\<exists>r2 q2. ensure_request_read io q1 = Some (r2, q2) \<and> ok (conn_after b q2) \<and> left (conn_after b q2) \<le> br_left ts_left b"
proof -
  obtain r q1 where h: "h q = Some (r, q1)" "\<forall>resp bd. r = Ok resp \<longrightarrow> rs_body resp = Some bd \<longrightarrow> rok (body_content bd)"
    "case rq_body q of None \<Rightarrow> rq_body q1 = None
     | Some b0 \<Rightarrow> \<exists>b1. rq_body q1 = Some b1 \<and> body_used (body_reader io) b0 b1"
    using assms(3) unfolding handler_ends_def by blast
  show thesis
  proof (cases "rq_body q")
    case None
    with h assms(1) show thesis
      by (intro that [of r q1]) (auto simp: conn_after_def conn_of_def ensure_request_read_def br_left_def)
  next
    case (Some b0)
    with h(3) obtain b1 where b1: "rq_body q1 = Some b1" "body_used (body_reader io) b0 b1" by auto
    have inner: "tk_inner (body_content b0) = b" by (rule assms(2) [OF Some])
    have ok1: "br_ok ts_ok (tk_inner (body_content b1))" "br_left ts_left (tk_inner (body_content b1)) \<le> br_left ts_left b"
      using ending_reader.body_used_ends [OF body_reader_ends b1(2)] inner assms(1) by simp_all
    obtain r2 b2 where b2: "body_ensure_read (body_reader io) b1 = Some (r2, b2)" "br_ok ts_ok (tk_inner (body_content b2))"
      "br_left ts_left (tk_inner (body_content b2)) \<le> br_left ts_left (tk_inner (body_content b1))"
      using ending_reader.body_ensure_read_ends [OF body_reader_ends ok1(1)] by blast
    show thesis
      by (rule that [OF h(1)])
        (use h(2) b1(1) b2 ok1 in \<open>auto simp: conn_after_def conn_of_def ensure_request_read_def br_left_def\<close>)
  qed
qed

lemma handle_connection_ends:
  assumes "ending_reader rbd rok rleft" and "handlers_end io rok rts" and "ok c"
  shows "\<exists>r c'. handle_connection ext it io rbd rts t c = Some (r, c') \<and> ok c' \<and> left c' \<le> left c
    \<and> (r = Ok True \<longrightarrow> left c' < left c)"
proof -
  let ?ts = "timeout_stream_from c (Some (read_request_timeout t)) (Some (write_response_timeout t))"
  have b0: "br_ok ts_ok (bufreader_new ?ts)" "br_left ts_left (bufreader_new ?ts) = left c"
    using assms(3) by (simp_all add: timeout_stream_from_def br_left_def bufreader_new_def)
  obtain r b where r: "request_read_from ext (timeout_read (ci_stream io)) ?ts = Some (r, b)" "br_ok ts_ok b"
    "br_left ts_left b \<le> left c" "\<And>q. r = Ok q \<Longrightarrow> br_left ts_left b < left c"
    using failing_reader.request_read_buffered_consumes [OF timeout_read_ends b0(1), of ext]
    unfolding b0(2) request_read_from_def by (rule consumesE) blast
  have conn: "ok (conn_of b)" "left (conn_of b) \<le> left c"
    using r(2,3) by (simp_all add: conn_of_def br_left_def)
  show ?thesis
  proof (cases r)
    case Panic
    with r(1) conn show ?thesis by (simp add: handle_connection_def)
  next
    case (Err e)
    show ?thesis
    proof (cases "\<exists>m. e = InvalidRequest m")
      case True
      obtain q c' where "send_response it io rbd t False (response_from_status BadRequest :: (unit, 'a) response) (conn_of b)
          = Some (q, c')" "ok c'" "left c' \<le> left c"
        using send_response_ends [OF assms(1) _ conn(1), of "response_from_status BadRequest" it t False] conn(2)
        by (force simp: response_from_status_def)
      with r(1) Err True show ?thesis
        by (auto simp: handle_connection_def send_response_def split: option.splits prod.splits res.splits)
    next
      case False
      with r(1) Err conn show ?thesis by (cases e) (auto simp: handle_connection_def)
    qed
  next
    case (Ok q)
    have body: "tk_inner (body_content bd) = b" if "rq_body q = Some bd" for bd
      using request_read_body that r(1) Ok unfolding request_read_from_def by blast
    obtain a q1 where a: "run_action rts q = Some (a, q1)"
      "\<forall>resp bd. a = Ok resp \<longrightarrow> rs_body resp = Some bd \<longrightarrow> rok (body_content bd)"
      "ok (conn_after b q1)" "left (conn_after b q1) \<le> br_left ts_left b"
      "\<exists>r2 q2. ensure_request_read io q1 = Some (r2, q2) \<and> ok (conn_after b q2) \<and> left (conn_after b q2) \<le> br_left ts_left b"
      by (rule after_handler [OF r(2) body run_action_ends [OF assms(2)]])
    obtain r2 q2 where q2: "ensure_request_read io q1 = Some (r2, q2)" "ok (conn_after b q2)"
      "left (conn_after b q2) \<le> br_left ts_left b" using a(5) by blast
    have send: "\<exists>u c'. send_response it io rbd t keep resp (conn_after b q2) = Some (u, c') \<and> ok c' \<and> left c' < left c"
      if resp: "a = Ok resp" for resp keep
    proof -
      have "rok (body_content bd)" if "rs_body resp = Some bd" for bd using a(2) resp that by blast
      then obtain u c' where "send_response it io rbd t keep resp (conn_after b q2) = Some (u, c')" "ok c'"
        "left c' \<le> left (conn_after b q2)"
        using send_response_ends [OF assms(1) _ q2(2)] by blast
      with q2(3) r(4) [OF Ok] show ?thesis by auto
    qed
    show ?thesis
    proof (cases "\<exists>keep resp. is_connection_persistent q = Ok keep \<and> a = Ok resp \<and> r2 = Ok ()")
      case True
      then obtain keep resp where k: "is_connection_persistent q = Ok keep" "a = Ok resp" "r2 = Ok ()" by blast
      obtain u c' where "send_response it io rbd t keep resp (conn_after b q2) = Some (u, c')" "ok c'" "left c' < left c"
        using send [OF k(2)] by blast
      with k r(1) Ok a(1) q2(1) show ?thesis by (simp add: handle_connection_def)
    next
      case False
      with r(1) Ok a(1,3,4) q2 conn r(4) [OF Ok] show ?thesis
        by (cases "is_connection_persistent q"; cases a; cases r2) (auto simp: handle_connection_def)
    qed
  qed
qed

lemma handle_conversation_ends:
  assumes "ending_reader rbd rok rleft" and "handlers_end io rok rts"
  shows "ok c \<Longrightarrow> \<exists>r c'. handle_conversation ext it io rbd rts t c = Some (r, c') \<and> (r = Ok () \<or> r = Panic) \<and> ok c'
    \<and> left c' \<le> left c"
proof (induction "left c" arbitrary: c rule: less_induct)
  case less
  obtain r c1 where turn: "handle_connection ext it io rbd rts t c = Some (r, c1)" "ok c1" "left c1 \<le> left c"
    "r = Ok True \<Longrightarrow> left c1 < left c"
    using handle_connection_ends [OF assms less.prems] by blast
  obtain q c2 where flush: "tm_flush (ci_stream io) c1 = Some (q, c2)" "ok c2" "left c2 \<le> left c1"
    using flush_ends [OF turn(2)] by (auto simp: call_ends_def)
  obtain u c3 where shut: "ci_shutdown io c2 = Some (u, c3)" "ok c3" "left c3 \<le> left c2"
    using shutdown_ends [OF flush(2)] by (auto simp: call_ends_def)
  show ?case
  proof (cases "r = Ok True \<and> (\<exists>v. q = Ok v)")
    case True
    then have "left c2 < left c" using turn(4) flush(3) by simp
    from less.hyps [OF this flush(2)] this True turn(1) flush(1) show ?thesis
      by (subst handle_conversation.simps) auto
  next
    case False
    with turn flush shut show ?thesis
      by (subst handle_conversation.simps) (auto split: res.splits)
  qed
qed

end

text \<open>The handlers of a router are those that were registered.\<close>

lemma handlers_end_all:
  assumes "router_add_all rs router_new = Some rts" and "\<And>path m h. (path, m, h) \<in> set rs \<Longrightarrow> handler_ends io rok h"
  shows "handlers_end io rok rts"
  unfolding handlers_end_def
proof (intro allI impI)
  fix path m h assume "router_get_prefix rts path m = Some h"
  then obtain n mh where "trie_get (routes rts) (take n path) = Some mh" "get_action mh m = Some h"
    by (auto simp: router_get_prefix_def trie_get_prefix_iff longest_match_def split: option.splits)
  then have "router_get rts (take n path) m = Some h" by (simp add: router_get_def)
  then have "map_of (rev (map (\<lambda>(p, m, h). ((p, m), h)) rs)) (take n path, m) = Some h"
    using router_add_all_get [OF assms(1) router_new_inv, of "take n path" m]
    by (simp add: router_get_def router_new_def split: option.splits)
  from map_of_SomeD [OF this] assms(2) show "handler_ends io rok h" by auto
qed

section \<open>The cancellable stream is such a connection\<close>

text \<open>
  What the system promises: its calls return, reads and writes that would block are finitely many,
  and so are waits for writability that report something else.
\<close>

definition blocked :: "io_error \<Rightarrow> bool" where
  "blocked e \<longleftrightarrow> io_kind e = WouldBlock \<or> io_kind e = Interrupted"

definition write_ready :: "event list \<Rightarrow> bool" where
  "write_ready evts \<longleftrightarrow> (\<exists>e \<in> set evts. ev_key e = 1 \<and> ev_writable e)"

locale ending_os =
  fixes os :: "'s os" and ok :: "'s \<Rightarrow> bool" and left :: "'s \<Rightarrow> nat"
  assumes modify_ends: "ok s \<Longrightarrow> call_ends ok left s (os_modify os e s)"
    and wait_ends: "ok s \<Longrightarrow> call_ends ok left s (os_wait os d s)"
    and wait_write: "ok s \<Longrightarrow> os_modify os (event_writable 1) s = Some (Ok (), s1) \<Longrightarrow> os_wait os d s1 = Some (Ok evts, s2)
      \<Longrightarrow> evts = [] \<or> write_ready evts \<or> left s2 < left s"
    and os_read_ends: "ok s \<Longrightarrow> \<exists>r s'. os_read os n s = Some (r, s') \<and> ok s' \<and> read_progress left s r s'
      \<and> (\<forall>e. r = Err e \<longrightarrow> blocked e \<longrightarrow> left s' < left s)"
    and os_write_ends: "ok s \<Longrightarrow> bs \<noteq> [] \<Longrightarrow> \<exists>r s'. os_write os bs s = Some (r, s') \<and> ok s' \<and> left s' \<le> left s
      \<and> (r = Ok 0 \<longrightarrow> left s' < left s) \<and> (\<forall>e. r = Err e \<longrightarrow> blocked e \<longrightarrow> left s' < left s)"
    and nonblocking_ends: "ok s \<Longrightarrow> call_ends ok left s (os_set_nonblocking os b s)"
    and os_flush_ends: "ok s \<Longrightarrow> call_ends ok left s (os_flush os s)"
    and os_shutdown_ends: "ok s \<Longrightarrow> call_ends ok left s (os_shutdown os s)"
    and set_done_ends: "ok s \<Longrightarrow> ok (os_set_done os s) \<and> left (os_set_done os s) \<le> left s"
begin

lemma read_events_ends:
  "ok s \<Longrightarrow> \<exists>r s'. read_events os n acc evts s = Some (r, s') \<and> ok s' \<and>
     (case r of
        Ok bs \<Rightarrow> length bs + left s' \<le> length acc + left s
      | Err e \<Rightarrow> left s' \<le> left s \<and> (io_kind e = Interrupted \<longrightarrow> left s' < left s)
      | Panic \<Rightarrow> left s' \<le> left s)"
proof (induction evts arbitrary: acc s)
  case (Cons evt evts)
  show ?case
  proof (cases "ev_key evt = 1")
    case True
    obtain r s' where r: "os_read os (n - length acc) s = Some (r, s')" "ok s'" "read_progress left s r s'"
      "\<forall>e. r = Err e \<longrightarrow> blocked e \<longrightarrow> left s' < left s"
      using os_read_ends [OF Cons.prems] by blast
    show ?thesis
    proof (cases r)
      case (Ok bs)
      obtain q s'' where q: "read_events os n (acc @ bs) evts s' = Some (q, s'')" "ok s''"
        "case q of Ok cs \<Rightarrow> length cs + left s'' \<le> length (acc @ bs) + left s'
         | Err e \<Rightarrow> left s'' \<le> left s' \<and> (io_kind e = Interrupted \<longrightarrow> left s'' < left s')
         | Panic \<Rightarrow> left s'' \<le> left s'"
        using Cons.IH [OF r(2), of "acc @ bs"] by blast
      have "length bs + left s' \<le> left s" using r(3) Ok by (simp add: read_progress_def)
      with q r(1,2) Ok True show ?thesis by (auto split: res.splits)
    next
      case (Err e)
      with r True show ?thesis by (auto simp: read_progress_def blocked_def)
    next
      case Panic
      with r True show ?thesis by (auto simp: read_progress_def)
    qed
  next
    case False
    with Cons.IH [OF Cons.prems, of acc] show ?thesis by simp
  qed
qed simp

lemma write_events_ends:
  assumes "bs \<noteq> []"
  shows "ok s \<Longrightarrow> \<exists>r s'. write_events os bs evts s = Some (r, s') \<and> ok s' \<and> left s' \<le> left s
     \<and> (r = Ok 0 \<longrightarrow> write_ready evts \<longrightarrow> left s' < left s)
     \<and> (\<forall>e. r = Err e \<longrightarrow> io_kind e = Interrupted \<longrightarrow> left s' < left s)"
proof (induction evts)
  case (Cons evt evts)
  show ?case
  proof (cases "ev_key evt = 1 \<and> ev_writable evt")
    case True
    obtain r s' where r: "os_write os bs s = Some (r, s')" "ok s'" "left s' \<le> left s" "r = Ok 0 \<longrightarrow> left s' < left s"
      "\<forall>e. r = Err e \<longrightarrow> blocked e \<longrightarrow> left s' < left s"
      using os_write_ends [OF Cons.prems assms] by blast
    show ?thesis
    proof (cases r)
      case (Err e)
      obtain u s'' where u: "os_set_nonblocking os False s' = Some (u, s'')" "ok s''" "left s'' \<le> left s'"
        "\<forall>e. u = Err e \<longrightarrow> io_kind e = Interrupted \<longrightarrow> left s'' < left s'"
        by (rule call_endsE [OF nonblocking_ends [OF r(2), of False]])
      show ?thesis
        using r u Err True by (cases u) (auto simp: blocked_def and_then_def)
    qed (use r True in auto)
  next
    case False
    then have "write_ready (evt # evts) \<longleftrightarrow> write_ready evts" by (auto simp: write_ready_def)
    with False Cons.IH [OF Cons.prems] show ?thesis by simp
  qed
qed (simp add: write_ready_def)

lemma wait_and_write_ends:
  assumes "ok s" and "bs \<noteq> []"
    and step_def: "step = and_then (os_modify os (event_writable 1)) (\<lambda>_. and_then (os_wait os d) (\<lambda>events.
      if length events = 0 then (\<lambda>s. Some (Err (no_event_error os s), s)) else write_events os bs events))"
  shows "\<exists>r s'. step s = Some (r, s') \<and> ok s' \<and> left s' \<le> left s \<and> (r = Ok 0 \<longrightarrow> left s' < left s)
     \<and> (\<forall>e. r = Err e \<longrightarrow> io_kind e = Interrupted \<longrightarrow> left s' < left s)"
proof -
  obtain r1 s1 where r1: "os_modify os (event_writable 1) s = Some (r1, s1)" "ok s1" "left s1 \<le> left s"
    "\<forall>e. r1 = Err e \<longrightarrow> io_kind e = Interrupted \<longrightarrow> left s1 < left s"
    by (rule call_endsE [OF modify_ends [OF assms(1)]])
  obtain r2 s2 where r2: "os_wait os d s1 = Some (r2, s2)" "ok s2" "left s2 \<le> left s1"
    "\<forall>e. r2 = Err e \<longrightarrow> io_kind e = Interrupted \<longrightarrow> left s2 < left s1"
    by (rule call_endsE [OF wait_ends [OF r1(2)]])
  show ?thesis
  proof (cases "\<exists>evts. r1 = Ok () \<and> r2 = Ok evts \<and> evts \<noteq> []")
    case True
    then obtain evts where evts: "r1 = Ok ()" "r2 = Ok evts" "evts \<noteq> []" by blast
    obtain r3 s3 where r3: "write_events os bs evts s2 = Some (r3, s3)" "ok s3" "left s3 \<le> left s2"
      "r3 = Ok 0 \<longrightarrow> write_ready evts \<longrightarrow> left s3 < left s2" "\<forall>e. r3 = Err e \<longrightarrow> io_kind e = Interrupted \<longrightarrow> left s3 < left s2"
      using write_events_ends [OF assms(2) r2(2)] by blast
    have "write_ready evts \<or> left s2 < left s"
      using wait_write [OF assms(1)] r1(1) r2(1) evts by metis
    with r1 r2 r3 evts show ?thesis by (auto simp: step_def and_then_def)
  next
    case False
    with r1 r2 show ?thesis
      by (cases r1; cases r2) (auto simp: step_def and_then_def no_event_error_def)
  qed
qed

lemma write_loop_ends:
  "ok s \<Longrightarrow> \<exists>r s'. write_loop os d buf written s = Some (r, s') \<and> ok s' \<and> left s' \<le> left s
     \<and> (\<forall>e. r = Err e \<longrightarrow> io_kind e = Interrupted \<longrightarrow> left s' < left s)"
proof (induction "(written, s)" arbitrary: written s
    rule: wf_induct_rule [OF wf_measures [of "[\<lambda>p. length buf - fst p, \<lambda>p. left (snd p)]"]])
  case (1 written s)
  show ?case
  proof (cases "written < length buf")
    case True
    then have "drop written buf \<noteq> []" by simp
    from wait_and_write_ends [OF "1.prems" this refl, of d] obtain r s' where
      r: "and_then (os_modify os (event_writable 1)) (\<lambda>_. and_then (os_wait os d) (\<lambda>events.
          if length events = 0 then (\<lambda>s. Some (Err (no_event_error os s), s))
          else write_events os (drop written buf) events)) s = Some (r, s')"
        "ok s'" "left s' \<le> left s" "r = Ok 0 \<longrightarrow> left s' < left s"
        "\<forall>e. r = Err e \<longrightarrow> io_kind e = Interrupted \<longrightarrow> left s' < left s" by blast
    show ?thesis
    proof (cases r)
      case (Ok n)
      have "((written + n, s'), (written, s)) \<in> measures [\<lambda>p. length buf - fst p, \<lambda>p. left (snd p)]"
        using True r(3,4) Ok by (cases "n = 0") auto
      from "1.hyps" [OF this r(2)] obtain q s'' where "write_loop os d buf (written + n) s' = Some (q, s'')" "ok s''"
        "left s'' \<le> left s'" "\<forall>e. q = Err e \<longrightarrow> io_kind e = Interrupted \<longrightarrow> left s'' < left s'" by blast
      with r(1,3) Ok True show ?thesis by (subst write_loop.simps) (auto intro: order_trans)
    qed (use r True in \<open>subst write_loop.simps, simp\<close>)+
  qed (use "1.prems" in \<open>subst write_loop.simps, simp\<close>)
qed

abbreviation cs_ok :: "'s cancellable \<Rightarrow> bool" where "cs_ok c \<equiv> ok (cs_stream c)"
abbreviation cs_left :: "'s cancellable \<Rightarrow> nat" where "cs_left c \<equiv> left (cs_stream c)"

lemma on_stream_ends: "call_ends ok left (cs_stream c) (m (cs_stream c)) \<Longrightarrow> call_ends cs_ok cs_left c (on_stream m c)"
  by (auto simp: call_ends_def on_stream_def)

lemma read_int_ends_always:
  assumes "cs_ok c"
  shows "\<exists>r c'. read_int os n c = Some (r, c') \<and> cs_ok c' \<and> read_progress cs_left c r c' \<and> r \<noteq> Ok []"
proof -
  let ?s = "cs_stream c"
  obtain r1 s1 where r1: "os_modify os (event_readable 1) ?s = Some (r1, s1)" "ok s1" "left s1 \<le> left ?s"
    "\<forall>e. r1 = Err e \<longrightarrow> io_kind e = Interrupted \<longrightarrow> left s1 < left ?s"
    by (rule call_endsE [OF modify_ends [OF assms]])
  obtain r2 s2 where r2: "os_wait os (cs_read_timeout c) s1 = Some (r2, s2)" "ok s2" "left s2 \<le> left s1"
    "\<forall>e. r2 = Err e \<longrightarrow> io_kind e = Interrupted \<longrightarrow> left s2 < left s1"
    by (rule call_endsE [OF wait_ends [OF r1(2)]])
  show ?thesis
  proof (cases "\<exists>evts. r1 = Ok () \<and> r2 = Ok evts \<and> evts \<noteq> []")
    case True
    then obtain evts where evts: "r1 = Ok ()" "r2 = Ok evts" "evts \<noteq> []" by blast
    obtain r3 s3 where r3: "read_events os n [] evts s2 = Some (r3, s3)" "ok s3"
      "case r3 of Ok bs \<Rightarrow> length bs + left s3 \<le> length ([] :: byte list) + left s2
       | Err e \<Rightarrow> left s3 \<le> left s2 \<and> (io_kind e = Interrupted \<longrightarrow> left s3 < left s2)
       | Panic \<Rightarrow> left s3 \<le> left s2"
      using read_events_ends [OF r2(2)] by blast
    with r1 r2 evts show ?thesis
      by (cases r3) (auto simp: read_int_def on_stream_def and_then_def read_progress_def)
  next
    case False
    with r1 r2 show ?thesis
      by (cases r1; cases r2) (auto simp: read_int_def on_stream_def and_then_def read_progress_def no_event_error_def)
  qed
qed

lemma read_int_failing: "failing_reader (read_int os) cs_ok cs_left"
proof
  fix c :: "'s cancellable" and n :: nat assume "cs_ok c"
  from read_int_ends_always [OF this]
  show "\<exists>r c'. read_int os n c = Some (r, c') \<and> cs_ok c' \<and> read_progress cs_left c r c'" by blast
next
  fix c c' :: "'s cancellable" and n :: nat and bs assume "cs_ok c" "read_int os n c = Some (Ok bs, c')"
  with read_int_ends_always [OF this(1), of n] show "bs \<noteq> []" by auto
qed

lemma write_int_ending: "ending_writer (write_int os) cs_ok cs_left"
proof
  fix c :: "'s cancellable" and bs :: "byte list" assume "cs_ok c"
  from write_loop_ends [OF this, of "cs_write_timeout c" bs 0]
  show "\<exists>r c'. write_int os bs c = Some (r, c') \<and> cs_ok c' \<and> cs_left c' \<le> cs_left c
     \<and> (\<forall>e. r = Err e \<longrightarrow> io_kind e = Interrupted \<longrightarrow> cs_left c' < cs_left c)"
    by (auto simp: write_int_def on_stream_def)
qed

lemma shutdown_call_ends:
  assumes "cs_ok c"
  shows "call_ends cs_ok cs_left c (cancellable_shutdown os c)"
proof -
  let ?c = "c\<lparr>cs_stream := os_set_done os (cs_stream c)\<rparr>"
  have closed: "ok (cs_stream ?c)" "left (cs_stream ?c) \<le> left (cs_stream c)"
    using set_done_ends [OF assms] by simp_all
  have "call_ends cs_ok cs_left ?c (on_stream (os_shutdown os) ?c)"
    using on_stream_ends [of ?c "os_shutdown os"] os_shutdown_ends [OF closed(1)] by simp
  with closed(2) show ?thesis by (fastforce simp: cancellable_shutdown_def call_ends_def)
qed

end

sublocale ending_os < cancellable: ending_connection
  "cancellable_io os" cs_ok cs_left
proof (intro ending_connection.intro ending_stream.intro ending_connection_axioms.intro)
  fix c :: "'s cancellable" and d
  assume c: "cs_ok c"
  show "call_ends cs_ok cs_left c (tm_flush (ci_stream (cancellable_io os)) c)"
    using on_stream_ends [of c "os_flush os"] os_flush_ends [OF c] by (simp add: cancellable_io_def cancellable_timed_def cancellable_flush_def)
  show "call_ends cs_ok cs_left c (tm_set_read_timeout (ci_stream (cancellable_io os)) d c)"
    "call_ends cs_ok cs_left c (tm_set_write_timeout (ci_stream (cancellable_io os)) d c)"
    using c by (simp_all add: cancellable_io_def cancellable_timed_def set_read_timeout_def set_write_timeout_def call_ends_def)
  show "call_ends cs_ok cs_left c (ci_shutdown (cancellable_io os) c)"
    using shutdown_call_ends [OF c] by (simp add: cancellable_io_def)
qed (simp_all add: cancellable_io_def cancellable_timed_def read_int_failing write_int_ending)

interpretation mem_ending: ending_os "mem_os k" "\<lambda>_. True" "\<lambda>s. length (ms_in s)"
  by unfold_locales (auto simp: mem_os_def call_ends_def read_progress_def write_ready_def event_all_def min_def)

interpretation mem_fails: failing_reader "read_int (mem_os k)" "\<lambda>c. True" "\<lambda>c. length (ms_in (cs_stream c))"
  by (rule mem_ending.read_int_failing)

section \<open>Properties\<close>

text \<open>
  C13. Every conversation ends and gives its worker back. On a connection whose calls return, with a
  peer that sends finitely much (any bytes, well-formed or not, in any pieces and at any pace,
  interrupted or not) and handlers that return, \<^verbatim>\<open>handle_conversation\<close> returns, after
  finitely many requests, or unwinds; no header, body or response loop runs for ever.
\<close>

theorem conversation_ends:
  assumes "ending_connection io ok left" and "ending_reader rbd rok rleft" and "handlers_end io rok rts" and "ok c"
  shows "\<exists>r c'. handle_conversation ext it io rbd rts t c = Some (r, c') \<and> (r = Ok () \<or> r = Panic)
    \<and> ok c' \<and> left c' \<le> left c"
  by (rule ending_connection.handle_conversation_ends [OF assms])

text \<open>A peer that sends one request, then breaks off in the middle of the next.\<close>

theorem conversation_ends_witness:
  "\<exists>rts r c'. router_add_all [(''/'', GET, \<lambda>q. Some (Ok (response_from_status OK :: (string, byte list) response), q))] router_new
       = Some rts
     \<and> handle_conversation text_externals rev (mem_io 3) cursor_read rts
       \<lparr>read_request_timeout = from_secs 30, write_response_timeout = from_secs 60\<rparr>
       \<lparr>cs_stream = \<lparr>ms_in = ''GET /a HTTP/1.1'' @ crlf @ crlf @ ''GET /b HT'', ms_out = [], ms_done = False\<rparr>,
         cs_read_timeout = None, cs_write_timeout = None\<rparr> = Some (r, c')
     \<and> (r = Ok () \<or> r = Panic)"
proof -
  let ?c = "\<lparr>cs_stream = \<lparr>ms_in = ''GET /a HTTP/1.1'' @ crlf @ crlf @ ''GET /b HT'', ms_out = [], ms_done = False\<rparr>,
         cs_read_timeout = None, cs_write_timeout = None\<rparr>"
  let ?h = "\<lambda>q. Some (Ok (response_from_status OK :: (string, byte list) response), q)"
  have io: "ending_connection (mem_io 3) (\<lambda>c. True) (\<lambda>c. length (ms_in (cs_stream c)))"
    using mem_ending.cancellable.ending_connection_axioms [of 3] by (simp add: mem_io_def)
  obtain rts :: "(string, mem_socket cancellable request_reader take_reader, byte list) handler router"
    where rts: "router_add_all [(''/'', GET, ?h)] router_new = Some rts"
    by (simp add: router_add_eq)
  have "handler_ends (mem_io 3) (\<lambda>_. True) ?h"
    by (auto simp: handler_ends_def intro: body_used.unused split: option.split)
  then have "handlers_end (mem_io 3) (\<lambda>_. True) rts"
    by (intro handlers_end_all [OF rts]) auto
  from conversation_ends [OF io cursor_ends.ending_reader_axioms this TrueI, where c = ?c] rts show ?thesis by blast
qed

end
