(* ===== verification/Tls_Conversation.thy ===== *)
theory Tls_Conversation
  imports Conversation Tls_Stream
begin

text \<open>
  Conversations over TLS: a cancellable stream over a session that makes progress, over a system whose
  calls return, is a connection whose calls return (\<open>ending_session\<close>), so that every
  conversation on it ends.
\<close>

section \<open>A session over a system whose calls return\<close>

text \<open>What is still to come: decrypted data that the session holds, and data of the socket.\<close>

definition session_left :: "('k \<Rightarrow> nat) \<Rightarrow> ('s \<Rightarrow> nat) \<Rightarrow> 'k \<times> 's \<Rightarrow> nat" where
  "session_left pending left p = pending (fst p) + left (snd p)"

lemma session_left_pair [simp]: "session_left pending left (k, s) = pending k + left s"
  by (simp add: session_left_def)

text \<open>
  A read of the session delivers no more than that, and both a read and a write that would block,
  for a handshake or for more of a record, have consumed something; writing and flushing return.
\<close>

locale ending_session = plain: ending_os os ok left
  for os :: "'s os" and ok left +
  fixes rt :: "('k, 'f, 's) rustls" and pending :: "'k \<Rightarrow> nat"
  assumes session_read: "ok s \<Longrightarrow> \<exists>r p. rt_read rt n (k, s) = Some (r, p) \<and> ok (snd p)
      \<and> read_progress (session_left pending left) (k, s) r p
      \<and> (\<forall>e. r = Err e \<longrightarrow> blocked e \<longrightarrow> session_left pending left p < session_left pending left (k, s))"
    and session_write: "ok s \<Longrightarrow> bs \<noteq> [] \<Longrightarrow> \<exists>r p. rt_write rt bs (k, s) = Some (r, p) \<and> ok (snd p)
      \<and> session_left pending left p \<le> session_left pending left (k, s)
      \<and> (r = Ok 0 \<longrightarrow> session_left pending left p < session_left pending left (k, s))
      \<and> (\<forall>e. r = Err e \<longrightarrow> blocked e \<longrightarrow> session_left pending left p < session_left pending left (k, s))"
    and session_flush: "ok s \<Longrightarrow> call_ends (\<lambda>p. ok (snd p)) (session_left pending left) (k, s) (rt_flush rt (k, s))"

lemma on_plain_ends:
  assumes "call_ends ok left s (m s)"
  shows "call_ends (\<lambda>p. ok (snd p)) (session_left pending left) (k, s) (on_plain m (k, s))"
  using assms by (fastforce simp: call_ends_def on_plain_def)

sublocale ending_session < session: ending_os "tls_os rt os" "\<lambda>p. ok (snd p)" "session_left pending left"
proof (rule ending_os.intro)
  fix p :: "'k \<times> 's" and e assume "ok (snd p)"
  then show "call_ends (\<lambda>p. ok (snd p)) (session_left pending left) p (os_modify (tls_os rt os) e p)"
    by (cases p) (simp add: tls_os_def on_plain_ends plain.modify_ends)
next
  fix p :: "'k \<times> 's" and d assume "ok (snd p)"
  then show "call_ends (\<lambda>p. ok (snd p)) (session_left pending left) p (os_wait (tls_os rt os) d p)"
    by (cases p) (simp add: tls_os_def on_plain_ends plain.wait_ends)
next
  fix p p1 p2 :: "'k \<times> 's" and d evts
  assume "ok (snd p)" "os_modify (tls_os rt os) (event_writable 1) p = Some (Ok (), p1)"
    "os_wait (tls_os rt os) d p1 = Some (Ok evts, p2)"
  then show "evts = [] \<or> write_ready evts \<or> session_left pending left p2 < session_left pending left p"
    using plain.wait_write [of "snd p" "snd p1" d evts "snd p2"]
    by (cases p) (auto simp: tls_os_def on_plain_def split: option.splits)
next
  fix p :: "'k \<times> 's" and n assume "ok (snd p)"
  then show "\<exists>r p'. os_read (tls_os rt os) n p = Some (r, p') \<and> ok (snd p') \<and> read_progress (session_left pending left) p r p'
    \<and> (\<forall>e. r = Err e \<longrightarrow> blocked e \<longrightarrow> session_left pending left p' < session_left pending left p)"
    using session_read [of "snd p" n "fst p"] by (simp add: tls_os_def tls_read_int_def)
next
  fix p :: "'k \<times> 's" and bs :: "byte list" assume "ok (snd p)" "bs \<noteq> []"
  then show "\<exists>r p'. os_write (tls_os rt os) bs p = Some (r, p') \<and> ok (snd p') \<and> session_left pending left p' \<le> session_left pending left p
    \<and> (r = Ok 0 \<longrightarrow> session_left pending left p' < session_left pending left p)
    \<and> (\<forall>e. r = Err e \<longrightarrow> blocked e \<longrightarrow> session_left pending left p' < session_left pending left p)"
    using session_write [of "snd p" bs "fst p"] by (simp add: tls_os_def tls_write_int_def)
next
  fix p :: "'k \<times> 's" and b assume "ok (snd p)"
  then show "call_ends (\<lambda>p. ok (snd p)) (session_left pending left) p (os_set_nonblocking (tls_os rt os) b p)"
    by (cases p) (simp add: tls_os_def tls_set_nonblocking_def on_plain_ends plain.nonblocking_ends)
next
  fix p :: "'k \<times> 's" assume "ok (snd p)"
  then show "call_ends (\<lambda>p. ok (snd p)) (session_left pending left) p (os_flush (tls_os rt os) p)"
    using session_flush [of "snd p" "fst p"] by (simp add: tls_os_def tls_flush_data_def)
next
  fix p :: "'k \<times> 's" assume "ok (snd p)"
  then show "call_ends (\<lambda>p. ok (snd p)) (session_left pending left) p (os_shutdown (tls_os rt os) p)"
    by (cases p) (simp add: tls_os_def tls_shutdown_def on_plain_ends plain.os_shutdown_ends)
next
  fix p :: "'k \<times> 's" assume "ok (snd p)"
  then show "ok (snd (os_set_done (tls_os rt os) p))
      \<and> session_left pending left (os_set_done (tls_os rt os) p) \<le> session_left pending left p"
    using plain.set_done_ends [of "snd p"] by (cases p) (simp add: tls_os_def)
qed

context ending_session
begin

lemma conversation_returns:
  assumes "ending_reader rbd rok rleft" and "handlers_end (cancellable_io (tls_os rt os)) rok rts"
    and "ok (snd (cs_stream c))"
  shows "\<exists>r c'. handle_conversation ext it (cancellable_io (tls_os rt os)) rbd rts t c = Some (r, c') \<and> (r = Ok () \<or> r = Panic)"
  using session.cancellable.handle_conversation_ends [OF assms] by blast

end

interpretation mem_session: ending_session "mem_os j" "\<lambda>_. True" "\<lambda>s. length (ms_in s)" "mem_rustls j" length
  by unfold_locales (auto simp: mem_rustls_def mem_os_def on_plain_def read_progress_def call_ends_def blocked_def min_def)

section \<open>Properties\<close>



end
