(* ===== verification/Pool_Contents.thy ===== *)
theory Pool_Contents
  imports Thread_Pool
begin

text \<open>
  What the pool of the server holds at a time: the actions that its threads are running, those they
  have run, and the number of threads it can have; how its operations change them.
\<close>

section \<open>What the pool is running, and how large it is\<close>

definition running :: "'a worker \<Rightarrow> 'a multiset" where
  "running w = (case wk_thread w of Running a \<Rightarrow> {#a#} | _ \<Rightarrow> {#})"

definition pool_running :: "'a thread_pool \<Rightarrow> 'a multiset" where
  "pool_running p = sum_list (map running (pool_workers p))"

definition pool_ran :: "'a thread_pool \<Rightarrow> 'a multiset" where
  "pool_ran p = mset (pool_retired p) + mset (concat (map wk_ran (pool_workers p)))"

definition pool_bound :: "'a thread_pool \<Rightarrow> nat" where
  "pool_bound p = (case static_part p of None \<Rightarrow> 0 | Some s \<Rightarrow> sp_size s)
     + (case dynamic_part p of None \<Rightarrow> 0 | Some d \<Rightarrow> dp_max d)"

lemma total_split: "total ws = mset (concat (map wk_ran ws)) + sum_list (map running ws)"
  by (induction ws) (simp_all add: total_def held_def running_def)

lemma pool_accepted_split: "pool_accepted p = pool_ran p + pool_running p"
  by (simp add: pool_accepted_workers total_split pool_ran_def pool_running_def)

lemma size_running: "size (sum_list (map running ws)) \<le> length ws"
  by (induction ws) (auto simp: running_def split: thread.split)

lemma length_dynamic_workers: "length (dynamic_workers d) \<le> length (dp_workers d)"
proof -
  have "length (List.map_filter (\<lambda>c. c) cs) \<le> length cs" for cs :: "'a worker option list"
    by (induction cs) (auto simp: map_filter_simps split: option.split)
  then show ?thesis by (simp add: dynamic_workers_def)
qed

lemma pool_workers_bound:
  assumes "pool_inv p"
  shows "length (pool_workers p) \<le> pool_bound p"
proof -
  have "length (dynamic_workers d) \<le> dp_max d" if "dynamic_part p = Some d" for d
    using that assms length_dynamic_workers [of d] by (simp add: pool_inv_def both_def dynamic_inv_def)
  then show ?thesis
    using assms by (auto simp: pool_inv_def both_def pool_workers_def pool_bound_def static_inv_def split: option.split)
qed

lemma running_bound:
  assumes "pool_inv p"
  shows "card (set_mset (pool_running p)) \<le> pool_bound p"
proof -
  have "card (set_mset (pool_running p)) \<le> size (pool_running p)"
    by (metis card_length set_mset_mset size_mset ex_mset)
  then show ?thesis using size_running [of "pool_workers p"] pool_workers_bound [OF assms]
    by (simp add: pool_running_def)
qed

lemma static_run_size:
  assumes "static_inv p" and "static_run env a p = Some (r, p')"
  shows "sp_size p' = sp_size p"
proof -
  let ?q = "static_ticks (env 0) p"
  have q: "static_inv ?q" "sp_next ?q < sp_size ?q" "(sp_next ?q + 1) mod sp_size ?q < sp_size ?q"
    using static_ticks_inv [OF assms(1), of "env 0"] by (simp_all add: static_inv_def)
  show ?thesis
  proof (cases rule: static_exec_cases [OF q(1,2), of a])
    case 2
    obtain q p2 where "static_scan env 1 a ((sp_next ?q + 1) mod sp_size ?q) ?q = Some (q, p2)" "sp_size p2 = sp_size p"
      using static_scan_result [OF q(1,3), of a env 1] by (auto simp: scan_result_def)
    with 2 assms(2) show ?thesis by (cases q) (auto simp: static_run_def)
  qed (use assms(2) in \<open>auto simp: static_run_def\<close>)
qed

lemma dynamic_run_max:
  assumes "dynamic_inv p" and "dynamic_run env a p = Some (r, p')"
  shows "dp_max p' = dp_max p"
proof -
  let ?q = "dynamic_ticks (env 0) p"
  have q: "dynamic_inv ?q" "dp_max ?q = dp_max p" using dynamic_ticks_inv [OF assms(1), of "env 0"] by auto
  show ?thesis
  proof (cases rule: try_add_worker_cases [OF q(1), of a])
    case 2
    from dynamic_scan_result [OF q(1), of env 1 a "[0..<dp_max ?q]"] 2 q(2) assms(2) show ?thesis
      by (auto simp: dynamic_run_def)
  qed (use assms(2) q(2) in \<open>auto simp: dynamic_run_def\<close>)
qed

lemma pool_run_bound:
  assumes "pool_inv p" and "pool_run denv senv a p = Some (r, p')"
  shows "pool_bound p' = pool_bound p"
  using assms static_run_size dynamic_run_max
  by (fastforce simp: pool_run_def pool_run_with_def pool_inv_def both_def pool_bound_def Let_def
      split: option.splits res.splits prod.splits)

lemma pool_ticks_bound:
  assumes "pool_inv p"
  shows "pool_bound (pool_ticks ds ss p) = pool_bound p"
  using assms dynamic_ticks_inv
  by (fastforce simp: pool_inv_def both_def pool_bound_def pool_ticks_def split: option.splits)

lemma pool_new_bound: "pool_new mn mx = Some p \<Longrightarrow> pool_bound p = max mn mx"
  by (auto simp: pool_new_def pool_bound_def static_new_def dynamic_new_def split: if_splits)

section \<open>A run completes nothing by itself\<close>

text \<open>When no thread makes a tick while the pool looks for a worker, no action is completed by it.\<close>

definition dynamic_ran :: "'a dynamic_pool \<Rightarrow> 'a set" where
  "dynamic_ran d = set (dp_retired d) \<union> (\<Union>w \<in> Some -` set (dp_workers d). set (wk_ran w))"

definition static_ran :: "'a static_pool \<Rightarrow> 'a set" where
  "static_ran p = (\<Union>w \<in> set (sp_workers p). set (wk_ran w))"

lemma set_pool_ran: "set_mset (pool_ran p) = (case dynamic_part p of None \<Rightarrow> {} | Some d \<Rightarrow> dynamic_ran d)
    \<union> (case static_part p of None \<Rightarrow> {} | Some s \<Rightarrow> static_ran s)"
proof -
  have "set (dynamic_workers d) = Some -` set (dp_workers d)" for d :: "'a dynamic_pool"
  proof -
    have "set (List.map_filter (\<lambda>c. c) cs) = Some -` set cs" for cs :: "'a worker option list"
      by (induction cs) (auto simp: map_filter_simps split: option.split)
    then show ?thesis by (simp add: dynamic_workers_def)
  qed
  then show ?thesis
    by (auto simp: pool_ran_def pool_retired_def pool_workers_def dynamic_ran_def static_ran_def split: option.splits)
qed

lemma try_send_ran: "wk_ran (snd (try_send a w)) = wk_ran w"
  by (simp add: try_send_def split: thread.split)

lemma static_exec_ran:
  assumes "static_exec i a p = Some (r, p')"
  shows "static_ran p' \<subseteq> static_ran p"
proof (cases "length (sp_workers p) \<le> i")
  case False
  then have "sp_workers p ! i \<in> set (sp_workers p)" by simp
  moreover obtain w where "p' = p\<lparr>sp_workers := (sp_workers p)[i := w]\<rparr>" "wk_ran w = wk_ran (sp_workers p ! i)"
    using assms False try_send_ran [of a "sp_workers p ! i"]
    by (auto simp: static_exec_def worker_exec_def split: prod.splits try_send_result.splits)
  ultimately show ?thesis
    by (auto simp: static_ran_def dest!: set_update_subset_insert [THEN subsetD])
qed (use assms in \<open>simp add: static_exec_def\<close>)

lemma static_scan_ran:
  assumes "static_scan (\<lambda>_. []) k a start p = Some (r, p')"
  shows "static_ran p' \<subseteq> static_ran p"
proof -
  have "env = (\<lambda>_. []) \<longrightarrow> static_ran (snd y) \<subseteq> static_ran p" if "static_scan env k a start p = Some y"
    for env k and a :: 'a and start p y
    using that
  proof (rule static_scan.raw_induct [rotated, where P = "\<lambda>env k a start p y.
      env = (\<lambda>_. []) \<longrightarrow> static_ran (snd y) \<subseteq> static_ran p"], intro impI)
    fix scan env k start p y and a :: 'a
    assume IH: "\<And>env k a start p y. scan env k a start p = Some y \<Longrightarrow> env = (\<lambda>_. []) \<longrightarrow> static_ran (snd y) \<subseteq> static_ran p"
      and step: "(case static_exec start a (static_ticks (env k) p) of
        None \<Rightarrow> None
      | Some (r, p1) \<Rightarrow>
          (case r of
             Ok u \<Rightarrow> Some (Ok start, p1)
           | Err b \<Rightarrow>
               if (start + 1) mod sp_size p1 = sp_next p1 then Some (Err b, p1)
               else scan env (Suc k) b ((start + 1) mod sp_size p1) p1
           | Panic \<Rightarrow> Some (Panic, p1))) = Some y"
      and env: "env = (\<lambda>_. [])"
    obtain r p1 where p1: "static_exec start a p = Some (r, p1)"
      using step env by (auto simp: static_ticks_def split: option.splits)
    have "static_ran p1 \<subseteq> static_ran p" by (rule static_exec_ran [OF p1])
    moreover have "static_ran (snd y) \<subseteq> static_ran p1"
      using step p1 env IH [of env "Suc k" _ _ p1 y]
      by (auto simp: static_ticks_def split: res.splits if_splits)
    ultimately show "static_ran (snd y) \<subseteq> static_ran p" by simp
  qed
  with assms show ?thesis by fastforce
qed

lemma static_run_ran:
  assumes "static_run (\<lambda>_. []) a p = Some (r, p')"
  shows "static_ran p' \<subseteq> static_ran p"
proof -
  have ticks: "static_ticks [] p = p" by (simp add: static_ticks_def)
  have next_ran: "static_ran (q\<lparr>sp_next := n\<rparr>) = static_ran q" for q :: "'a static_pool" and n by (simp add: static_ran_def)
  obtain r1 p1 where p1: "static_exec (sp_next p) a p = Some (r1, p1)"
    using assms by (auto simp: static_run_def ticks split: option.splits)
  note first = static_exec_ran [OF p1]
  show ?thesis
  proof (cases r1)
    case (Err b)
    then obtain q p2 where p2: "static_scan (\<lambda>_. []) 1 b ((sp_next p1 + 1) mod sp_size p1) p1 = Some (q, p2)"
      using assms p1 by (auto simp: static_run_def ticks split: option.splits)
    then show ?thesis
      using static_scan_ran [OF p2] first assms p1 Err
      by (cases q) (auto simp: static_run_def ticks next_ran)
  qed (use first assms p1 in \<open>auto simp: static_run_def ticks next_ran\<close>)
qed

lemma cell_ran: "i < length (dp_workers d) \<Longrightarrow> dp_workers d ! i = Some w \<Longrightarrow> set (wk_ran w) \<subseteq> dynamic_ran d"
  unfolding dynamic_ran_def by (metis UN_upper le_supI2 nth_mem vimageI2)

lemma cells_ran: "dynamic_ran (d\<lparr>dp_free := fs, dp_workers := (dp_workers d)[i := Some w]\<rparr>) \<subseteq> dynamic_ran d \<union> set (wk_ran w)"
  by (auto simp: dynamic_ran_def dest!: set_update_subset_insert [THEN subsetD])

lemma set_cell_ran: "wk_ran w' = wk_ran w \<Longrightarrow> cell d i = Some w \<Longrightarrow> dynamic_ran (set_cell i w' d) \<subseteq> dynamic_ran d"
  using cells_ran [where d = d and fs = "dp_free d" and i = i and w = w'] cell_ran [of i d w] by (auto simp: set_cell_def cell_def split: if_splits)

lemma dynamic_exec_ran: "dynamic_ran (snd (dynamic_exec i a d)) \<subseteq> dynamic_ran d"
proof (cases "cell d i")
  case (Some w)
  obtain res w' where t: "try_send a w = (res, w')" by fastforce
  have "dynamic_ran (set_cell i w' d) \<subseteq> dynamic_ran d"
    using set_cell_ran [OF _ Some] try_send_ran [of a w] t by simp
  with Some t show ?thesis by (cases res) (simp_all add: dynamic_exec_def)
qed (simp add: dynamic_exec_def)

lemma dynamic_scan_ran: "dynamic_ran (snd (dynamic_scan (\<lambda>_. []) k a is d)) \<subseteq> dynamic_ran d"
proof (induction "is" arbitrary: k a d)
  case (Cons i "is")
  obtain r d1 where d1: "dynamic_exec i a d = (r, d1)" by fastforce
  have "dynamic_ran d1 \<subseteq> dynamic_ran d" using dynamic_exec_ran [of i a d] d1 by simp
  then show ?case using d1 Cons.IH [of "Suc k" _ d1] by (cases r) (fastforce simp: dynamic_ticks_def)+
qed simp

lemma try_add_worker_ran:
  assumes "try_add_worker a d = Some (r, d')"
  shows "dynamic_ran d' \<subseteq> dynamic_ran d"
proof (cases "dp_free d")
  case Nil
  then show ?thesis using assms by (simp add: try_add_worker_def)
next
  case (Cons i rest)
  have free: "dynamic_ran (d\<lparr>dp_free := rest\<rparr>) = dynamic_ran d" by (simp add: dynamic_ran_def)
  have retired: "dynamic_ran (d1\<lparr>dp_retired := dp_retired d @ rs\<rparr>) \<subseteq> dynamic_ran d1 \<union> dynamic_ran d \<union> set rs"
    for d1 :: "'a dynamic_pool" and rs by (auto simp: dynamic_ran_def)
  have new: "dynamic_ran (set_cell i (started_with i a) (d\<lparr>dp_free := rest\<rparr>)) \<subseteq> dynamic_ran d"
    using cells_ran [where d = d and fs = rest and i = i and w = "started_with i a"] by (simp add: set_cell_def started_with_def)
  show ?thesis
  proof (cases "length (dp_workers d) \<le> i \<or> dp_workers d ! i = None")
    case True
    then show ?thesis using assms Cons new free by (auto simp: try_add_worker_def Let_def split: if_splits)
  next
    case False
    then obtain w where w: "i < length (dp_workers d)" "dp_workers d ! i = Some w" by auto
    note old = cell_ran [OF w]
    show ?thesis
      using assms Cons w old new free retired [where ?d1.0 = "set_cell i (started_with i a) (d\<lparr>dp_free := rest\<rparr>)" and rs = "wk_ran w"]
      by (cases "wk_thread w") (auto simp: try_add_worker_def Let_def)
  qed
qed

lemma dynamic_run_ran:
  assumes "dynamic_run (\<lambda>_. []) a d = Some (r, d')"
  shows "dynamic_ran d' \<subseteq> dynamic_ran d"
proof -
  obtain r1 d1 where d1: "try_add_worker a d = Some (r1, d1)"
    using assms by (auto simp: dynamic_run_def dynamic_ticks_def split: option.splits)
  note first = try_add_worker_ran [OF d1]
  show ?thesis
  proof (cases r1)
    case (Err b)
    then have "d' = snd (dynamic_scan (\<lambda>_. []) 1 b [0..<dp_max d1] d1)"
      using assms d1 by (auto simp: dynamic_run_def dynamic_ticks_def)
    with first dynamic_scan_ran [of 1 b "[0..<dp_max d1]" d1] show ?thesis by auto
  qed (use assms d1 first in \<open>auto simp: dynamic_run_def dynamic_ticks_def\<close>)
qed

lemma pool_run_ran:
  assumes "pool_run (\<lambda>_. []) (\<lambda>_. []) a p = Some (r, p')"
  shows "set_mset (pool_ran p') \<subseteq> set_mset (pool_ran p)"
  using assms static_run_ran dynamic_run_ran
  by (fastforce simp: set_pool_ran pool_run_def pool_run_with_def Let_def split: option.splits res.splits prod.splits)

end
