(* ===== verification/Server_System.thy ===== *)
theory Server_System
  imports Server Pool_Contents
begin

text \<open>
  The server as a whole: the accept loop, the conversations that go on in the threads of the pool,
  and the list of observed streams, interleaved in every order. The states that the system can
  reach are an inductive relation over the state of the loop; the invariant says where each accepted
  connection is at any time.
\<close>

section \<open>The moves of the system\<close>

text \<open>
  A closure has returned or unwound before its thread goes on to the next receive or dies, and with
  it have gone the handles that it had; so an action that has been run has no stream any more.
\<close>

definition finished_dropped :: "('e, nat thread_pool, 'c) serving \<Rightarrow> bool" where
  "finished_dropped s \<longleftrightarrow> (\<forall>a. a \<in># pool_ran (sg_pool s) \<longrightarrow> al_objects (sg_streams s) a = None)"

text \<open>
  What goes on beside the accept loop: the threads of the pool make their ticks; a conversation
  clones the handle of its stream, uses the stream and drops a handle; and the world outside does
  as it likes.
\<close>

inductive conversing :: "('e, nat thread_pool, 'c) serving \<Rightarrow> ('e, nat thread_pool, 'c) serving \<Rightarrow> bool" where
  world: "conversing s (s\<lparr>sg_env := e\<rparr>)"
| threads: "s' = s\<lparr>sg_pool := pool_ticks ds ss (sg_pool s)\<rparr> \<Longrightarrow> finished_dropped s' \<Longrightarrow> conversing s s'"
| cloned: "al_objects (sg_streams s) a \<noteq> None
    \<Longrightarrow> conversing s (s\<lparr>sg_streams := observed_clone a (sg_streams s)\<rparr>)"
| used: "al_objects (sg_streams s) a \<noteq> None
    \<Longrightarrow> conversing s (s\<lparr>sg_streams := observed_set a c (sg_streams s)\<rparr>)"
| dropped: "al_objects (sg_streams s) a \<noteq> None
    \<Longrightarrow> conversing s (s\<lparr>sg_streams := observed_drop a (sg_streams s)\<rparr>)"

text \<open>The states after \<open>n\<close> connections, for a pool of \<open>mn\<close> to \<open>mx\<close> threads.\<close>

inductive server_reach :: "entry_order \<Rightarrow> 'c connection_io \<Rightarrow> 'rb reader \<Rightarrow> timeouts \<Rightarrow> nat \<Rightarrow> nat \<Rightarrow> nat
    \<Rightarrow> ('e, nat thread_pool, 'c) serving \<Rightarrow> bool" for it io rbd t mn mx where
  start: "pool_new mn mx = Some p \<Longrightarrow> server_reach it io rbd t mn mx 0 \<lparr>sg_env = e, sg_pool = p, sg_streams = list_new\<rparr>"
| converse: "server_reach it io rbd t mn mx n s \<Longrightarrow> conversing s s' \<Longrightarrow> server_reach it io rbd t mn mx n s'"
| accept: "server_reach it io rbd t mn mx n s \<Longrightarrow> dispatch it io rbd t (pool_run denv senv) c s = Some (Ok (), s')
    \<Longrightarrow> finished_dropped s' \<Longrightarrow> server_reach it io rbd t mn mx (Suc n) s'"

section \<open>Every connection is in one place\<close>

definition in_use :: "'c streams \<Rightarrow> nat set" where
  "in_use l = {a. al_objects l a \<noteq> None}"

definition closed_once :: "nat \<Rightarrow> 'c streams \<Rightarrow> bool" where
  "closed_once n l \<longleftrightarrow> distinct (map fst (al_closed l)) \<and> fst ` set (al_closed l) = {..<n} - in_use l"

definition system_inv :: "nat \<Rightarrow> nat \<Rightarrow> ('e, nat thread_pool, 'c) serving \<Rightarrow> bool" where
  "system_inv bound n s \<longleftrightarrow> (\<exists>hs. serving_ok n hs s) \<and> pool_inv (sg_pool s) \<and> pool_bound (sg_pool s) = bound
     \<and> closed_once n (sg_streams s)
     \<and> (\<forall>a. count (pool_accepted (sg_pool s)) a \<le> (if a < n then 1 else 0))
     \<and> in_use (sg_streams s) \<subseteq> set_mset (pool_accepted (sg_pool s))"

lemma in_use_simps [simp]:
  "in_use list_new = {}" "in_use (observed_clone a l) = in_use l" "in_use (observed_set a c l) = in_use l"
  by (auto simp: in_use_def list_new_def observed_clone_def observed_set_def)

lemma closed_simps [simp]:
  "al_closed (observed_clone a l) = al_closed l" "al_closed (observed_set a c l) = al_closed l"
  by (simp_all add: observed_clone_def observed_set_def)

lemma dropped_closed:
  assumes "objects_inv n hs l" and "al_objects l a \<noteq> None" and "closed_once n l"
  shows "closed_once n (observed_drop a l) \<and> in_use (observed_drop a l) \<subseteq> in_use l"
proof -
  obtain c ob where ob: "al_objects l a = Some (c, ob)" using assms(2) by auto
  note inv = objects_invD [OF assms(1) ob]
  obtain k where k: "c = Suc k" using inv gr0_implies_Suc [of c] by blast
  show ?thesis
  proof (cases k)
    case 0
    with observed_drop_last [of l a ob] ob k
    have "al_objects (observed_drop a l) = (al_objects l)(a := None)"
      "al_closed (observed_drop a l) = al_closed l @ [(a, ob_observed ob)]" by simp_all
    moreover have "a \<in> in_use l" using ob by (simp add: in_use_def)
    ultimately show ?thesis
      using assms(3) inv by (auto simp: closed_once_def in_use_def image_iff)
  next
    case (Suc j)
    with observed_drop_many [of l a j ob] ob k
    have "al_objects (observed_drop a l) = (al_objects l)(a \<mapsto> (Suc j, ob))"
      "al_closed (observed_drop a l) = al_closed l" by simp_all
    then show ?thesis using assms(3) ob by (auto simp: closed_once_def in_use_def)
  qed
qed

lemma conversing_inv:
  assumes "conversing s s'" and "system_inv bound n s"
  shows "system_inv bound n s'"
proof -
  obtain hs where ok: "serving_ok n hs s" using assms(2) by (auto simp: system_inv_def)
  then have inv: "objects_inv n hs (sg_streams s)" "items_inv (sg_streams s)" "n < 2 ^ 64" by (simp_all add: serving_ok_def)
  from assms(1) show ?thesis
  proof cases
    case (threads ds ss)
    then show ?thesis
      using assms(2) pool_ticks_inv [of "sg_pool s" ds ss] pool_ticks_bound [of "sg_pool s" ds ss]
      by (auto simp: system_inv_def serving_ok_def)
  next
    case (cloned a)
    then show ?thesis
      using observed_clone_inv [OF inv(1,2), of a] assms(2) inv(3)
      by (auto simp: system_inv_def serving_ok_def closed_once_def)
  next
    case (used a c)
    then show ?thesis
      using observed_set_inv [OF inv(1,2), of a c] assms(2) inv(3)
      by (auto simp: system_inv_def serving_ok_def closed_once_def)
  next
    case (dropped a)
    have "a \<in># hs" using dropped(2) objects_inv_handle [OF inv(1)] by blast
    then have "\<exists>hs. serving_ok n hs s'"
      using dropped(1) observed_drop_inv [OF inv(1,2), of a] inv(3) by (auto simp: serving_ok_def)
    then show ?thesis
      using dropped dropped_closed [OF inv(1) dropped(2)] assms(2) by (auto simp: system_inv_def)
  qed (use assms(2) in \<open>auto simp: system_inv_def serving_ok_def\<close>)
qed

lemma accept_inv:
  assumes "dispatch it io rbd t (pool_run denv senv) c s = Some (Ok (), s')" and "system_inv bound n s" and "Suc n < 2 ^ 64"
  shows "system_inv bound (Suc n) s'"
proof -
  obtain hs where ok: "serving_ok n hs s" and pool: "pool_inv (sg_pool s)" "pool_bound (sg_pool s) = bound"
    and closed: "closed_once n (sg_streams s)"
    and once: "\<And>a. count (pool_accepted (sg_pool s)) a \<le> (if a < n then 1 else 0)"
    and sub: "in_use (sg_streams s) \<subseteq> set_mset (pool_accepted (sg_pool s))"
    using assms(2) by (auto simp: system_inv_def)
  have free: "n \<notin> in_use (sg_streams s)" and zero: "count (pool_accepted (sg_pool s)) n = 0"
    using ok objects_invD [of n hs "sg_streams s" n] once [of n] by (auto simp: serving_ok_def in_use_def)
  have mono: "count (pool_accepted (sg_pool s)) a \<le> (if a < Suc n then 1 else 0)" for a
    using once [of a] by (simp split: if_splits)
  show ?thesis
  proof (cases rule: dispatch_cases [OF thread_pool.action_runner_axioms [of denv senv] pool(1) ok assms(3,1)])
    case (1 ob)
    have "in_use (sg_streams s') = insert n (in_use (sg_streams s))" using 1(5) by (auto simp: in_use_def)
    moreover have "closed_once (Suc n) (sg_streams s')"
      using closed free 1(6) calculation by (auto simp: closed_once_def)
    moreover have "count (pool_accepted (sg_pool s')) a \<le> (if a < Suc n then 1 else 0)" for a
      using mono [of a] zero 1(1) by (auto split: if_splits)
    ultimately show ?thesis
      using 1(1,2,4) pool_run_bound [OF pool(1) 1(3)] pool(2) sub by (auto simp: system_inv_def)
  next
    case (2 c')
    have "in_use (sg_streams s') = in_use (sg_streams s)" using 2(5) by (simp add: in_use_def)
    moreover have "closed_once (Suc n) (sg_streams s')"
      using closed free 2(6) calculation by (auto simp: closed_once_def)
    ultimately show ?thesis
      using 2(1,2,4) pool_run_bound [OF pool(1) 2(3)] pool(2) sub mono by (auto simp: system_inv_def)
  qed
qed

lemma server_reach_inv:
  "server_reach it io rbd t mn mx n s \<Longrightarrow> n < 2 ^ 64 \<Longrightarrow> system_inv (max mn mx) n s"
proof (induction rule: server_reach.induct)
  case (start p e)
  then show ?case
    using list_new_inv pool_new_inv [OF start(1)] pool_new_bound [OF start(1)]
    by (auto simp: system_inv_def serving_ok_def closed_once_def) (simp add: list_new_def)+
next
  case (accept n s denv senv c s')
  then show ?case using accept_inv by fastforce
qed (use conversing_inv in blast)

lemma conversing_finished: "conversing s s' \<Longrightarrow> finished_dropped s \<Longrightarrow> finished_dropped s'"
  by (induction rule: conversing.induct)
    (auto simp: finished_dropped_def observed_clone_def observed_set_def observed_drop_def observable_drop_def
      list_dropped_def split: option.splits if_splits)

lemma server_reach_finished: "server_reach it io rbd t mn mx n s \<Longrightarrow> finished_dropped s"
  by (induction rule: server_reach.induct) (auto simp: conversing_finished, simp add: finished_dropped_def list_new_def)

text \<open>So a stream that is in use belongs to a thread that is running its conversation.\<close>

lemma in_use_running:
  assumes "server_reach it io rbd t mn mx n s" and "n < 2 ^ 64"
  shows "in_use (sg_streams s) \<subseteq> set_mset (pool_running (sg_pool s))"
proof
  fix a assume a: "a \<in> in_use (sg_streams s)"
  then have "a \<in># pool_ran (sg_pool s) + pool_running (sg_pool s)"
    using server_reach_inv [OF assms] by (auto simp: system_inv_def pool_accepted_split)
  moreover have "a \<notin># pool_ran (sg_pool s)"
    using a server_reach_finished [OF assms(1)] by (auto simp: finished_dropped_def in_use_def)
  ultimately show "a \<in># pool_running (sg_pool s)" by simp
qed

lemma list_len_in_use:
  assumes "serving_ok n hs s"
  shows "list_len (sg_streams s) = card (in_use (sg_streams s))"
proof -
  obtain pending l where d: "list_drain rev (sg_streams s) = (pending, l)" by fastforce
  from list_drain_live [OF _ _ iteration_order_rev d] assms show ?thesis
    unfolding serving_ok_def in_use_def by (metis distinct_card)
qed

section \<open>The accept loop makes only such moves\<close>

lemma fresh_simps [simp]:
  "al_fresh (observed_clone a l) = al_fresh l" "al_fresh (observed_set a c l) = al_fresh l"
  "al_fresh (observed_drop a l) = al_fresh l"
  by (auto simp: observed_clone_def observed_set_def observed_drop_def observable_drop_def list_dropped_def
      split: option.split)

lemma in_use_drop: "in_use (observed_drop a l) \<subseteq> in_use l"
  by (auto simp: in_use_def observed_drop_def observable_drop_def list_dropped_def split: option.splits if_splits)

text \<open>Whatever it returns, it has tracked one stream.\<close>

lemma dispatch_frame:
  fixes s :: "('e, 'p, 'c) serving"
  assumes "dispatch it io rbd t run c s = Some (r, s')"
  defines "n \<equiv> al_fresh (sg_streams s)"
  shows "al_fresh (sg_streams s') = Suc n \<and> in_use (sg_streams s') \<subseteq> insert n (in_use (sg_streams s))
    \<and> (\<exists>q. run n (sg_pool s) = Some (q, sg_pool s'))"
proof -
  obtain a l1 where track: "list_track c (sg_streams s) = (a, l1)" by fastforce
  then have l1: "a = n" "al_fresh l1 = Suc n" "in_use l1 = insert n (in_use (sg_streams s))"
    by (auto simp: list_track_def Let_def n_def in_use_def)
  define P where "P = (\<lambda>l :: 'c streams. al_fresh l = Suc n \<and> in_use l \<subseteq> in_use l1)"
  have drop: "P (observed_drop b l)" if "P l" for b l
    using that in_use_drop [of b l] by (auto simp: P_def)
  have used: "P l'" if "observed_io b m l = Some (q, l')" "P l" for b m l q l'
    using observed_io_set [OF that(1)] that(2) by (auto simp: P_def)
  have base: "P (observed_clone n l1)" using l1(2) by (simp add: P_def)
  obtain q p where run: "run n (sg_pool s) = Some (q, p)"
    using assms(1) track l1(1) by (cases "run n (sg_pool s)") (auto simp: dispatch_def Let_def)
  have "P (sg_streams s') \<and> sg_pool s' = p"
  proof (cases q)
    case (Err refused)
    obtain u l' where u: "observed_io n (handle_busy it io rbd t) (observed_drop refused (observed_clone n l1)) = Some (u, l')"
      "s' = s\<lparr>sg_pool := p, sg_streams := observed_drop n l'\<rparr>"
      using assms(1) track l1(1) run Err by (auto simp: dispatch_def Let_def split: option.splits)
    show ?thesis using u(2) drop [OF used [OF u(1) drop [OF base]]] by simp
  qed (use assms(1) track l1(1) run drop [OF base] drop [OF drop [OF base]] in \<open>auto simp: dispatch_def Let_def\<close>)
  then show ?thesis using l1(3) run by (auto simp: P_def)
qed

text \<open>
  The operations of the acceptor are moves of the world and of the conversations, and while the
  pool looks for a worker, its threads complete only actions whose closures have dropped their streams.
\<close>

definition converses :: "(('e, nat thread_pool, 'c) serving, 'a, io_error) prog \<Rightarrow> bool" where
  "converses m \<longleftrightarrow> (\<forall>s r s'. m s = Some (r, s') \<longrightarrow> conversing\<^sup>*\<^sup>* s s')"

definition acceptor_converses :: "(('e, nat thread_pool, 'c) serving, 'b, 'c) acceptor \<Rightarrow> bool" where
  "acceptor_converses ac \<longleftrightarrow> converses (ac_wait ac) \<and> converses (ac_accept ac) \<and> converses (ac_modify ac)
     \<and> (\<forall>b. converses (ac_build ac b))"

definition threads_settle :: "entry_order \<Rightarrow> 'c connection_io \<Rightarrow> 'rb reader \<Rightarrow> timeouts \<Rightarrow> nat \<Rightarrow> nat \<Rightarrow> env \<Rightarrow> env
    \<Rightarrow> 'e itself \<Rightarrow> bool" where
  "threads_settle it io rbd t mn mx denv senv _ \<longleftrightarrow>
     (\<forall>n (s :: ('e, nat thread_pool, 'c) serving) c s'. server_reach it io rbd t mn mx n s
        \<longrightarrow> dispatch it io rbd t (pool_run denv senv) c s = Some (Ok (), s') \<longrightarrow> finished_dropped s')"

lemma server_reach_fresh: "server_reach it io rbd t mn mx n s \<Longrightarrow> al_fresh (sg_streams s) = n"
proof (induction rule: server_reach.induct)
  case (converse n s s')
  from converse(2,3) show ?case by (induction rule: conversing.induct) simp_all
next
  case (accept n s denv senv c s')
  from dispatch_frame [OF accept(2)] accept(4) show ?case by simp
qed (simp add: list_new_def)

lemma server_reach_converse:
  assumes "conversing\<^sup>*\<^sup>* s s'" and "server_reach it io rbd t mn mx n s"
  shows "server_reach it io rbd t mn mx n s'"
  using assms by (induction rule: rtranclp_induct) (auto intro: server_reach.converse)

lemma converses_reach:
  "converses m \<Longrightarrow> m s = Some (r, s') \<Longrightarrow> server_reach it io rbd t mn mx n s \<Longrightarrow> server_reach it io rbd t mn mx n s'"
  unfolding converses_def by (blast intro: server_reach_converse)

lemma accept_event_reach:
  fixes s :: "('e, nat thread_pool, 'c) serving"
  assumes "acceptor_converses ac" and "threads_settle it io rbd t mn mx denv senv TYPE('e)"
    and "server_reach it io rbd t mn mx n s"
    and "accept_event it io rbd t (pool_run denv senv) ac evt s = Some (Ok (), s')"
  shows "\<exists>m. server_reach it io rbd t mn mx m s'"
proof (cases "ev_key evt = 1")
  case True
  obtain b s1 where s1: "ac_accept ac s = Some (Ok b, s1)"
    using assms(4) True by (auto simp: accept_event_def elim!: and_then_OkD)
  obtain s2 where s2: "ac_modify ac s1 = Some (Ok (), s2)" and rest: "(case ac_build ac b s2 of
      None \<Rightarrow> None
    | Some (r, s3) \<Rightarrow> (case r of
         Ok c \<Rightarrow> dispatch it io rbd t (pool_run denv senv) c s3
       | Err _ \<Rightarrow> Some (Ok (), s3)
       | Panic \<Rightarrow> Some (Panic, s3))) = Some (Ok (), s')"
    using assms(4) True s1 by (auto simp: accept_event_def and_then_def unwrap_def split: option.splits res.splits)
  then obtain r s3 where s3: "ac_build ac b s2 = Some (r, s3)" by (cases "ac_build ac b s2") auto
  have reach: "server_reach it io rbd t mn mx n s3"
    using assms(1,3) s1 s2 s3 converses_reach unfolding acceptor_converses_def by metis
  show ?thesis
  proof (cases r)
    case (Ok c)
    then have d: "dispatch it io rbd t (pool_run denv senv) c s3 = Some (Ok (), s')" using rest s3 by simp
    from server_reach.accept [OF reach d] assms(2) reach d show ?thesis unfolding threads_settle_def by blast
  qed (use rest s3 reach in auto)
qed (use assms(3,4) in \<open>auto simp: accept_event_def\<close>)

lemma accept_events_reach:
  fixes s :: "('e, nat thread_pool, 'c) serving"
  assumes "acceptor_converses ac" and "threads_settle it io rbd t mn mx denv senv TYPE('e)"
    and "server_reach it io rbd t mn mx n s"
    and "accept_events it io rbd t (pool_run denv senv) ac evts s = Some (Ok (), s')"
  shows "\<exists>m. server_reach it io rbd t mn mx m s'"
  using assms(3,4)
proof (induction evts arbitrary: n s)
  case (Cons evt evts)
  then obtain s1 where s1: "accept_event it io rbd t (pool_run denv senv) ac evt s = Some (Ok (), s1)"
    "accept_events it io rbd t (pool_run denv senv) ac evts s1 = Some (Ok (), s')"
    by (auto elim!: and_then_OkD)
  from accept_event_reach [OF assms(1,2) Cons.prems(1) s1(1)] Cons.IH s1(2) show ?case by blast
qed auto

lemma turn_reach:
  fixes s :: "('e, nat thread_pool, 'c) serving"
  assumes "acceptor_converses ac" and "threads_settle it io rbd t mn mx denv senv TYPE('e)"
    and "server_reach it io rbd t mn mx n s"
    and "and_then (ac_wait ac) (accept_events it io rbd t (pool_run denv senv) ac) s = Some (Ok (), s')"
  shows "\<exists>m. server_reach it io rbd t mn mx m s'"
proof -
  obtain evts s1 where s1: "ac_wait ac s = Some (Ok evts, s1)"
    "accept_events it io rbd t (pool_run denv senv) ac evts s1 = Some (Ok (), s')"
    using assms(4) by (auto elim!: and_then_OkD)
  have "server_reach it io rbd t mn mx n s1"
    using assms(1,3) s1(1) converses_reach unfolding acceptor_converses_def by blast
  from accept_events_reach [OF assms(1,2) this s1(2)] show ?thesis .
qed

lemma server_reach_accepted:
  "server_reach it io rbd t mn mx n s \<Longrightarrow> pool_inv (sg_pool s) \<and> (\<forall>a. a \<in># pool_accepted (sg_pool s) \<longrightarrow> a < n)"
proof (induction rule: server_reach.induct)
  case (converse n s s')
  from converse(2,3) show ?case
    by (induction rule: conversing.induct) (auto simp: pool_ticks_inv)
next
  case (accept n s denv senv c s')
  obtain q where "pool_run denv senv n (sg_pool s) = Some (q, sg_pool s')"
    using dispatch_frame [OF accept(2)] server_reach_fresh [OF accept(1)] by auto
  then show ?case
    by (cases rule: thread_pool.run_cases [OF conjunct1 [OF accept(4)], of denv senv n])
      (use accept(4) in \<open>auto simp: less_Suc_eq\<close>)
qed (simp add: pool_new_inv)

text \<open>Threads that make no tick while the pool looks for a worker settle.\<close>

lemma settled_without_ticks:
  fixes io :: "'c connection_io"
  shows "threads_settle it io rbd t mn mx (\<lambda>_. []) (\<lambda>_. []) TYPE('e)"
  unfolding threads_settle_def finished_dropped_def
proof (intro allI impI)
  fix n c a and s s' :: "('e, nat thread_pool, 'c) serving"
  assume reach: "server_reach it io rbd t mn mx n s"
    and d: "dispatch it io rbd t (pool_run (\<lambda>_. []) (\<lambda>_. [])) c s = Some (Ok (), s')" and a: "a \<in># pool_ran (sg_pool s')"
  obtain q where q: "pool_run (\<lambda>_. []) (\<lambda>_. []) n (sg_pool s) = Some (q, sg_pool s')"
    and sub: "in_use (sg_streams s') \<subseteq> insert n (in_use (sg_streams s))"
    using dispatch_frame [OF d] server_reach_fresh [OF reach] by auto
  have ran: "a \<in># pool_ran (sg_pool s)" using a pool_run_ran [OF q] by blast
  then have "a \<notin> in_use (sg_streams s)" "a \<noteq> n"
    using server_reach_finished [OF reach] server_reach_accepted [OF reach]
    by (auto simp: finished_dropped_def in_use_def pool_accepted_split)
  then have "a \<notin> in_use (sg_streams s')" using sub by auto
  then show "al_objects (sg_streams s') a = None" by (cases "al_objects (sg_streams s') a") (auto simp: in_use_def)
qed

section \<open>Properties\<close>




lemma mem_acceptor_converses: "acceptor_converses mem_acceptor"
  by (auto simp: acceptor_converses_def converses_def mem_acceptor_def split: list.splits
      intro: r_into_rtranclp conversing.world)


text \<open>
  C35. One failed \<^verbatim>\<open>accept\<close> (a peer that was gone again, too many open files, an event
  without a connection) ends the server, whatever it has served before: the loop returns the error,
  without being told to stop, with the rest of the events unhandled, and in an ordinary state of the
  system: the conversations go on, and no stream in use has been shut down.
\<close>

theorem accept_error_ends_server:
  fixes s :: "('e, nat thread_pool, 'c) serving"
  assumes "acceptor_converses ac" and "threads_settle it io rbd t mn mx denv senv TYPE('e)"
    and "server_reach it io rbd t mn mx n s"
    and "ac_wait ac s = Some (Ok (evts @ evt # rest), s1)"
    and "accept_events it io rbd t (pool_run denv senv) ac evts s1 = Some (Ok (), s2)"
    and "ev_key evt = 1" and "ac_accept ac s2 = Some (Err e, s3)" and "al_fresh (sg_streams s3) < 2 ^ 64"
  shows "accept_loop drain_order it io rbd t (pool_run denv senv) ac s = Some (Err e, s3)
    \<and> in_use (sg_streams s3) \<subseteq> set_mset (pool_running (sg_pool s3))
    \<and> in_use (sg_streams s3) \<union> fst ` set (al_closed (sg_streams s3)) = {..<al_fresh (sg_streams s3)}
    \<and> list_len (sg_streams s3) = card (in_use (sg_streams s3))"
proof -
  have "server_reach it io rbd t mn mx n s1"
    using assms(1,3,4) converses_reach unfolding acceptor_converses_def by blast
  then obtain m where "server_reach it io rbd t mn mx m s2"
    using accept_events_reach [OF assms(1,2) _ assms(5)] by blast
  then have reach: "server_reach it io rbd t mn mx m s3"
    using assms(1,7) converses_reach unfolding acceptor_converses_def by blast
  have m: "m = al_fresh (sg_streams s3)" "m < 2 ^ 64" using server_reach_fresh [OF reach] assms(8) by simp_all
  obtain hs where ok: "serving_ok m hs s3" and closed: "closed_once m (sg_streams s3)"
    using server_reach_inv [OF reach m(2)] by (auto simp: system_inv_def)
  have "in_use (sg_streams s3) \<subseteq> {..<m}"
    using ok objects_invD [of m hs "sg_streams s3"] by (auto simp: in_use_def serving_ok_def)
  then show ?thesis
    using accept_error_loop [OF assms(4-7)] in_use_running [OF reach m(2)] list_len_in_use [OF ok] closed m(1)
    by (auto simp: closed_once_def)
qed

text \<open>The second of two events finds no connection any more; the first was accepted and is in use.\<close>

theorem accept_error_ends_server_witness:
  "\<exists>p s3. pool_new 0 1 = Some p
     \<and> accept_loop rev rev (mem_io 3) cursor_read default_timeouts (pool_run (\<lambda>_. []) (\<lambda>_. []))
         (mem_acceptor\<lparr>ac_wait := ret [event_readable 1, event_readable 1]\<rparr>)
         \<lparr>sg_env = ([\<lparr>ms_in = ''GET'', ms_out = [], ms_done = False\<rparr>], False), sg_pool = p, sg_streams = list_new\<rparr>
       = Some (Err (io_error_from WouldBlock), s3)
     \<and> (\<exists>ob. al_objects (sg_streams s3) 0 = Some (1, ob)) \<and> list_len (sg_streams s3) = 1"
proof -
  let ?run = "pool_run (\<lambda>_. []) (\<lambda>_. []) :: nat \<Rightarrow> (nat thread_pool, unit, nat) prog"
  let ?sock = "\<lparr>ms_in = ''GET'', ms_out = [], ms_done = False\<rparr>"
  let ?c = "\<lparr>cs_stream = ?sock, cs_read_timeout = None, cs_write_timeout = None\<rparr>"
  let ?ac = "mem_acceptor\<lparr>ac_wait := ret [event_readable 1, event_readable 1]\<rparr>"
  obtain p :: "nat thread_pool" where p: "pool_new 0 1 = Some p" by (simp add: pool_new_def)
  obtain p1 where run: "?run 0 p = Some (Ok (), p1)"
    using p by (auto simp: pool_new_def pool_run_def pool_run_with_def dynamic_run_def dynamic_new_def
      dynamic_ticks_def try_add_worker_def set_cell_def Let_def)
  let ?s = "\<lambda>cs :: mem_socket list. \<lparr>sg_env = (cs, False), sg_pool = p, sg_streams = list_new :: mem_socket cancellable streams\<rparr>"
  have ok0: "serving_ok 0 {#} (?s [])" using list_new_inv by (simp add: serving_ok_def)
  obtain s1 ob where s1: "dispatch rev (mem_io 3) cursor_read default_timeouts ?run ?c (?s []) = Some (Ok (), s1)"
    "sg_env s1 = ([], False)" "serving_ok 1 {#0#} s1" "al_objects (sg_streams s1) = [0 \<mapsto> (1, ob)]" "al_closed (sg_streams s1) = []"
    by (rule dispatch_accepted [where run = ?run and c = ?c and it = rev and io = "mem_io 3" and rbd = cursor_read
          and t = default_timeouts and p = p1, OF ok0]) (use run in \<open>auto simp: list_new_def\<close>)
  have conv: "acceptor_converses ?ac" using mem_acceptor_converses by (simp add: acceptor_converses_def converses_def ret_def)
  have wait: "ac_wait ?ac (?s [?sock]) = Some (Ok ([event_readable 1] @ event_readable 1 # []), ?s [?sock])" by (simp add: ret_def)
  have first: "accept_events rev (mem_io 3) cursor_read default_timeouts ?run ?ac [event_readable 1] (?s [?sock]) = Some (Ok (), s1)"
    using s1(1) by (simp add: mem_acceptor_def and_then_def accept_event_def event_readable_def unwrap_def)
  have second: "ac_accept ?ac s1 = Some (Err (io_error_from WouldBlock), s1)" using s1(2) by (simp add: mem_acceptor_def)
  have key: "ev_key (event_readable 1) = 1" by (simp add: event_readable_def)
  have fresh: "al_fresh (sg_streams s1) < 2 ^ 64" using s1(3) by (simp add: serving_ok_def objects_inv_def)
  from accept_error_ends_server [OF conv settled_without_ticks server_reach.start [OF p] wait first key second fresh, of rev]
    s1(4) p show ?thesis by (auto simp: in_use_def)
qed

end
