(* ===== verification/Examples.thy ===== *)
theory Examples
  imports Programs Client_Server
begin

text \<open>
  The example program \<^verbatim>\<open>wruster/examples/hello_world.rs\<close>, the server that the documentation
  of \<^verbatim>\<open>Server\<close> builds (\<^verbatim>\<open>lib.rs\<close>), and what a handler that reads its whole body gets.
\<close>

section \<open>\<^verbatim>\<open>hello_world\<close>\<close>

definition hello_routes :: "'m externals \<Rightarrow> ('m, 'b, byte list) handler router option" where
  "hello_routes ext = router_add ''/'' GET (\<lambda>q. Some (Ok (response_from_str ext ''hello world''), q)) router_new"

definition hello_main :: "('e, 'h, (('m, 'b, byte list) handler router, 's \<Rightarrow> ('s cancellable, io_error) res option) accept_args) system
    \<Rightarrow> 's polled \<Rightarrow> 'm externals \<Rightarrow> ('e, nat, unit) prog" where
  "hello_main sy net ext e =
     (case hello_routes ext of
        None \<Rightarrow> Some (Panic, e)
      | Some rts \<Rightarrow> run_and_wait sy default_timeouts (server_run sy net ''127.0.0.1:8082'' rts) e)"

lemma hello_main_runs:
  "\<exists>rts. hello_routes ext = Some rts
     \<and> hello_main sy net ext e = run_and_wait sy default_timeouts (server_run sy net ''127.0.0.1:8082'' rts) e"
  by (simp add: hello_main_def hello_routes_def router_add_eq)

section \<open>Handlers that read the body\<close>

text \<open>
  \<^verbatim>\<open>Read::read_to_end\<close>: what was read up to the first empty read, with interrupted reads
  tried again, as for a copy into a vector; how large its reads are is the business of the standard library.
\<close>

definition read_to_end :: "'r reader \<Rightarrow> ('r, byte list, io_error) prog" where
  "read_to_end rd c =
     (case io_copy rd vec_write (c, []) of
        None \<Rightarrow> None
      | Some (r, (c', v)) \<Rightarrow> Some (case r of Ok _ \<Rightarrow> Ok v | Err e \<Rightarrow> Err e | Panic \<Rightarrow> Panic, c'))"

text \<open>
  \<^verbatim>\<open>Read::read_to_string\<close>: the bytes must be UTF-8, which are those that the lossy
  conversion leaves alone.
\<close>

definition read_to_string :: "'r reader \<Rightarrow> ('r, string, io_error) prog" where
  "read_to_string rd =
     and_then (read_to_end rd) (\<lambda>v.
       if from_utf8_lossy v = v then ret v
       else fail (IoError InvalidData ''stream did not contain valid UTF-8''))"

text \<open>The handler of the examples in the documentation of \<^verbatim>\<open>Server\<close>.\<close>

definition greeting_handler :: "'m externals \<Rightarrow> 'b reader \<Rightarrow> ('m, 'b, byte list) handler" where
  "greeting_handler ext rd q =
     (case rq_body q of
        None \<Rightarrow> Some (Panic, q)
      | Some body \<Rightarrow>
          (case read_to_string rd (body_content body) of
             None \<Rightarrow> None
           | Some (r, c) \<Rightarrow>
               Some (case r of Ok name \<Rightarrow> Ok (response_from_str ext (''hello '' @ name @ ''!!'')) | _ \<Rightarrow> Panic,
                     q\<lparr>rq_body := Some (body\<lparr>body_content := c\<rparr>)\<rparr>)))"

lemma copy_loop_used:
  assumes "copy_loop rd wr n (body_content b, w) = Some (r, (c, w'))" and "body_used rd b0 b"
  shows "body_used rd b0 (b\<lparr>body_content := c\<rparr>)"
proof -
  have "rd = rd0 \<longrightarrow> (\<forall>b. body_content b = fst st \<longrightarrow> body_used rd0 b0 b \<longrightarrow> body_used rd0 b0 (b\<lparr>body_content := fst (snd y)\<rparr>))"
    if "copy_loop rd wr n st = Some y" for rd wr n st y and rd0 :: "'a reader" and b0 :: "('m, 'a) body"
    using that
  proof (rule copy_loop.raw_induct [rotated, where P = "\<lambda>rd wr n st y. rd = rd0 \<longrightarrow>
      (\<forall>b. body_content b = fst st \<longrightarrow> body_used rd0 b0 b \<longrightarrow> body_used rd0 b0 (b\<lparr>body_content := fst (snd y)\<rparr>))"],
      intro impI allI)
    fix loop rd wr n st y and b :: "('m, 'a) body"
    assume IH: "\<And>rd wr n st y. loop rd wr n st = Some y \<Longrightarrow> rd = rd0 \<longrightarrow>
        (\<forall>b. body_content b = fst st \<longrightarrow> body_used rd0 b0 b \<longrightarrow> body_used rd0 b0 (b\<lparr>body_content := fst (snd y)\<rparr>))"
      and step: "(case rd buf_capacity (fst st) of
        None \<Rightarrow> None
      | Some (r, s') \<Rightarrow>
          (case r of
             Ok bs \<Rightarrow>
               if bs = [] then Some (Ok n, (s', snd st))
               else (case write_all wr bs (snd st) of
                       None \<Rightarrow> None
                     | Some (q, w') \<Rightarrow>
                         (case q of
                            Ok u \<Rightarrow> loop rd wr (n + length bs) (s', w')
                          | Err e \<Rightarrow> Some (Err e, (s', w'))
                          | Panic \<Rightarrow> Some (Panic, (s', w'))))
           | Err e \<Rightarrow>
               if io_kind e = Interrupted then loop rd wr n (s', snd st)
               else Some (Err e, (s', snd st))
           | Panic \<Rightarrow> Some (Panic, (s', snd st)))) = Some y"
      and rd: "rd = rd0" and b: "body_content b = fst st" "body_used rd0 b0 b"
    obtain r s' where r: "rd0 buf_capacity (fst st) = Some (r, s')" using step rd by (auto split: option.splits)
    let ?b = "b\<lparr>body_content := s'\<rparr>"
    have used: "body_used rd0 b0 ?b"
      by (rule body_used.read_content [OF b(2)]) (use r b(1) in \<open>auto simp: buf_capacity_def\<close>)
    have after_it: "body_used rd0 b0 (b\<lparr>body_content := fst (snd y)\<rparr>)" if "loop rd0 wr k (s', v) = Some y" for k v
      using IH [OF that] used by (auto dest: spec [of _ ?b])
    show "body_used rd0 b0 (b\<lparr>body_content := fst (snd y)\<rparr>)"
      using step r rd used after_it by (auto split: res.splits if_splits option.splits)
  qed
  from this [OF assms(1), of rd b0] assms(2) show ?thesis by simp
qed

context connection
begin

text \<open>Reading a delivered body to its end gets exactly the bytes of the body.\<close>

lemma delivered_read_to_end:
  assumes "delivered incoming (reader_ok up outgoing sent) rl hs body path q" and "rq_body q = Some bd"
  shows "\<exists>t. read_to_end (body_reader io) (body_content bd) = Some (Ok body, t)
    \<and> body_used (body_reader io) bd (bd\<lparr>body_content := t\<rparr>) \<and> body \<noteq> []
    \<and> reader_ok up outgoing sent (br_src (tk_inner t))"
proof -
  obtain rest where d: "body \<noteq> []" "tk_limit (body_content bd) = length body"
    "reader_ok up outgoing sent (br_src (tk_inner (body_content bd)))"
    "br_content (\<lambda>ts. incoming (ts_stream ts)) (tk_inner (body_content bd)) = body @ rest"
    using assms by (auto simp: delivered_def)
  note copy = copying.intro [OF byte_source.take_source [OF buffered] full_sink.axioms(1) [OF vec.full_sink_axioms]]
  from copying.io_copy_ok [OF copy [of sent rest], of "body_content bd" "[]"] d
  obtain t where t: "io_copy (body_reader io) vec_write (body_content bd, []) = Some (Ok (length body), (t, body))"
    "reader_ok up outgoing sent (br_src (tk_inner t))"
    by (auto simp: body_reader_def)
  from t(1) have "body_used (body_reader io) bd (bd\<lparr>body_content := t\<rparr>)"
    unfolding io_copy_def by (intro copy_loop_used [OF _ body_used.unused])
  with t d(1) show ?thesis by (simp add: read_to_end_def)
qed

lemma greeting_answers:
  assumes "delivered incoming (reader_ok up outgoing sent) rl hs body path q" and "body \<noteq> []"
    and "from_utf8_lossy body = body"
  shows "answers io (greeting_handler ext (body_reader io)) (response_from_str ext (''hello '' @ body @ ''!!'')) q"
proof -
  obtain bd where bd: "rq_body q = Some bd"
    using assms(1,2) by (auto simp: delivered_def split: option.splits)
  with delivered_read_to_end [OF assms(1) bd] assms(3) show ?thesis
    by (auto simp: answers_def greeting_handler_def read_to_string_def prog_simps)
qed

lemma greeting_unwinds:
  assumes "delivered incoming (reader_ok up outgoing sent) rl hs body path q"
    and "body = [] \<or> from_utf8_lossy body \<noteq> body"
  shows "\<exists>q1. greeting_handler ext (body_reader io) q = Some (Panic, q1)
    \<and> pred_option (\<lambda>bd. reader_ok up outgoing sent (br_src (tk_inner (body_content bd)))) (rq_body q1)"
proof (cases "rq_body q")
  case (Some bd)
  with delivered_read_to_end [OF assms(1)] assms(2) show ?thesis
    by (auto simp: greeting_handler_def read_to_string_def prog_simps)
qed (simp add: greeting_handler_def)

text \<open>A handler that panics unwinds the thread of the conversation, and nothing is answered.\<close>

lemma request_unwinds:
  fixes rts :: "('m, 'c request_reader take_reader, 'rb) handler router"
  assumes "up c" and "incoming c = request_text itq rl hs body @ rest"
    and "request_line_ok rl" and "headers_ok hs" and "iteration_order itq" and "request_framed ext hs body"
    and "0 < as_secs (read_request_timeout t)"
    and "normalize (rl_uri rl) = Ok path" and "router_get_prefix rts path (rl_method rl) = Some h"
    and "\<And>q. delivered incoming (reader_ok up outgoing (outgoing c)) rl hs body path q \<Longrightarrow> \<exists>q1. h q = Some (Panic, q1)
      \<and> pred_option (\<lambda>bd. reader_ok up outgoing (outgoing c) (br_src (tk_inner (body_content bd)))) (rq_body q1)"
  shows "\<exists>c'. handle_connection ext it io rbd rts t c = Some (Panic, c') \<and> up c' \<and> outgoing c' = outgoing c"
proof -
  let ?ts = "timeout_stream_from c (Some (read_request_timeout t)) (Some (write_response_timeout t))"
  note src = source [of "outgoing c"]
  have ok: "reader_ok up outgoing (outgoing c) (br_src (bufreader_new ?ts))"
    using reader_ok_new [where up = up and outgoing = outgoing, OF assms(1,7)] by simp
  have inp: "br_content (\<lambda>ts. incoming (ts_stream ts)) (bufreader_new ?ts) = request_text itq rl hs body @ rest"
    using assms(2) by (simp add: timeout_stream_from_def)
  obtain q :: "('m, 'c request_reader take_reader) request" and b where q:
    "request_read_buffered ext (timeout_read (ci_stream io)) (bufreader_new ?ts) = Some (Ok q, b)"
    "reader_ok up outgoing (outgoing c) (br_src b)" "br_content (\<lambda>ts. incoming (ts_stream ts)) b = body @ rest"
    "rq_method q = rl_method rl" "rq_uri q = rl_uri rl" "rq_version q = rl_version rl"
    "headers_get (rq_headers q) = headers_get hs"
    "case rq_body q of None \<Rightarrow> body = []
     | Some bd \<Rightarrow> body_content bd = \<lparr>tk_inner = b, tk_limit = length body\<rparr> \<and> body_limited bd"
    "rq_body q \<noteq> None \<Longrightarrow> body \<noteq> []"
    by (rule framed_request_read [OF src ok inp assms(3-6)]) blast
  have "headers_get (rq_headers q) ''Connection'' \<noteq> Some []"
    using headers_ok_not_empty [OF assms(4)] q(7) by simp
  note pers = is_connection_persistent_eq [OF this]
  have "delivered incoming (reader_ok up outgoing (outgoing c)) rl hs body path (q\<lparr>rq_uri := path\<rparr>)"
    unfolding delivered_def using q(2-9) by (auto split: option.splits)
  from assms(10) [OF this] obtain q1 where q1: "h (q\<lparr>rq_uri := path\<rparr>) = Some (Panic, q1)"
    "pred_option (\<lambda>bd. reader_ok up outgoing (outgoing c) (br_src (tk_inner (body_content bd)))) (rq_body q1)" by blast
  then have act: "run_action rts q = Some (Panic, q1)"
    using assms(8,9) q(4,5) by (simp add: run_action_def)
  have "handle_connection ext it io rbd rts t c = Some (Panic, conn_after b q1)"
    using q(1) [folded request_read_from_def] pers act by (simp add: handle_connection_def)
  moreover have "up (conn_after b q1) \<and> outgoing (conn_after b q1) = outgoing c"
    using q(2) q1(2) by (cases "rq_body q1") (simp_all add: reader_ok_def conn_of_def conn_after_def)
  ultimately show ?thesis by blast
qed

end

section \<open>Properties\<close>

lemma str_response_text:
  assumes "iteration_order it"
  shows "response_text it (\<lambda>s. s) (response_from_str ext s) = ''HTTP/1.1 200 OK'' @ crlf @ crlf @ s"
proof -
  have none: "it (header_map headers_new) = []"
    using iteration_order_set [OF assms, of "header_map headers_new"] by (simp add: headers_new_def)
  have "status_line_text OK = ''HTTP/1.1 200 OK'' @ crlf" by code_simp
  then show ?thesis
    using none by (simp add: response_text_def response_from_str_def ensure_length_header_def body_bytes_def
        body_new_def headers_text_def flatten_entries_def)
qed

text \<open>
  C40. The example \<^verbatim>\<open>hello_world\<close> answers every framed GET with 200 and its text, but says nothing
  of the length of the text: whatever reads the answer from a connection gets a response without a
  body, and the text as the start of the next message.
\<close>

theorem hello_world_body_lost:
  assumes "connection io incoming outgoing up tries"
    and "up c" and "incoming c = request_text itq rl hs body @ rest"
    and "request_line_ok rl" and "headers_ok hs" and "iteration_order itq" and "request_framed ext hs body"
    and "0 < as_secs (read_request_timeout t)" and "0 < as_secs (write_response_timeout t)"
    and "hello_routes ext = Some rts" and "rl_method rl = GET" and "normalize (rl_uri rl) = Ok path" and "iteration_order it"
    and "reply = ''HTTP/1.1 200 OK'' @ crlf @ crlf @ ''hello world''"
    and "byte_source rd content ok retries"
  shows "(\<exists>c'. handle_connection ext it io cursor_read rts t c = Some (Ok (persists (rl_version rl) hs), c')
        \<and> outgoing c' = outgoing c @ reply)
    \<and> (ok src \<and> content src = reply @ after_it \<longrightarrow>
        (\<exists>p b. response_read_from ext' rd src = Some (Ok p, b) \<and> rs_status p = OK \<and> rs_body p = None
           \<and> br_content content b = ''hello world'' @ after_it))"
proof -
  let ?h = "\<lambda>q. Some (Ok (response_from_str ext ''hello world''), q)"
  obtain st where st: "path = canonical st" using normalize_OkE [OF assms(12)] by metis
  have route: "router_get_prefix rts path (rl_method rl) = Some ?h"
    using root_route [OF assms(10) [unfolded hello_routes_def]] st assms(11) by simp
  have none: "it (header_map headers_new) = []"
    using iteration_order_set [OF assms(13), of "header_map headers_new"] by (simp add: headers_new_def)
  have line: "status_line_text OK = ''HTTP/1.1 200 OK'' @ crlf" by code_simp
  have wire: "response_text it (\<lambda>s. s) (response_from_str ext ''hello world'') = reply"
    by (simp add: str_response_text [OF assms(13)] assms(14))
  have ans: "answers io ?h (response_from_str ext ''hello world'') q" for q by (rule answers_at_once)
  from connection.request_served [where it = it, OF assms(1) cursor.eof_source_axioms assms(2-9,12) route ans]
  have "\<exists>c'. handle_connection ext it io cursor_read rts t c = Some (Ok (persists (rl_version rl) hs), c')
        \<and> outgoing c' = outgoing c @ reply" unfolding wire by auto
  moreover have "\<exists>p b. response_read_from ext' rd src = Some (Ok p, b) \<and> rs_status p = OK \<and> rs_body p = None
      \<and> br_content content b = ''hello world'' @ after_it" if "ok src" "content src = reply @ after_it"
  proof -
    have "content src = status_line_text OK @ headers_text (it (header_map headers_new)) @ ''hello world'' @ after_it"
      using that(2) none line by (simp add: assms(14) headers_text_def flatten_entries_def)
    from byte_source.response_read_ok [OF assms(15) that(1) this _ _ assms(13), of ext'] show ?thesis
      by (auto simp: three_digits_def no_length_read_none status_from_usize_def)
  qed
  ultimately show ?thesis by blast
qed

text \<open>
  C34. The server that the documentation of \<^verbatim>\<open>Server\<close> sets up as its example. A GET with a body in
  UTF-8 is greeted with it; any other framed GET, one without a body above all, unwinds the thread
  of its conversation before anything is written, so that the peer gets no answer (and the pool has a dead worker).
\<close>

theorem greeting_served_or_fatal:
  assumes "connection io incoming outgoing up tries"
    and "up c" and "incoming c = request_text itq rl hs body @ rest"
    and "request_line_ok rl" and "headers_ok hs" and "iteration_order itq" and "request_framed ext hs body"
    and "0 < as_secs (read_request_timeout t)" and "0 < as_secs (write_response_timeout t)"
    and "router_add ''/'' GET (greeting_handler ext (body_reader io)) router_new = Some rts"
    and "rl_method rl = GET" and "normalize (rl_uri rl) = Ok path" and "iteration_order it"
  shows "if body \<noteq> [] \<and> from_utf8_lossy body = body
    then \<exists>c'. handle_connection ext it io cursor_read rts t c = Some (Ok (persists (rl_version rl) hs), c') \<and> up c'
      \<and> outgoing c' = outgoing c @ ''HTTP/1.1 200 OK'' @ crlf @ crlf @ ''hello '' @ body @ ''!!''
    else \<exists>c'. handle_connection ext it io cursor_read rts t c = Some (Panic, c') \<and> up c' \<and> outgoing c' = outgoing c"
proof -
  obtain st where st: "path = canonical st" using normalize_OkE [OF assms(12)] by metis
  have route: "router_get_prefix rts path (rl_method rl) = Some (greeting_handler ext (body_reader io))"
    using root_route [OF assms(10)] st assms(11) by simp
  show ?thesis
  proof (cases "body \<noteq> [] \<and> from_utf8_lossy body = body")
    case True
    have ans: "answers io (greeting_handler ext (body_reader io)) (response_from_str ext (''hello '' @ body @ ''!!'')) q"
      if "delivered incoming (reader_ok up outgoing (outgoing c)) rl hs body path q" for q
      by (rule connection.greeting_answers [OF assms(1) that]) (use True in simp_all)
    from connection.request_served [where it = it, OF assms(1) cursor.eof_source_axioms assms(2-9,12) route ans] True show ?thesis
      unfolding str_response_text [OF assms(13)] by auto
  next
    case False
    then have "body = [] \<or> from_utf8_lossy body \<noteq> body" by blast
    note unw = connection.greeting_unwinds [where rl = rl and hs = hs and path = path and sent = "outgoing c", OF assms(1) _ this]
    from connection.request_unwinds [OF assms(1) assms(2-8,12) route unw] False show ?thesis by auto
  qed
qed

text \<open>The request of the witnesses.\<close>

lemma hello_framed:
  "request_framed text_externals
     \<lparr>header_map = [(''Content-Length'', [''5'']), (''Content-Type'', [''text/plain''])]\<rparr> ''hello''"
proof -
  have "show_nat 5 = ''5''" by code_simp
  then have "parse_usize ''5'' = Ok 5" using parse_uint_show [of 5 "2 ^ 64"] by (simp add: parse_usize_def)
  then show ?thesis
    by (simp add: request_framed_def headers_get_def hm_get_def body_mime_def text_externals_def)
qed

theorem hello_world_body_lost_witness:
  "\<exists>rts c' p b. hello_routes text_externals = Some rts
     \<and> handle_connection text_externals rev (mem_io 3) cursor_read rts default_timeouts
          \<lparr>cs_stream = \<lparr>ms_in = request_text rev \<lparr>rl_method = GET, rl_uri = ''/x/../a'', rl_version = ''HTTP/1.1''\<rparr>
              \<lparr>header_map = [(''Content-Length'', [''5'']), (''Content-Type'', [''text/plain''])]\<rparr> ''hello'',
              ms_out = [], ms_done = False\<rparr>, cs_read_timeout = None, cs_write_timeout = None\<rparr>
        = Some (Ok True, c')
     \<and> response_read_from text_externals cursor_read (ms_out (cs_stream c')) = Some (Ok p, b)
     \<and> rs_body p = None \<and> br_content (\<lambda>s. s) b = ''hello world''"
proof -
  let ?rl = "\<lparr>rl_method = GET, rl_uri = ''/x/../a'', rl_version = ''HTTP/1.1''\<rparr>"
  let ?hs = "\<lparr>header_map = [(''Content-Length'', [''5'']), (''Content-Type'', [''text/plain''])]\<rparr>"
  let ?c = "\<lparr>cs_stream = \<lparr>ms_in = request_text rev ?rl ?hs ''hello'', ms_out = [], ms_done = False\<rparr>,
    cs_read_timeout = None, cs_write_timeout = None\<rparr>"
  let ?reply = "''HTTP/1.1 200 OK'' @ crlf @ crlf @ ''hello world''"
  obtain rts :: "(string, mem_socket cancellable request_reader take_reader, byte list) handler router"
    where rts: "hello_routes text_externals = Some rts" by (simp add: hello_routes_def router_add_eq)
  have rl: "request_line_ok ?rl" and hs: "headers_ok ?hs" and path: "normalize (rl_uri ?rl) = Ok ''/a''" by code_simp+
  note fr = hello_framed
  have secs: "0 < as_secs (read_request_timeout default_timeouts)" "0 < as_secs (write_response_timeout default_timeouts)"
    by (simp_all add: default_timeouts_def as_secs_def from_secs_def)
  have lost: "(\<exists>c'. handle_connection text_externals rev (mem_io 3) cursor_read rts default_timeouts ?c
          = Some (Ok (persists (rl_version ?rl) ?hs), c') \<and> ms_out (cs_stream c') = ms_out (cs_stream ?c) @ ?reply)
      \<and> (True \<and> src = ?reply @ after_it \<longrightarrow>
        (\<exists>p b. response_read_from text_externals cursor_read src = Some (Ok p, b) \<and> rs_status p = OK \<and> rs_body p = None
           \<and> br_content (\<lambda>s. s) b = ''hello world'' @ after_it))" for src after_it
    by (rule hello_world_body_lost [OF mem_conn.connection_axioms, where body = "''hello''" and itq = rev and path = "''/a''"
          and rest = "[]"])
      (use rl hs fr secs rts path cursor.byte_source_axioms in simp_all)
  have "persists (rl_version ?rl) ?hs" by code_simp
  with lost [of ?reply "[]"] rts show ?thesis by auto
qed

theorem greeting_served_or_fatal_witness:
  "\<exists>rts c'. router_add ''/'' GET (greeting_handler text_externals (body_reader (mem_io 3))) router_new
        = Some (rts :: (string, mem_socket cancellable request_reader take_reader, byte list) handler router)
     \<and> handle_connection text_externals rev (mem_io 3) cursor_read rts default_timeouts
          \<lparr>cs_stream = \<lparr>ms_in = request_text rev \<lparr>rl_method = GET, rl_uri = ''/x/../a'', rl_version = ''HTTP/1.1''\<rparr>
              \<lparr>header_map = [(''Content-Length'', [''5'']), (''Content-Type'', [''text/plain''])]\<rparr> ''hello'',
              ms_out = [], ms_done = False\<rparr>, cs_read_timeout = None, cs_write_timeout = None\<rparr>
        = Some (Ok True, c')
     \<and> ms_out (cs_stream c') = ''HTTP/1.1 200 OK'' @ crlf @ crlf @ ''hello hello!!''"
proof -
  let ?rl = "\<lparr>rl_method = GET, rl_uri = ''/x/../a'', rl_version = ''HTTP/1.1''\<rparr>"
  let ?hs = "\<lparr>header_map = [(''Content-Length'', [''5'']), (''Content-Type'', [''text/plain''])]\<rparr>"
  let ?c = "\<lparr>cs_stream = \<lparr>ms_in = request_text rev ?rl ?hs ''hello'', ms_out = [], ms_done = False\<rparr>,
    cs_read_timeout = None, cs_write_timeout = None\<rparr>"
  let ?h = "greeting_handler text_externals (body_reader (mem_io 3))"
  obtain rts :: "(string, mem_socket cancellable request_reader take_reader, byte list) handler router"
    where rts: "router_add ''/'' GET ?h router_new = Some rts" by (simp add: router_add_eq)
  have rl: "request_line_ok ?rl" and hs: "headers_ok ?hs" and path: "normalize (rl_uri ?rl) = Ok ''/a''" by code_simp+
  note fr = hello_framed
  have secs: "0 < as_secs (read_request_timeout default_timeouts)" "0 < as_secs (write_response_timeout default_timeouts)"
    by (simp_all add: default_timeouts_def)
  have utf8: "''hello'' \<noteq> [] \<and> from_utf8_lossy ''hello'' = ''hello''" by code_simp
  have "if ''hello'' \<noteq> [] \<and> from_utf8_lossy ''hello'' = ''hello''
    then \<exists>c'. handle_connection text_externals rev (mem_io 3) cursor_read rts default_timeouts ?c
        = Some (Ok (persists (rl_version ?rl) ?hs), c') \<and> \<not> ms_done (cs_stream c')
      \<and> ms_out (cs_stream c') = ms_out (cs_stream ?c) @ ''HTTP/1.1 200 OK'' @ crlf @ crlf @ ''hello '' @ ''hello'' @ ''!!''
    else \<exists>c'. handle_connection text_externals rev (mem_io 3) cursor_read rts default_timeouts ?c = Some (Panic, c')
      \<and> \<not> ms_done (cs_stream c') \<and> ms_out (cs_stream c') = ms_out (cs_stream ?c)"
    by (rule greeting_served_or_fatal [OF mem_conn.connection_axioms, where path = "''/a''"
          and body = "''hello''" and itq = rev and rest = "[]"])
      (use rl hs fr secs path rts in simp_all)
  moreover have "persists (rl_version ?rl) ?hs" by code_simp
  ultimately show ?thesis using rts utf8 by auto
qed

end

