(* ===== verification/Repository_Tests.thy ===== *)
theory Repository_Tests
  imports Thread_Pool Examples
begin

text \<open>
  The unit tests of the repository, replayed on the model: those beside the versions, the paths, the trie,
  the router, the pools of threads and the pool of connections, and those of the client
  (\<^verbatim>\<open>http/client/tests.rs\<close>), with the handlers they use. A test is a Boolean, whether every
  assertion and every \<^verbatim>\<open>unwrap\<close> of it succeeds; where threads are involved it is one for each
  schedule. The tests of the pools of threads pass under some schedules only.
\<close>

section \<open>Versions and paths\<close>

definition test_parse_error_stores_string :: bool where
  "test_parse_error_stores_string \<longleftrightarrow>
     version_from_str ''HTTP/1.0'' = Ok HTTP1_0 \<and> version_from_str ''HTTP/2'' = Ok HTTP2
     \<and> version_from_str ''HTTP/1.1'' = Ok HTTP1_1
     \<and> (case version_from_str ''error'' of Err _ \<Rightarrow> True | _ \<Rightarrow> False)"

definition test_normalizes_path :: bool where
  "test_normalizes_path \<longleftrightarrow>
     normalize ''a/..'' = Err ''invalid path''
     \<and> normalize ''/../a/..'' = Err ''invalid path''
     \<and> normalize ''/a/../b//.././'' = Ok ''/''
     \<and> normalize ''/a/../b/c/.././'' = Ok ''/b''
     \<and> normalize ''/a/'' = Ok ''/a''"

lemma version_and_path_tests_pass: "test_parse_error_stores_string" "test_normalizes_path"
  by code_simp+

section \<open>The trie\<close>

definition test_trie_adds_node :: bool where
  "test_trie_adds_node \<longleftrightarrow>
     (let index = ''/a/b/c''; root = node_add index ''a'' node_new in node_get root ''/a/b/c'' = Some ''a'')"

definition test_trie_add_key_and_values :: bool where
  "test_trie_add_key_and_values \<longleftrightarrow>
     (let key = ''/a/b/c'' in
      case trie_add key (\<lambda>param. param) trie_new of
        None \<Rightarrow> False
      | Some root \<Rightarrow> (case trie_get root key of
            None \<Rightarrow> False | Some action \<Rightarrow> action ''value passed'' = ''value passed''))"

definition test_trie_find_prefix :: bool where
  "test_trie_find_prefix \<longleftrightarrow>
     (case trie_add ''/a/b/c/d'' ''action for route /a/b/c/d'' trie_new of
        None \<Rightarrow> False
      | Some root1 \<Rightarrow>
          (case trie_add ''/a/b'' ''action for route /a/b'' root1 of
             None \<Rightarrow> False
           | Some root \<Rightarrow>
               trie_get_prefix root ''/d'' = None
               \<and> trie_get_prefix root ''/a/b/c'' = Some ''action for route /a/b''
               \<and> trie_get_prefix root ''/a/b/c/d'' = Some ''action for route /a/b/c/d''
               \<and> trie_get_prefix root ''/a/b/c/d/e'' = Some ''action for route /a/b/c/d''
               \<and> trie_get_prefix root ''/'' = None))"

definition test_trie_find_prefix_root :: bool where
  "test_trie_find_prefix_root \<longleftrightarrow>
     (case trie_add ''/'' ''action for route /'' trie_new of
        None \<Rightarrow> False
      | Some root \<Rightarrow> trie_get_prefix root ''/example'' = Some ''action for route /'')"

lemma trie_tests_pass:
  "test_trie_adds_node" "test_trie_add_key_and_values" "test_trie_find_prefix" "test_trie_find_prefix_root"
  by code_simp+

section \<open>The router\<close>

text \<open>The handlers of the tests are called with requests whose bodies are cursors.\<close>

definition echo_handler :: "'m externals \<Rightarrow> ('m, byte list, byte list) handler" where
  "echo_handler ext req =
     (case rq_body req of
        None \<Rightarrow> Some (Panic, req)
      | Some body \<Rightarrow>
          (case read_to_string cursor_read (body_content body) of
             None \<Rightarrow> None
           | Some (r, c) \<Rightarrow>
               Some (case r of Ok content \<Rightarrow> Ok (response_from_str ext content) | _ \<Rightarrow> Panic,
                     req\<lparr>rq_body := Some (body\<lparr>body_content := c\<rparr>)\<rparr>)))"

text \<open>What the tests compare: the body of a response, written to a vector.\<close>

definition body_written :: "('m, byte list) response \<Rightarrow> byte list option" where
  "body_written resp =
     (case rs_body resp of
        None \<Rightarrow> None
      | Some b \<Rightarrow> (case body_write cursor_read vec_write (b, []) of Some (Ok _, (_, content)) \<Rightarrow> Some content | _ \<Rightarrow> None))"

definition answer_of :: "('m, byte list, byte list) handler option \<Rightarrow> ('m, byte list) request \<Rightarrow> byte list option" where
  "answer_of action request =
     (case action of
        None \<Rightarrow> None
      | Some h \<Rightarrow> (case h request of Some (Ok resp, _) \<Rightarrow> body_written resp | _ \<Rightarrow> None))"

definition test_routes_add_and_get :: "'m externals \<Rightarrow> bool" where
  "test_routes_add_and_get ext \<longleftrightarrow>
     (case router_add ''/a/b'' GET (echo_handler ext) router_new of
        None \<Rightarrow> False
      | Some rts \<Rightarrow>
          (let content = ''content'';
               body = body_new (Some (mime_text_plain ext)) (of_nat (length content)) content;
               request = \<lparr>rq_method = POST, rq_uri = ''/'', rq_version = ''HTTP/1.1'', rq_headers = headers_new,
                          rq_body = Some body\<rparr>
           in answer_of (router_get rts ''/a/b'' GET) request = Some ''content''))"

definition test_routes_most_concrete :: "'m externals \<Rightarrow> bool" where
  "test_routes_most_concrete ext \<longleftrightarrow>
     (case router_add ''/a/b'' GET (\<lambda>req. Some (Ok (response_from_str ext ''/a/b''), req)) router_new of
        None \<Rightarrow> False
      | Some rts1 \<Rightarrow>
          (case router_add ''/a'' GET (\<lambda>req. Some (Ok (response_from_str ext ''/a''), req)) rts1 of
             None \<Rightarrow> False
           | Some rts \<Rightarrow>
               (let request = (\<lambda>uri. \<lparr>rq_method = GET, rq_uri = uri, rq_version = ''HTTP/1.1'', rq_headers = headers_new,
                                      rq_body = None\<rparr>)
                in answer_of (router_get rts ''/a/b'' GET) (request ''/a/b'') = Some ''/a/b''
                   \<and> answer_of (router_get rts ''/a'' GET) (request ''/a'') = Some ''/a'')))"

definition test_routes_disctinct_method_same_path :: bool where
  "test_routes_disctinct_method_same_path \<longleftrightarrow>
     (let action = (\<lambda>req :: (unit, unit) request. Some (Panic :: ((unit, unit) response, unit) res, req)) in
      case router_add ''/a/b'' GET action router_new of
        None \<Rightarrow> False
      | Some rts1 \<Rightarrow>
          (case router_add ''/a/b'' POST action rts1 of
             None \<Rightarrow> False
           | Some rts \<Rightarrow>
               router_get_prefix rts ''/a/b'' GET \<noteq> None \<and> router_get_prefix rts ''/a/b/c'' POST \<noteq> None))"

lemma body_written_str: "body_written (response_from_str ext s) = Some s"
proof -
  obtain c where "body_write cursor_read vec_write (body_new (Some (mime_text_plain ext)) (of_nat (length s)) s, [])
      = Some (Ok (), (c, s))"
    using cursor_to_vec.body_write_ok [of "body_new (Some (mime_text_plain ext)) (of_nat (length s)) s" "[]"]
    by (auto simp: body_new_def)
  then show ?thesis by (simp add: body_written_def response_from_str_def)
qed

lemma cursor_read_to_end: "\<exists>c. read_to_end cursor_read s = Some (Ok s, c)"
  using cursor_to_vec.io_copy_ok [of s "[]"] by (auto simp: read_to_end_def)

lemma router_tests_pass:
  fixes ext :: "'m externals"
  shows "test_routes_add_and_get ext" "test_routes_most_concrete ext" "test_routes_disctinct_method_same_path"
proof -
  obtain c where c: "read_to_end cursor_read ''content'' = Some (Ok ''content'', c)" using cursor_read_to_end by blast
  have "from_utf8_lossy ''content'' = ''content''" by code_simp
  with c have "read_to_string cursor_read ''content'' = Some (Ok ''content'', c)"
    by (simp add: read_to_string_def prog_simps)
  moreover obtain r where r: "router_add ''/a/b'' GET (echo_handler ext) router_new = Some r"
    by (simp add: router_add_eq)
  ultimately show "test_routes_add_and_get ext"
    using router_get_add [OF router_new_inv r, of "''/a/b''" GET]
    by (simp add: test_routes_add_and_get_def answer_of_def echo_handler_def Let_def body_written_str body_new_def)
next
  let ?h = "\<lambda>s req. Some (Ok (response_from_str ext s), req) :: ((('m, byte list) response, unit) res \<times> ('m, byte list) request) option"
  obtain r1 where r1: "router_add ''/a/b'' GET (?h ''/a/b'') router_new = Some r1" by (simp add: router_add_eq)
  obtain r where r: "router_add ''/a'' GET (?h ''/a'') r1 = Some r" by (simp add: router_add_eq)
  show "test_routes_most_concrete ext"
    using r1 r router_get_add [OF router_new_inv r1] router_get_add [OF router_add_inv [OF router_new_inv r1] r]
    by (simp add: test_routes_most_concrete_def answer_of_def body_written_str)
next
  show "test_routes_disctinct_method_same_path" by code_simp
qed

section \<open>The pools\<close>

text \<open>
  A test of a pool is run under a schedule: the moves of the threads before each attempt of its runs. Its actions are
  numbered; an action that waits for its test neither ends nor panics until then.
\<close>

definition paused :: "env \<Rightarrow> env" where
  "paused e k = filter (\<lambda>m. snd m \<noteq> Complete \<and> snd m \<noteq> Unwind) (e k)"

definition ran :: "'a \<Rightarrow> (unit, unit) res \<times> 'a worker list \<Rightarrow> bool" where
  "ran a dropped \<longleftrightarrow> fst dropped = Ok () \<and> (\<exists>w \<in> set (snd dropped). a \<in> set (wk_ran w))"

definition test_static_returns_busy_error :: "env \<Rightarrow> env \<Rightarrow> bool" where
  "test_static_returns_busy_error e1 e2 \<longleftrightarrow>
     (case static_run e1 (1 :: nat) (static_new 1) of
        Some (Ok _, p) \<Rightarrow> (case static_run (paused e2) 2 p of Some (Err _, _) \<Rightarrow> True | _ \<Rightarrow> False)
      | _ \<Rightarrow> False)"

definition test_static_runs_an_action :: "env \<Rightarrow> bool" where
  "test_static_runs_an_action e \<longleftrightarrow>
     (case static_run e (1 :: nat) (static_new 1) of
        Some (Ok _, p) \<Rightarrow> ran 1 (drop_workers (\<lambda>_. False) (sp_workers p))
      | _ \<Rightarrow> False)"

definition test_static_runs_multiple_actions :: "env \<Rightarrow> env \<Rightarrow> bool" where
  "test_static_runs_multiple_actions e1 e2 \<longleftrightarrow>
     (case static_run e1 (1 :: nat) (static_new 2) of
        Some (Ok _, p1) \<Rightarrow>
          (case static_run e2 2 p1 of
             Some (Ok _, p) \<Rightarrow> (let dropped = drop_workers (\<lambda>_. False) (sp_workers p) in ran 1 dropped \<and> ran 2 dropped)
           | _ \<Rightarrow> False)
      | _ \<Rightarrow> False)"

definition test_dynamic_returns_busy_error :: "env \<Rightarrow> env \<Rightarrow> bool" where
  "test_dynamic_returns_busy_error e1 e2 \<longleftrightarrow>
     (case dynamic_run e1 (1 :: nat) (dynamic_new 1 10) of
        Some (Ok _, p) \<Rightarrow> (case dynamic_run (paused e2) 2 p of Some (Err _, _) \<Rightarrow> True | _ \<Rightarrow> False)
      | _ \<Rightarrow> False)"

definition test_dynamic_runs_an_action :: "env \<Rightarrow> bool" where
  "test_dynamic_runs_an_action e \<longleftrightarrow>
     (case dynamic_run e (1 :: nat) (dynamic_new 2 10) of
        Some (Ok _, p) \<Rightarrow> ran 1 (dynamic_drop (\<lambda>_. False) p)
      | _ \<Rightarrow> False)"

definition test_dynamic_runs_multiple_actions :: "env \<Rightarrow> env \<Rightarrow> bool" where
  "test_dynamic_runs_multiple_actions e1 e2 \<longleftrightarrow>
     (case dynamic_run e1 (1 :: nat) (dynamic_new 2 10) of
        Some (Ok _, p1) \<Rightarrow>
          (case dynamic_run e2 2 p1 of
             Some (Ok _, p) \<Rightarrow> (let dropped = dynamic_drop (\<lambda>_. False) p in ran 1 dropped \<and> ran 2 dropped)
           | _ \<Rightarrow> False)
      | _ \<Rightarrow> False)"

text \<open>The second action is run after the time that is left to the worker (\<open>idle\<close>).\<close>

definition test_dynamic_one_worker :: "env \<Rightarrow> (nat \<times> tick) list \<Rightarrow> env \<Rightarrow> bool" where
  "test_dynamic_one_worker e1 idle e2 \<longleftrightarrow>
     (case dynamic_run e1 (1 :: nat) (dynamic_new 1 10) of
        Some (Ok _, p1) \<Rightarrow>
          (case dynamic_run e2 2 (dynamic_ticks idle p1) of
             Some (Ok _, p) \<Rightarrow> ran 2 (dynamic_drop (\<lambda>_. False) p)
           | _ \<Rightarrow> False)
      | _ \<Rightarrow> False)"

definition test_dynamic_workers_are_dropped :: "env \<Rightarrow> (nat \<times> tick) list \<Rightarrow> bool" where
  "test_dynamic_workers_are_dropped e idle \<longleftrightarrow>
     (case dynamic_run e (1 :: nat) (dynamic_new 1 0) of
        Some (Ok _, p) \<Rightarrow> number_of_workers (dynamic_ticks idle p) = 0
      | _ \<Rightarrow> False)"

definition test_pool_accepts_max_less_than_min :: bool where
  "test_pool_accepts_max_less_than_min \<longleftrightarrow>
     (case pool_new 1 0 :: nat thread_pool option of
        None \<Rightarrow> False | Some p \<Rightarrow> dynamic_part p = None \<and> static_part p \<noteq> None)"

definition test_pool_accepts_min_zero :: bool where
  "test_pool_accepts_min_zero \<longleftrightarrow>
     (case pool_new 0 1 :: nat thread_pool option of
        None \<Rightarrow> False | Some p \<Rightarrow> dynamic_part p \<noteq> None \<and> static_part p = None)"

definition test_pool_runs_an_action :: "env \<Rightarrow> env \<Rightarrow> bool" where
  "test_pool_runs_an_action d s \<longleftrightarrow>
     (case pool_new 1 1 of
        None \<Rightarrow> False
      | Some p \<Rightarrow>
          (case pool_run d s (1 :: nat) p of
             Some (Ok _, p1) \<Rightarrow> ran 1 (pool_drop (\<lambda>_. False) p1)
           | _ \<Rightarrow> False))"

definition test_pool_returns_busy_error :: "env \<Rightarrow> env \<Rightarrow> env \<Rightarrow> env \<Rightarrow> env \<Rightarrow> env \<Rightarrow> bool" where
  "test_pool_returns_busy_error d1 s1 d2 s2 d3 s3 \<longleftrightarrow>
     (case pool_new 1 2 of
        None \<Rightarrow> False
      | Some p \<Rightarrow>
          (case pool_run d1 s1 (1 :: nat) p of
             Some (Ok _, p1) \<Rightarrow>
               (case pool_run (paused d2) (paused s2) 2 p1 of
                  Some (Ok _, p2) \<Rightarrow> (case pool_run (paused d3) (paused s3) 3 p2 of Some (Err _, _) \<Rightarrow> True | _ \<Rightarrow> False)
                | _ \<Rightarrow> False)
           | _ \<Rightarrow> False))"

definition test_pool_runs_multiple_actions :: "env \<Rightarrow> env \<Rightarrow> env \<Rightarrow> env \<Rightarrow> bool" where
  "test_pool_runs_multiple_actions d1 s1 d2 s2 \<longleftrightarrow>
     (case pool_new 1 2 of
        None \<Rightarrow> False
      | Some p \<Rightarrow>
          (case pool_run d1 s1 (1 :: nat) p of
             Some (Ok _, p1) \<Rightarrow>
               (case pool_run d2 s2 2 p1 of
                  Some (Ok _, p2) \<Rightarrow> (let dropped = pool_drop (\<lambda>_. False) p2 in ran 1 dropped \<and> ran 2 dropped)
                | _ \<Rightarrow> False)
           | _ \<Rightarrow> False))"

section \<open>Under which schedules they pass\<close>

lemma single_worker_ticks:
  assumes "wk_thread w = Looping"
  shows "fold (tick_worker static_tick) es [w] = [if (0, Receive) \<in> set es then w\<lparr>wk_thread := Waiting\<rparr> else w]"
proof -
  have waiting: "fold (tick_worker static_tick) es [w\<lparr>wk_thread := Waiting\<rparr>] = [w\<lparr>wk_thread := Waiting\<rparr>]" for es
  proof (induction es)
    case (Cons e es)
    have "tick_worker static_tick e [w\<lparr>wk_thread := Waiting\<rparr>] = [w\<lparr>wk_thread := Waiting\<rparr>]"
      by (cases "snd e") (simp_all add: tick_worker_def)
    with Cons show ?case by simp
  qed simp
  show ?thesis
  proof (induction es)
    case (Cons e es)
    have "tick_worker static_tick e [w] = [if e = (0, Receive) then w\<lparr>wk_thread := Waiting\<rparr> else w]"
      using assms by (cases e; cases "snd e") (auto simp: tick_worker_def)
    with Cons waiting show ?case by (cases "e = (0, Receive)") auto
  qed simp
qed

lemma paused_worker_ticks:
  assumes "wk_thread w = Running a"
  shows "fold (tick_worker static_tick) (paused e k) [w] = [w]"
proof -
  have "fold (tick_worker static_tick) (filter (\<lambda>m. snd m \<noteq> Complete \<and> snd m \<noteq> Unwind) es) [w] = [w]" for es
  proof (induction es)
    case (Cons e es)
    have "snd e \<noteq> Complete \<Longrightarrow> snd e \<noteq> Unwind \<Longrightarrow> tick_worker static_tick e [w] = [w]"
      using assms by (cases "snd e") (simp_all add: tick_worker_def)
    with Cons show ?case by simp
  qed simp
  then show ?thesis by (simp add: paused_def)
qed

lemma first_static_run:
  "static_run e a (static_new 1) =
     (if (0, Receive) \<in> set (e 0) \<union> set (e 1)
      then Some (Ok (), \<lparr>sp_size = 1, sp_next = 0, sp_workers = [(started 0)\<lparr>wk_thread := Running a\<rparr>]\<rparr>)
      else Some (Err a, static_new 1))"
proof -
  have loop: "wk_thread (started 0 :: 'a worker) = Looping" by (simp add: started_def)
  let ?new = "\<lparr>sp_size = 1, sp_next = 0, sp_workers = [started 0]\<rparr> :: 'a static_pool"
  let ?took = "\<lparr>sp_size = 1, sp_next = 0, sp_workers = [(started 0)\<lparr>wk_thread := Running a\<rparr>]\<rparr>"
  have new: "static_new 1 = ?new" by (simp add: static_new_def)
  have exec: "static_exec 0 a (static_ticks es ?new) = (if (0, Receive) \<in> set es then Some (Ok (), ?took)
      else Some (Err a, ?new))" for es
    using single_worker_ticks [OF loop, of es]
    by (simp add: static_ticks_def static_exec_def worker_exec_def try_send_def loop)
  have scan: "static_scan e 1 a 0 ?new = (if (0, Receive) \<in> set (e 1) then Some (Ok 0, ?took) else Some (Err a, ?new))"
    by (subst static_scan.simps, subst exec) simp
  show ?thesis
  proof (cases "(0, Receive) \<in> set (e 0)")
    case True
    then show ?thesis unfolding new by (simp add: static_run_def exec del: One_nat_def)
  next
    case False
    then show ?thesis unfolding new using scan by (simp add: static_run_def exec del: One_nat_def)
  qed
qed

lemma busy_static_run:
  fixes a b :: 'a
  defines "took \<equiv> \<lparr>sp_size = 1, sp_next = 0, sp_workers = [(started 0)\<lparr>wk_thread := Running a\<rparr>]\<rparr>"
  shows "static_run (paused e) b took = Some (Err b, took)"
proof -
  have exec: "static_exec 0 b (static_ticks (paused e k) took) = Some (Err b, took)" for k
    by (simp add: took_def static_ticks_def paused_worker_ticks static_exec_def worker_exec_def try_send_def)
  have nxt: "sp_next took = 0" "sp_size took = 1" by (simp_all add: took_def)
  have "static_scan (paused e) 1 b 0 took = Some (Err b, took)"
    by (subst static_scan.simps, subst exec) (simp add: nxt)
  then show ?thesis by (simp add: static_run_def nxt exec)
qed

text \<open>
  The thread of a worker announces itself before it waits for an action, and a run does not
  wait for it: the tests of the static pool pass exactly when the thread got there first.
\<close>

lemma static_tests_depend_on_schedule:
  "test_static_runs_an_action e1 \<longleftrightarrow> (0, Receive) \<in> set (e1 0) \<union> set (e1 1)"
  "test_static_returns_busy_error e1 e2 \<longleftrightarrow> (0, Receive) \<in> set (e1 0) \<union> set (e1 1)"
proof -
  show "test_static_runs_an_action e1 \<longleftrightarrow> (0, Receive) \<in> set (e1 0) \<union> set (e1 1)"
    unfolding test_static_runs_an_action_def first_static_run
    by (simp add: ran_def worker_drop_def started_def)
  show "test_static_returns_busy_error e1 e2 \<longleftrightarrow> (0, Receive) \<in> set (e1 0) \<union> set (e1 1)"
    unfolding test_static_returns_busy_error_def first_static_run using busy_static_run [of e2 "2 :: nat" 1] by simp
qed

lemma static_multiple_depends_on_schedule:
  "test_static_runs_multiple_actions (\<lambda>_. [(0, Receive), (1, Receive)]) (\<lambda>_. [])"
  "\<not> test_static_runs_multiple_actions (\<lambda>_. []) e2"
proof -
  show "test_static_runs_multiple_actions (\<lambda>_. [(0, Receive), (1, Receive)]) (\<lambda>_. [])"
    by (simp add: test_static_runs_multiple_actions_def static_new_def static_run_def static_exec_def static_ticks_def
        tick_worker_def worker_exec_def try_send_def started_def ran_def worker_drop_def Let_def upt_conv_Cons)
  have exec: "i < 2 \<Longrightarrow> static_exec i a (static_ticks [] (static_new 2)) = Some (Err a, static_new 2)" for i and a :: nat
    by (auto simp: static_new_def static_exec_def static_ticks_def worker_exec_def try_send_def started_def upt_conv_Cons
        less_2_cases_iff)
  have nxt: "sp_next (static_new 2) = 0" "sp_size (static_new 2) = 2" by (simp_all add: static_new_def)
  have "static_scan (\<lambda>_. []) 1 a 1 (static_new 2) = Some (Err a, static_new 2)" for a :: nat
    by (subst static_scan.simps, subst exec) (simp_all add: nxt)
  then have "static_run (\<lambda>_. []) a (static_new 2) = Some (Err a, static_new 2)" for a :: nat
    by (simp add: static_run_def nxt exec)
  then show "\<not> test_static_runs_multiple_actions (\<lambda>_. []) e2"
    by (simp add: test_static_runs_multiple_actions_def)
qed

lemma pool_tests_pass:
  "test_pool_accepts_max_less_than_min" "test_pool_accepts_min_zero"
  "test_pool_runs_an_action d s \<longleftrightarrow> (0, Receive) \<in> set (s 0) \<union> set (s 1)"
proof -
  show "test_pool_accepts_max_less_than_min" "test_pool_accepts_min_zero" by code_simp+
  show "test_pool_runs_an_action d s \<longleftrightarrow> (0, Receive) \<in> set (s 0) \<union> set (s 1)"
    using first_static_run [of s "1 :: nat"]
    by (simp add: test_pool_runs_an_action_def pool_new_def pool_run_def pool_run_with_def Let_def pool_drop_def ran_def
        worker_drop_def started_def)
qed

text \<open>A worker of the dynamic pool starts with its action: its tests pass under every schedule but the one that reuses a worker.\<close>

lemma dynamic_new_ticks: "dynamic_ticks es (dynamic_new n t) = dynamic_new n t"
proof -
  have tick: "dynamic_tick m (dynamic_new n t) = dynamic_new n t" for m
    by (simp add: dynamic_tick_def cell_def dynamic_new_def)
  show ?thesis unfolding dynamic_ticks_def by (induction es) (simp_all add: tick)
qed

lemma first_dynamic_run:
  assumes "0 < n"
  shows "dynamic_run e a (dynamic_new n t) =
    Some (Ok (), \<lparr>dp_workers = Some (started_with 0 a) # replicate (n - 1) None, dp_timeout = t, dp_free = [1..<n], dp_max = n,
      dp_retired = []\<rparr>)"
proof -
  have "[0..<n] = 0 # [1..<n]" using assms by (simp add: upt_conv_Cons)
  moreover have "replicate n (None :: 'a worker option) = None # replicate (n - 1) None"
    using assms by (cases n) simp_all
  ultimately show ?thesis
    by (simp add: dynamic_run_def dynamic_new_ticks, simp add: try_add_worker_def dynamic_new_def set_cell_def)
qed

lemma busy_dynamic_run:
  fixes a b :: 'a
  defines "took \<equiv> \<lambda>t. \<lparr>dp_workers = [Some (started_with 0 a)], dp_timeout = t, dp_free = [], dp_max = 1, dp_retired = []\<rparr>"
  shows "dynamic_run (paused e) b (took t) = Some (Err b, took t)"
proof -
  have tick: "snd m \<noteq> Complete \<Longrightarrow> snd m \<noteq> Unwind \<Longrightarrow> dynamic_tick m (took t) = took t" for m
    by (cases "snd m") (auto simp: took_def dynamic_tick_def cell_def started_with_def)
  have "fold dynamic_tick (filter (\<lambda>m. snd m \<noteq> Complete \<and> snd m \<noteq> Unwind) es) (took t) = took t" for es
    by (induction es) (auto simp: tick)
  then have ticks: "dynamic_ticks (paused e k) (took t) = took t" for k by (simp add: dynamic_ticks_def paused_def)
  have "dynamic_exec 0 b (took t) = (Err b, took t)" "try_add_worker b (took t) = Some (Err b, took t)" "dp_max (took t) = 1"
    by (simp_all add: took_def dynamic_exec_def cell_def try_send_def started_with_def try_add_worker_def)
  then show ?thesis by (simp add: dynamic_run_def ticks)
qed

lemma dynamic_tests_pass:
  "test_dynamic_runs_an_action e1" "test_dynamic_returns_busy_error e1 e2"
  "es \<in> {[], [(0, Complete)]} \<Longrightarrow> test_dynamic_runs_multiple_actions e1 (\<lambda>_. es)"
  "test_dynamic_one_worker e1 [(0, Complete), (0, Receive)] (\<lambda>_. [])" "\<not> test_dynamic_one_worker e1 [] (\<lambda>_. [])"
  "test_dynamic_workers_are_dropped e1 [(0, Complete), (0, Receive), (0, Expire), (0, Finish)]"
proof -
  show "test_dynamic_runs_an_action e1"
    by (simp add: test_dynamic_runs_an_action_def first_dynamic_run ran_def dynamic_drop_def dynamic_workers_def
        map_filter_simps worker_drop_def started_with_def)
  show "test_dynamic_returns_busy_error e1 e2"
    using busy_dynamic_run [of e2 "2 :: nat" 1 10] by (simp add: test_dynamic_returns_busy_error_def first_dynamic_run)
  show "test_dynamic_runs_multiple_actions e1 (\<lambda>_. es)" if "es \<in> {[], [(0, Complete)]}"
    unfolding test_dynamic_runs_multiple_actions_def first_dynamic_run [OF zero_less_numeral]
    using that by (elim insertE emptyE; hypsubst; code_simp)
  show "test_dynamic_one_worker e1 [(0, Complete), (0, Receive)] (\<lambda>_. [])"
    unfolding test_dynamic_one_worker_def first_dynamic_run [OF zero_less_one] by code_simp
  show "\<not> test_dynamic_one_worker e1 [] (\<lambda>_. [])"
    unfolding test_dynamic_one_worker_def first_dynamic_run [OF zero_less_one] by code_simp
  show "test_dynamic_workers_are_dropped e1 [(0, Complete), (0, Receive), (0, Expire), (0, Finish)]"
    unfolding test_dynamic_workers_are_dropped_def first_dynamic_run [OF zero_less_one] by code_simp
qed

text \<open>
  The tests of the pool that need its static worker: when it is not waiting yet, the first action
  goes to the one dynamic worker, and there is none left for the second.
\<close>

lemma pool_busy_depends_on_schedule:
  "test_pool_returns_busy_error d1 s1 d2 s2 d3 s3 \<longleftrightarrow>
     (0, Receive) \<in> set (s1 0) \<union> set (s1 1) \<union> set (s2 0) \<union> set (s2 1)"
  "(0, Receive) \<in> set (s1 0) \<union> set (s1 1) \<Longrightarrow> test_pool_runs_multiple_actions d1 s1 d2 (paused s2)"
proof -
  let ?d = "\<lambda>a :: nat. \<lparr>dp_workers = [Some (started_with 0 a)], dp_timeout = 10, dp_free = [], dp_max = 1, dp_retired = []\<rparr>"
  let ?s = "\<lambda>a :: nat. \<lparr>sp_size = 1, sp_next = 0, sp_workers = [(started 0)\<lparr>wk_thread := Running a\<rparr>]\<rparr>"
  let ?got = "\<lambda>s. (0 :: nat, Receive) \<in> set (s 0) \<union> set (s (1 :: nat))"
  have new: "pool_new 1 2 = Some \<lparr>dynamic_part = Some (dynamic_new 1 10), static_part = Some (static_new 1 :: nat static_pool)\<rparr>"
    by (simp add: pool_new_def default_timeout_def)
  have paused: "?got (paused s) = ?got s" for s by (simp add: paused_def)
  have first: "pool_run d s a \<lparr>dynamic_part = Some (dynamic_new 1 10), static_part = Some (static_new 1)\<rparr> = Some (Ok (),
      if ?got s then \<lparr>dynamic_part = Some (dynamic_new 1 10), static_part = Some (?s a)\<rparr>
      else \<lparr>dynamic_part = Some (?d a), static_part = Some (static_new 1)\<rparr>)" for d s a
    using first_static_run [of s a] first_dynamic_run [of 1 d a 10] by (simp add: pool_run_def pool_run_with_def)
  have stat: "pool_run d (paused s) b \<lparr>dynamic_part = Some (dynamic_new 1 10), static_part = Some (?s a)\<rparr>
      = Some (Ok (), \<lparr>dynamic_part = Some (?d b), static_part = Some (?s a)\<rparr>)" for d s a b
    using busy_static_run [of s b a] first_dynamic_run [of 1 d b 10] by (simp add: pool_run_def pool_run_with_def)
  have dyn: "pool_run (paused d) s b \<lparr>dynamic_part = Some (?d a), static_part = Some (static_new 1)\<rparr>
      = (if ?got s then Some (Ok (), \<lparr>dynamic_part = Some (?d a), static_part = Some (?s b)\<rparr>)
         else Some (Err b, \<lparr>dynamic_part = Some (?d a), static_part = Some (static_new 1)\<rparr>))" for d s a b
    using first_static_run [of s b] busy_dynamic_run [of d b a 10] by (simp add: pool_run_def pool_run_with_def)
  have full: "pool_run (paused d) (paused s) c \<lparr>dynamic_part = Some (?d a), static_part = Some (?s b)\<rparr>
      = Some (Err c, \<lparr>dynamic_part = Some (?d a), static_part = Some (?s b)\<rparr>)" for d s a b c
    using busy_static_run [of s c b] busy_dynamic_run [of d c a 10] by (simp add: pool_run_def pool_run_with_def)
  show "test_pool_returns_busy_error d1 s1 d2 s2 d3 s3 \<longleftrightarrow>
     (0, Receive) \<in> set (s1 0) \<union> set (s1 1) \<union> set (s2 0) \<union> set (s2 1)"
  proof (cases "?got s1")
    case True
    then show ?thesis unfolding test_pool_returns_busy_error_def new using True by (simp only: option.case first if_True res.case prod.case stat full) auto
  next
    case False
    then show ?thesis unfolding test_pool_returns_busy_error_def new
      using paused [of s2] by (cases "?got s2") (simp_all only: option.case first if_False if_True res.case prod.case dyn full, auto)
  qed
  show "test_pool_runs_multiple_actions d1 s1 d2 (paused s2)" if "(0, Receive) \<in> set (s1 0) \<union> set (s1 1)"
    unfolding test_pool_runs_multiple_actions_def new
    using that by (simp only: option.case first if_True res.case prod.case stat)
      (simp add: Let_def ran_def pool_drop_def dynamic_drop_def dynamic_workers_def map_filter_simps worker_drop_def started_def started_with_def)
qed

section \<open>The pool of connections\<close>

definition test_returns_resource :: "nat \<Rightarrow> string drain_order \<Rightarrow> bool" where
  "test_returns_resource now it \<longleftrightarrow>
     (case pool_insert it ''addr1'' (resource_new now ''resource1'') (fst (resource_pool_new (Some (from_secs 2)))) of
        Some (Ok _, pool) \<Rightarrow>
          (case fst (pool_get ''addr1'' pool) of None \<Rightarrow> False | Some r \<Rightarrow> pr_resource r = ''resource1'')
      | _ \<Rightarrow> False)"

lemma connection_pool_test_passes: "test_returns_resource now it"
  by (simp add: test_returns_resource_def resource_pool_new_def pool_insert_def max_resources_def pool_get_def hm_insert_def
      hm_get_def resource_new_def)

section \<open>Handlers that check the body\<close>

definition body_or :: "(('m, 'b) body \<Rightarrow> ((('m, 'rb) response, unit) res \<times> ('m, 'b) body) option)
    \<Rightarrow> ('m, 'rb) response \<Rightarrow> ('m, 'b, 'rb) handler" where
  "body_or body_exist no_body q =
     (case rq_body q of
        None \<Rightarrow> Some (Ok no_body, q)
      | Some body \<Rightarrow> (case body_exist body of
            None \<Rightarrow> None
          | Some (r, body') \<Rightarrow> Some (r, q\<lparr>rq_body := Some body'\<rparr>)))"

definition handler_from_check_body :: "'b reader \<Rightarrow> (byte list \<Rightarrow> bool) \<Rightarrow> ('m, 'b, 'rb) handler" where
  "handler_from_check_body rd check =
     body_or
       (\<lambda>body. case read_to_end rd (body_content body) of
            None \<Rightarrow> None
          | Some (r, c) \<Rightarrow>
              Some (case r of
                      Ok content \<Rightarrow> Ok (response_from_status (if check content then OK else BadRequest))
                    | _ \<Rightarrow> Panic,
                    body\<lparr>body_content := c\<rparr>))
       (response_from_status BadRequest)"

context connection
begin

lemma check_body_answers:
  assumes "delivered incoming (reader_ok up outgoing sent) rl hs body path q"
  shows "answers io (handler_from_check_body (body_reader io) check)
    (response_from_status (if body \<noteq> [] \<and> check body then OK else BadRequest)) q"
proof (cases "rq_body q")
  case None
  then show ?thesis using assms
    by (simp add: answers_def handler_from_check_body_def body_or_def delivered_def)
next
  case (Some bd)
  with delivered_read_to_end [OF assms] show ?thesis
    by (auto simp: answers_def handler_from_check_body_def body_or_def)
qed

end

section \<open>The tests of the client\<close>

text \<open>
  What \<^verbatim>\<open>client_write_run_post_body\<close> and \<^verbatim>\<open>client_keeps_connection_alive\<close> send,
  once and twice: a POST with a text as its body.
\<close>

definition post_request :: "'m externals \<Rightarrow> 'm \<Rightarrow> string \<Rightarrow> ('m, byte list) request" where
  "post_request ext mime content = (let body = body_from content mime in request_from_body ext body POST ''/'')"

definition checked :: "(byte list \<Rightarrow> bool) \<Rightarrow> byte list \<Rightarrow> status_code" where
  "checked check content = (if check content then OK else BadRequest)"

lemma post_request_asks:
  fixes x :: "('d, 'm, 'rb) exchange"
  assumes "content \<noteq> []" and "length content < 2 ^ 64" and "q = post_request ext mime content"
    and "header_ok \<lparr>hd_name = ''Content-Type'', hd_value = mime_text ext mime\<rparr>" and "mime_parse ext (mime_text ext mime) = Ok mime"
    and "ex_line x = line_of q" and "ex_headers x = sent_headers q" and "ex_body x = content"
  shows "asks (\<lambda>s. s) (\<lambda>_. True) q x" and "request_line_ok (ex_line x)" and "headers_ok (ex_headers x)"
    and "request_framed ext (ex_headers x) (ex_body x)"
proof -
  let ?hs = "headers_add \<lparr>hd_name = ''Content-Length'', hd_value = show_nat (length content)\<rparr>
    (headers_add \<lparr>hd_name = ''Content-Type'', hd_value = mime_text ext mime\<rparr> headers_new)"
  have len: "of_nat (length content) \<noteq> (0 :: u64)"
  proof
    assume "of_nat (length content) = (0 :: u64)"
    then have "unat (of_nat (length content) :: u64) = 0" by simp
    with assms(1,2) show False by simp
  qed
  have q: "q = \<lparr>rq_method = POST, rq_uri = ''/'', rq_version = ''HTTP/1.1'', rq_headers = ?hs,
      rq_body = Some (body_new (Some mime) (of_nat (length content)) content)\<rparr>"
    using assms(2) len by (simp add: assms(3) post_request_def request_from_body_def body_from_def body_from_string_def body_new_def)
  have hs: "headers_ok ?hs" "headers_get ?hs ''Transfer-Encoding'' = None" "headers_get ?hs ''Connection'' = None"
    "headers_get ?hs ''Content-Length'' = Some [show_nat (length content)]" "body_mime ext ?hs = Ok (Some mime)"
    using assms(4,5) by (simp_all add: headers_all_add header_ok_length headers_get_add body_mime_def)
  have "announces ext (\<lambda>s. s) ?hs (rq_body q)"
    using hs(2,4,5) assms(2) by (simp add: announces_def q body_new_def)
  from announces_framed [OF this] show "request_framed ext (ex_headers x) (ex_body x)"
    by (simp add: assms(7,8) sent_headers_def q body_bytes_def body_new_def)
  show "asks (\<lambda>s. s) (\<lambda>_. True) q x"
    using hs(1,3) by (simp add: asks_def assms(6-8) q body_bytes_def body_new_def persists_def)
  show "request_line_ok (ex_line x)" unfolding assms(6) line_of_def q request.simps by code_simp
  show "headers_ok (ex_headers x)" using ensure_length_header_ok [OF hs(1)] by (simp add: assms(7) sent_headers_def q)
qed

text \<open>The session that the tests are instances of: any number of posts, each answered by what the check says.\<close>

lemma posts_checked:
  fixes rts :: "('m, 'd request_reader take_reader, byte list) handler router"
  assumes "dialogue io incoming outgoing up tries upcoming gone" and "turn_taking jo inc out open_end jtries coming"
    and "iteration_order itq" and "iteration_order itr" and "iteration_order drain_order"
    and "0 < as_secs (read_request_timeout t)" and "0 < as_secs (write_response_timeout t)"
    and "router_add ''/'' POST (handler_from_check_body (body_reader io) check) router_new = Some rts"
    and "header_ok \<lparr>hd_name = ''Content-Type'', hd_value = mime_text ext mime\<rparr>" and "mime_parse ext (mime_text ext mime) = Ok mime"
    and "\<forall>content \<in> set contents. content \<noteq> [] \<and> length content < 2 ^ 64"
    and "qs = map (post_request ext mime) contents"
    and "up d" and "incoming d # upcoming d = (if qs = [] then [[]] else map (request_wire itq (\<lambda>s. s)) qs)"
    and "idle_at open_end inc coming addr conn (map (\<lambda>content. response_text itr (\<lambda>s. s)
           (response_from_status (checked check content) :: ('m, byte list) response)) contents) s"
    and "\<And>s. tc_try_clone tc conn s = Some (Ok (), s)" and "\<And>cr. response_used jo cr (uses cr)"
  shows "\<exists>d' crs s'. handle_conversation ext itr io cursor_read rts t d = Some (Ok (), d') \<and> gone d'
    \<and> client_session ext itq jo cursor_read drain_order tc uses addr qs s = Some (crs, s')
    \<and> map (\<lambda>cr. rs_status (cr_response cr)) crs = map (checked check) contents
    \<and> idle_at open_end inc coming addr conn [] s'"
proof -
  let ?h = "handler_from_check_body (body_reader io) check :: ('m, 'd request_reader take_reader, byte list) handler"
  let ?resp = "\<lambda>content. response_from_status (checked check content) :: ('m, byte list) response"
  let ?x = "\<lambda>content. \<lparr>ex_line = line_of (post_request ext mime content), ex_headers = sent_headers (post_request ext mime content),
    ex_body = content, ex_path = ''/'', ex_handler = ?h, ex_response = ?resp content\<rparr>"
  have conn: "connection io incoming outgoing (\<lambda>c. up c \<and> upcoming c = ms) tries" for ms
    by (rule turn_taking.talks [OF dialogue.axioms(1) [OF assms(1)]])
  have line: "rl_uri (line_of (post_request ext mime content)) = ''/''" "rl_method (line_of (post_request ext mime content)) = POST" for content
    by (simp_all add: line_of_def post_request_def request_from_body_def Let_def)
  have route: "normalize ''/'' = Ok ''/''" "router_get_prefix rts ''/'' POST = Some ?h"
    using root_route [OF assms(8), of "[]" POST] by (simp_all add: canonical_def normalize_eq has_root_def)
  have asked: "asks (\<lambda>s. s) (\<lambda>_. True) (post_request ext mime content) (?x content)"
    and ok: "exchange_ok ext io incoming outgoing up (\<lambda>_. True) rts (?x content)" if "content \<in> set contents" for content
  proof -
    have content: "content \<noteq> []" "length content < 2 ^ 64" using assms(11) that by auto
    note post = post_request_asks [OF content refl assms(9,10), of "?x content"]
    show "asks (\<lambda>s. s) (\<lambda>_. True) (post_request ext mime content) (?x content)" by (rule post(1)) simp_all
    have "answers io ?h (?resp content) q"
      if "delivered incoming (reader_ok up outgoing sent) (line_of (post_request ext mime content))
        (sent_headers (post_request ext mime content)) content ''/'' q" for sent q
    proof -
      let ?ms = "case rq_body q of None \<Rightarrow> [] | Some bd \<Rightarrow> upcoming (ts_stream (br_src (tk_inner (body_content bd))))"
      have "delivered incoming (reader_ok (\<lambda>c. up c \<and> upcoming c = ?ms) outgoing sent) (line_of (post_request ext mime content))
        (sent_headers (post_request ext mime content)) content ''/'' q"
        using that by (auto simp: delivered_def reader_ok_def split: option.splits)
      from connection.check_body_answers [OF conn this, of check] content(1) show ?thesis by (simp add: checked_def)
    qed
    then show "exchange_ok ext io incoming outgoing up (\<lambda>_. True) rts (?x content)"
      using post(2-4) line route by (simp add: exchange_ok_def)
  qed
  have oks: "list_all (exchange_ok ext io incoming outgoing up (\<lambda>_. True) rts) (map ?x contents)"
    using ok by (simp add: list_all_iff)
  have asks: "list_all2 (asks (\<lambda>s. s) (\<lambda>_. True)) qs (map ?x contents)"
    using asked by (simp add: assms(12) list_all2_map1 list_all2_map2 list.rel_refl_strong)
  have ans: "list_all (answerable ext (\<lambda>s. s)) (map ?x contents)"
    by (simp add: list_all_iff answerable_def response_from_status_def checked_def three_digits_def announces_def)
  have idle: "idle_at open_end inc coming addr conn (map (\<lambda>x. response_text itr (\<lambda>s. s) (ex_response x)) (map ?x contents)) s"
    using assms(15) by (simp add: comp_def)
  from session_held [OF assms(1,2) cursor.eof_source_axioms cursor.eof_source_axioms assms(3-7) oks asks ans assms(13,14) idle assms(16,17)]
  obtain d' crs s' where r: "handle_conversation ext itr io cursor_read rts t d = Some (Ok (), d')" "gone d'"
    "client_session ext itq jo cursor_read drain_order tc uses addr qs s = Some (crs, s')"
    "list_all2 (\<lambda>cr x. answer_arrived jo (\<lambda>s. s) (ex_response x) (cr_response cr)) crs (map ?x contents)"
    "idle_at open_end inc coming addr conn [] s'" by blast
  have "status_from_usize (usize_from_status (checked check content)) = checked check content" for content
    by (simp add: checked_def status_from_usize_def)
  then have "map (\<lambda>cr. rs_status (cr_response cr)) crs = map (checked check) contents"
    using r(4) by (auto simp: list_all2_conv_all_nth answer_arrived_def response_from_status_def intro: nth_equalityI)
  with r show ?thesis by blast
qed

text \<open>Both tests on a connection in memory, with a third post that fails the check.\<close>

lemma client_tests_pass:
  "\<exists>rts d' crs s'. router_add ''/'' POST (handler_from_check_body (body_reader (cancellable_io (peer_os 2))) ((=) ''test'')) router_new
       = Some rts
     \<and> handle_conversation text_externals rev (cancellable_io (peer_os 2)) cursor_read rts default_timeouts
         \<lparr>cs_stream = \<lparr>mp_in = request_wire rev (\<lambda>s. s) (post_request text_externals ''text/plain'' ''test''),
            mp_next = map (\<lambda>content. request_wire rev (\<lambda>s. s) (post_request text_externals ''text/plain'' content)) [''test'', ''wrong''],
            mp_out = [], mp_done = False\<rparr>, cs_read_timeout = None, cs_write_timeout = None\<rparr> = Some (Ok (), d')
     \<and> client_session text_externals rev (cancellable_io (peer_os 4)) cursor_read rev mem_tcp (\<lambda>cr. cr) ''a:80''
         (map (post_request text_externals ''text/plain'') [''test'', ''test'', ''wrong''])
         (mem_session (map (\<lambda>content. response_text rev (\<lambda>s. s)
            (response_from_status (checked ((=) ''test'') content) :: (string, byte list) response)) [''test'', ''test'', ''wrong'']))
         = Some (crs, s')
     \<and> map (\<lambda>cr. rs_status (cr_response cr)) crs = [OK, OK, BadRequest]"
proof -
  let ?io = "cancellable_io (peer_os 2)" and ?jo = "cancellable_io (peer_os 4)" and ?contents = "[''test'', ''test'', ''wrong'']"
  let ?w = "\<lambda>content. request_wire rev (\<lambda>s. s) (post_request text_externals ''text/plain'' content)"
  let ?r = "\<lambda>content. response_text rev (\<lambda>s. s) (response_from_status (checked ((=) ''test'') content) :: (string, byte list) response)"
  let ?d = "\<lparr>cs_stream = \<lparr>mp_in = ?w ''test'', mp_next = map ?w [''test'', ''wrong''], mp_out = [], mp_done = False\<rparr>,
    cs_read_timeout = None, cs_write_timeout = None\<rparr>"
  let ?s = "mem_session (map ?r ?contents)"
  obtain rts :: "(string, mem_peer cancellable request_reader take_reader, byte list) handler router"
    where rts: "router_add ''/'' POST (handler_from_check_body (body_reader ?io) ((=) ''test'')) router_new = Some rts"
    by (simp add: router_add_eq)
  have mime: "header_ok \<lparr>hd_name = ''Content-Type'', hd_value = mime_text text_externals ''text/plain''\<rparr>"
    unfolding text_externals_def externals.simps by code_simp
  have parse: "mime_parse text_externals (mime_text text_externals ''text/plain'') = Ok ''text/plain''"
    by (simp add: text_externals_def)
  have idle: "idle_at (\<lambda>c. \<not> mp_done (cs_stream c)) (\<lambda>c. mp_in (cs_stream c)) (\<lambda>c. mp_next (cs_stream c)) ''a:80'' 7
      (map ?r ?contents) ?s"
    by (auto simp: idle_at_def mem_session_def resources_ok_def hm_inv_def max_resources_def hm_get_def)
  have used: "response_used ?jo cr cr" for cr
    by (auto simp: response_used_def intro: body_used.unused split: option.split)
  obtain d' crs s' where r: "handle_conversation text_externals rev ?io cursor_read rts default_timeouts ?d = Some (Ok (), d')"
    "client_session text_externals rev ?jo cursor_read rev mem_tcp (\<lambda>cr. cr) ''a:80'' (map (post_request text_externals ''text/plain'') ?contents) ?s
      = Some (crs, s')"
    "map (\<lambda>cr. rs_status (cr_response cr)) crs = map (checked ((=) ''test'')) ?contents"
    using posts_checked [OF mem_peer.cancellable.dialogue_axioms mem_peer.cancellable.turn_taking_axioms
        iteration_order_rev iteration_order_rev iteration_order_rev _ _ rts mime parse _ refl _ _ idle _ used, of default_timeouts ?d mem_tcp]
    by (auto simp: mem_tcp_def default_timeouts_def)
  have "map (checked ((=) ''test'')) ?contents = [OK, OK, BadRequest]" by (simp add: checked_def)
  with r rts show ?thesis by metis
qed

end
