(* ===== verification/Http_Tests.thy ===== *)
theory Http_Tests
  imports Examples
begin

text \<open>
  The unit tests of the messages (\<^verbatim>\<open>http/tests.rs\<close>) replayed on the model, each as a Boolean.
  The one of \<^verbatim>\<open>Response::from_content\<close> is left out: it compares the results of two sorts in
  place, which are units.
\<close>

section \<open>Headers\<close>

text \<open>Reading one header from a text.\<close>

definition header_from :: "string \<Rightarrow> (header option, http_error) res option" where
  "header_from content = map_option fst (header_read_from cursor_read (bufreader_new content))"

definition test_http_header_parse_standard :: bool where
  "test_http_header_parse_standard \<longleftrightarrow>
     header_from (''Header-Name:header value'' @ crlf) = Some (Ok (Some \<lparr>hd_name = ''Header-Name'', hd_value = ''header value''\<rparr>))"

definition parsed_name :: "string \<Rightarrow> string option" where
  "parsed_name content = (case header_from content of Some (Ok (Some h)) \<Rightarrow> Some (hd_name h) | _ \<Rightarrow> None)"

definition test_http_header_parse_normalize :: bool where
  "test_http_header_parse_normalize \<longleftrightarrow>
     parsed_name (''header:header value'' @ crlf) = Some ''Header''
     \<and> parsed_name (''header-name:header value'' @ crlf) = Some ''Header-Name''
     \<and> parsed_name (''header-name-1:header value'' @ crlf) = Some ''Header-Name-1''
     \<and> parsed_name (''header_part1-part2-part3: header value'' @ crlf) = Some ''Header_part1-Part2-Part3''"

definition test_http_header_parse_with_colon_values :: bool where
  "test_http_header_parse_with_colon_values \<longleftrightarrow>
     header_from (''Host: localhost:1234'' @ crlf) = Some (Ok (Some \<lparr>hd_name = ''Host'', hd_value = ''localhost:1234''\<rparr>))"

definition test_http_header_invalid_tokens :: bool where
  "test_http_header_invalid_tokens \<longleftrightarrow>
     header_from (''header'' @ CR # ''name:headervalue'' @ crlf) = Some (Err (InvalidRequest ''invalid header name line''))
     \<and> header_from (''header'' @ CHR 0x0B # ''name:headervalue'' @ crlf) = Some (Err (InvalidRequest ''invalid header name line''))"

definition test_http_header_no_colon :: bool where
  "test_http_header_no_colon \<longleftrightarrow>
     header_from (''header-name :headervalue'' @ crlf) = Some (Err (InvalidRequest ''invalid header name line''))"

definition test_http_header_invalid_header_values :: bool where
  "test_http_header_invalid_header_values \<longleftrightarrow>
     header_from (''header-name: '' @ CHR 0x00 # ''x1Aheadervalue'' @ crlf)
       = Some (Err (InvalidRequest ''invalid header name value''))"

text \<open>A text with one line end, at its end, is read as that line.\<close>

lemma header_from_line: "\<not> has_crlf (p @ [CR]) \<Longrightarrow> header_from (p @ crlf) = Some (parse_header_line (p @ crlf))"
  using cursor.header_read_line [of "bufreader_new (p @ crlf)" p "[]"] by (auto simp: header_from_def)

lemma header_from_line_split:
  "p = a @ b \<Longrightarrow> \<not> has_crlf (p @ [CR]) \<Longrightarrow> header_from (a @ b @ crlf) = Some (parse_header_line (p @ crlf))"
  using header_from_line [of p] by simp

lemma header_tests_pass:
  "test_http_header_parse_standard" "test_http_header_parse_normalize" "test_http_header_parse_with_colon_values"
  "test_http_header_invalid_tokens" "test_http_header_no_colon" "test_http_header_invalid_header_values"
proof -
  have line: "header_from (p @ crlf) = Some r" if "\<not> has_crlf (p @ [CR]) \<and> parse_header_line (p @ crlf) = r" for p r
    using header_from_line [of p] that by simp
  show "test_http_header_parse_standard"
    unfolding test_http_header_parse_standard_def by (rule line) code_simp
  show "test_http_header_parse_normalize"
  proof -
    have "header_from (''header:header value'' @ crlf) = Some (Ok (Some \<lparr>hd_name = ''Header'', hd_value = ''header value''\<rparr>))"
      "header_from (''header-name:header value'' @ crlf) = Some (Ok (Some \<lparr>hd_name = ''Header-Name'', hd_value = ''header value''\<rparr>))"
      "header_from (''header-name-1:header value'' @ crlf) = Some (Ok (Some \<lparr>hd_name = ''Header-Name-1'', hd_value = ''header value''\<rparr>))"
      "header_from (''header_part1-part2-part3: header value'' @ crlf)
        = Some (Ok (Some \<lparr>hd_name = ''Header_part1-Part2-Part3'', hd_value = ''header value''\<rparr>))"
      by (rule line, code_simp)+
    then show ?thesis by (simp add: test_http_header_parse_normalize_def parsed_name_def)
  qed
  show "test_http_header_parse_with_colon_values"
    unfolding test_http_header_parse_with_colon_values_def by (rule line) code_simp
  have "header_from ((''header'' @ CR # ''name:headervalue'') @ crlf) = Some (Err (InvalidRequest ''invalid header name line''))"
    "header_from ((''header'' @ CHR 0x0B # ''name:headervalue'') @ crlf) = Some (Err (InvalidRequest ''invalid header name line''))"
    by (rule line, code_simp)+
  then show "test_http_header_invalid_tokens" by (simp add: test_http_header_invalid_tokens_def)
  show "test_http_header_no_colon"
    unfolding test_http_header_no_colon_def by (rule line) code_simp
  have "header_from ((''header-name: '' @ CHR 0x00 # ''x1Aheadervalue'') @ crlf) = Some (Err (InvalidRequest ''invalid header name value''))"
    by (rule line) code_simp
  then show "test_http_header_invalid_header_values" by (simp add: test_http_header_invalid_header_values_def)
qed

definition headers_from :: "string \<Rightarrow> (headers, http_error) res option" where
  "headers_from content = map_option fst (headers_read_from cursor_read (bufreader_new content))"

definition test_http_headers_parse :: "entry_order \<Rightarrow> bool" where
  "test_http_headers_parse it \<longleftrightarrow>
     (case headers_from (''header-one: value-one'' @ crlf @ crlf) of
        Some (Ok hs) \<Rightarrow> headers_iter it hs = [(''Header-One'', [''value-one''])]
      | _ \<Rightarrow> False)
     \<and> (case headers_from (''header-one: value-one'' @ crlf @ ''header-one: value-two'' @ crlf @ crlf) of
        Some (Ok hs) \<Rightarrow> headers_iter it hs = [(''Header-One'', [''value-one'', ''value-two''])]
      | _ \<Rightarrow> False)"

text \<open>A text of header lines and an empty line is read line by line.\<close>

lemma headers_from_lines:
  assumes "list_all2 (\<lambda>p h. \<not> has_crlf (p @ [CR]) \<and> parse_header_line (p @ crlf) = Ok (Some h)) ps hs"
  shows "headers_from (concat (map (\<lambda>p. p @ crlf) ps) @ crlf) = Some (Ok (fold headers_add hs headers_new))"
proof -
  have last: "parse_header_line ([] @ crlf) = Ok None" "\<not> has_crlf ([] @ [CR])" by code_simp+
  have "\<exists>b'. headers_read_loop cursor_read hs0 b = Some (Ok (fold headers_add hs hs0), b')"
    if "br_content (\<lambda>s. s) b = concat (map (\<lambda>p. p @ crlf) ps) @ crlf" for b hs0
    using assms that
  proof (induction ps hs arbitrary: b hs0 rule: list_all2_induct)
    case Nil
    then show ?case using cursor.header_read_line [OF _ _ last(2), of b "[]"] last(1) headers_read_loop_step(2) by fastforce
  next
    case (Cons p ps h hs)
    then have "br_content (\<lambda>s. s) b = p @ crlf @ concat (map (\<lambda>p. p @ crlf) ps) @ crlf" by simp
    with cursor.header_read_line [of b p "concat (map (\<lambda>p. p @ crlf) ps) @ crlf"] Cons.hyps(1)
    obtain b' where b': "header_read_from cursor_read b = Some (Ok (Some h), b')"
      "br_content (\<lambda>s. s) b' = concat (map (\<lambda>p. p @ crlf) ps) @ crlf" by auto
    from headers_read_loop_step(1) [OF b'(1), of hs0] Cons.IH [OF b'(2), of "headers_add h hs0"] show ?case by simp
  qed
  from this [of "bufreader_new (concat (map (\<lambda>p. p @ crlf) ps) @ crlf)" headers_new] show ?thesis
    by (auto simp: headers_from_def headers_read_from_def)
qed

lemma iteration_order_single: "iteration_order it \<Longrightarrow> it [e] = [e]"
  using iteration_order_set [of it "[e]"] iteration_order_length [of it "[e]"] by (cases "it [e]") auto

lemma headers_test_passes:
  assumes "iteration_order it"
  shows "test_http_headers_parse it"
proof -
  let ?h = "\<lambda>v. \<lparr>hd_name = ''Header-One'', hd_value = v\<rparr>"
  have "headers_from (concat (map (\<lambda>p. p @ crlf) [''header-one: value-one'']) @ crlf)
      = Some (Ok (fold headers_add [?h ''value-one''] headers_new))"
    by (rule headers_from_lines, code_simp)
  moreover have "headers_from (concat (map (\<lambda>p. p @ crlf) [''header-one: value-one'', ''header-one: value-two'']) @ crlf)
      = Some (Ok (fold headers_add [?h ''value-one'', ?h ''value-two''] headers_new))"
    by (rule headers_from_lines, code_simp)
  ultimately show ?thesis
    using iteration_order_single [OF assms]
    by (simp add: test_http_headers_parse_def headers_add_def headers_new_def hm_insert_def hm_get_def)
qed

section \<open>Messages\<close>

definition written :: "((unit, http_error) res \<times> ('p \<times> byte list)) option \<Rightarrow> byte list option" where
  "written out = (case out of Some (Ok _, (_, to)) \<Rightarrow> Some to | _ \<Rightarrow> None)"

definition test_http_request_from_str :: "'m externals \<Rightarrow> bool" where
  "test_http_request_from_str ext \<longleftrightarrow>
     (case request_read_from_str ext (''POST /file HTTP/1.1'' @ crlf @ ''Content-Length: 4'' @ crlf @ crlf @ ''test'') of
        Some (Ok req, _) \<Rightarrow>
          (case rq_body req of
             None \<Rightarrow> False
           | Some body \<Rightarrow>
               (case read_to_string (take_read (bufreader_read cursor_read)) (body_content body) of
                  Some (Ok payload, _) \<Rightarrow> rq_uri req = ''/file'' \<and> rq_method req = POST \<and> payload = ''test''
                | _ \<Rightarrow> False))
      | _ \<Rightarrow> False)"

definition test_http_request_write :: "'m externals \<Rightarrow> entry_order \<Rightarrow> bool" where
  "test_http_request_write ext it \<longleftrightarrow>
     (let req = request_from ''body'' (mime_text_plain ext) GET ''http://example.com'' in
      written (request_write it cursor_read vec_write (req, [])) = Some (''GET http://example.com HTTP/1.1'' @ crlf @ crlf @ ''body''))"

definition test_http_body_write :: "'m externals \<Rightarrow> bool" where
  "test_http_body_write ext \<longleftrightarrow>
     (let content = ''#wruster''; body = body_new (Some (mime_text_plain ext)) (of_nat (length content)) content in
      written (body_write cursor_read vec_write (body, [])) = Some content)"

definition test_http_response_write :: "'m externals \<Rightarrow> entry_order \<Rightarrow> bool" where
  "test_http_response_write ext it \<longleftrightarrow>
     (let content = ''#wruster''; body = body_new (Some (mime_text_plain ext)) (of_nat (length content)) content;
          hs = headers_add \<lparr>hd_name = ''Content-Length'', hd_value = ''8''\<rparr> headers_new;
          response = \<lparr>rs_status = OK, rs_headers = hs, rs_body = Some body\<rparr>
      in written (response_write it cursor_read vec_write (response, []))
           = Some (''HTTP/1.1 200 OK'' @ crlf @ ''Content-Length: 8'' @ crlf @ crlf @ ''#wruster''))"

definition test_http_response_write_empty_body :: "entry_order \<Rightarrow> bool" where
  "test_http_response_write_empty_body it \<longleftrightarrow>
     (let response = \<lparr>rs_status = OK, rs_headers = headers_new, rs_body = None\<rparr> :: (unit, byte list) response in
      written (response_write it cursor_read vec_write (response, []))
        = Some (''HTTP/1.1 200 OK'' @ crlf @ ''Content-Length: 0'' @ crlf @ crlf))"

definition test_http_body_read_from_invalid_content_type :: "'m externals \<Rightarrow> bool" where
  "test_http_body_read_from_invalid_content_type ext \<longleftrightarrow>
     (let hs = headers_add \<lparr>hd_name = ''Content-Length'', hd_value = ''4''\<rparr>
                (headers_add \<lparr>hd_name = ''Content-Type'', hd_value = ''invalid''\<rparr> headers_new)
      in case body_read_from ext hs ''test'' of Err _ \<Rightarrow> True | _ \<Rightarrow> False)"

definition test_http_body_read_updates_read_bytes :: "'m externals \<Rightarrow> bool" where
  "test_http_body_read_updates_read_bytes ext \<longleftrightarrow>
     (let hs = headers_add \<lparr>hd_name = ''Content-Length'', hd_value = ''4''\<rparr>
                (headers_add \<lparr>hd_name = ''Content-Type'', hd_value = mime_text ext (mime_text_plain ext)\<rparr> headers_new)
      in case body_read_from ext hs ''test'' of
           Ok (Some body) \<Rightarrow>
             (case read_to_string (body_read (take_read cursor_read)) body of
                Some (Ok buf, body') \<Rightarrow> length buf = 4 \<and> bytes_read body' = 4
              | _ \<Rightarrow> False)
         | _ \<Rightarrow> False)"

lemma status_line_OK: "status_line_text OK = ''HTTP/1.1 200 OK'' @ crlf" by code_simp

lemma write_tests_pass:
  assumes "iteration_order it"
  shows "test_http_request_write ext it" and "test_http_body_write ext" and "test_http_response_write ext it"
    and "test_http_response_write_empty_body it"
proof -
  have none: "it (header_map headers_new) = []"
    using iteration_order_set [OF assms, of "header_map headers_new"] by (simp add: headers_new_def)
  have one: "it (header_map (headers_add h headers_new)) = [(hd_name h, [hd_value h])]" for h
    using iteration_order_single [OF assms] by (simp add: headers_add_def headers_new_def hm_insert_def hm_get_def)
  show "test_http_request_write ext it"
  proof -
    let ?q = "request_from ''body'' (mime_text_plain ext) GET ''http://example.com''"
    have "request_line_text \<lparr>rl_method = GET, rl_uri = ''http://example.com'', rl_version = ''HTTP/1.1''\<rparr>
      = ''GET http://example.com HTTP/1.1'' @ crlf" by code_simp
    then show ?thesis
      using memory.request_write_ok [where q = ?q and w = "[]" and it = it, OF _ _ refl refl] none
      by (auto simp: test_http_request_write_def written_def request_from_def into_request_def body_from_string_def body_new_def
          ensure_length_header_def headers_text_def flatten_entries_def body_bytes_def)
  qed
  show "test_http_body_write ext"
    using cursor_to_vec.body_write_ok [of "body_new (Some (mime_text_plain ext)) 8 ''#wruster''" "[]"]
    by (auto simp: test_http_body_write_def written_def body_new_def)
  show "test_http_response_write ext it"
  proof -
    let ?p = "\<lparr>rs_status = OK, rs_headers = headers_add \<lparr>hd_name = ''Content-Length'', hd_value = ''8''\<rparr> headers_new,
      rs_body = Some (body_new (Some (mime_text_plain ext)) 8 ''#wruster'')\<rparr>"
    show ?thesis
      using memory.response_write_ok [where p = ?p and w = "[]" and it = it, OF _ _ refl] status_line_OK
      by (auto simp: test_http_response_write_def written_def body_new_def ensure_length_header_def one headers_text_def
          flatten_entries_def header_text_def body_bytes_def)
  qed
  show "test_http_response_write_empty_body it"
    using memory.response_write_ok [where p = "\<lparr>rs_status = OK, rs_headers = headers_new, rs_body = None\<rparr> :: (unit, byte list) response" and w = "[]" and it = it,
        OF _ _ refl] status_line_OK
    by (auto simp: test_http_response_write_empty_body_def written_def ensure_length_header_def content_length_zero_def one headers_text_def
        flatten_entries_def header_text_def body_bytes_def)
qed

lemma request_from_str_test_passes: "test_http_request_from_str ext"
proof -
  let ?rl = "\<lparr>rl_method = POST, rl_uri = ''/file'', rl_version = ''HTTP/1.1''\<rparr>"
  let ?hs = "\<lparr>header_map = [(''Content-Length'', [''4''])]\<rparr>"
  let ?s = "''POST /file HTTP/1.1'' @ crlf @ ''Content-Length: 4'' @ crlf @ crlf @ ''test''"
  have "request_text rev ?rl ?hs ''test'' = ?s" by code_simp
  then have inp: "br_content (\<lambda>s. s) (bufreader_new ?s) = request_text rev ?rl ?hs ''test'' @ []" by simp
  have ok: "request_line_ok ?rl" "headers_ok ?hs" by code_simp+
  have "show_nat 4 = ''4''" by code_simp
  then have "parse_usize ''4'' = Ok 4" using parse_uint_show [of 4 "2 ^ 64"] by (simp add: parse_usize_def)
  then have fr: "request_framed ext ?hs ''test''"
    by (simp add: request_framed_def headers_get_def hm_get_def body_mime_def)
  obtain q :: "('a, byte list bufreader take_reader) request" and b where q:
    "request_read_buffered ext cursor_read (bufreader_new ?s) = Some (Ok q, b)" "br_content (\<lambda>s. s) b = ''test'' @ []"
    "rq_method q = rl_method ?rl" "rq_uri q = rl_uri ?rl"
    "case rq_body q of None \<Rightarrow> ''test'' = [] | Some bd \<Rightarrow> body_content bd = \<lparr>tk_inner = b, tk_limit = length ''test''\<rparr> \<and> body_limited bd"
    by (rule framed_request_read [OF cursor.byte_source_axioms TrueI inp ok iteration_order_rev fr]) blast
  then obtain bd where bd: "rq_body q = Some bd" "body_content bd = \<lparr>tk_inner = b, tk_limit = 4\<rparr>" by (auto split: option.splits)
  note copy = copying.intro [OF byte_source.take_source [OF byte_source.buffered_source [OF cursor.byte_source_axioms]]
    full_sink.axioms(1) [OF vec.full_sink_axioms]]
  have "\<exists>t. io_copy (take_read (bufreader_read cursor_read)) vec_write (body_content bd, []) = Some (Ok 4, (t, ''test''))"
    using copying.io_copy_ok [OF copy, where w = "[]" and r = "body_content bd"] q(2) bd(2) by auto
  then obtain t where "read_to_end (take_read (bufreader_read cursor_read)) (body_content bd) = Some (Ok ''test'', t)"
    by (auto simp: read_to_end_def)
  moreover have "from_utf8_lossy ''test'' = ''test''" by code_simp
  ultimately have "read_to_string (take_read (bufreader_read cursor_read)) (body_content bd) = Some (Ok ''test'', t)"
    by (simp add: read_to_string_def prog_simps)
  then show ?thesis
    using q(1,3,4) bd(1) by (simp add: test_http_request_from_str_def request_read_from_str_def request_read_from_def)
qed

lemma body_read_tests_pass:
  assumes "mime_parse ext ''invalid'' = Err e" and "mime_parse ext (mime_text ext (mime_text_plain ext)) = Ok (mime_text_plain ext)"
  shows "test_http_body_read_from_invalid_content_type ext" and "test_http_body_read_updates_read_bytes ext"
proof -
  have "show_nat 4 = ''4''" by code_simp
  then have four: "parse_usize ''4'' = Ok 4" using parse_uint_show [of 4 "2 ^ 64"] by (simp add: parse_usize_def)
  let ?hs = "\<lambda>t. headers_add \<lparr>hd_name = ''Content-Length'', hd_value = ''4''\<rparr>
    (headers_add \<lparr>hd_name = ''Content-Type'', hd_value = t\<rparr> headers_new)"
  have got: "headers_get (?hs t) ''Content-Length'' = Some [''4'']" "headers_get (?hs t) ''Content-Type'' = Some [t]"
    "headers_get (?hs t) ''Transfer-Encoding'' = None" for t
    by (simp_all add: headers_get_add)
  have no_te: "transfer_encoding_check (?hs t) = Ok ()" for t
    using got(3) [of t] by (simp add: transfer_encoding_check_def)
  show "test_http_body_read_from_invalid_content_type ext"
    using assms(1) four by (simp add: test_http_body_read_from_invalid_content_type_def body_read_from_def got no_te body_mime_def)
  let ?b = "\<lambda>c k. \<lparr>content_type = Some (mime_text_plain ext), content_length = 4,
    body_content = \<lparr>tk_inner = c, tk_limit = length c\<rparr>, bytes_read = k\<rparr>"
  have "body_read_from ext (?hs (mime_text ext (mime_text_plain ext))) ''test'' = Ok (Some (?b ''test'' 0))"
    using assms(2) four by (simp add: body_read_from_def got no_te body_mime_def)
  moreover have "read_to_end (body_read (take_read cursor_read)) (?b ''test'' 0) = Some (Ok ''test'', ?b [] 4)"
    unfolding read_to_end_def io_copy_def
    by (subst copy_loop.simps, simp add: body_read_def take_read_def cursor_read_def buf_capacity_def vec_write_def write_all.simps
      and_then_def ret_def, subst copy_loop.simps, simp add: body_read_def take_read_def cursor_read_def buf_capacity_def)
  moreover have "from_utf8_lossy ''test'' = ''test''" by code_simp
  ultimately show "test_http_body_read_updates_read_bytes ext"
    by (simp add: test_http_body_read_updates_read_bytes_def read_to_string_def prog_simps)
qed

end
