(* ===== verification/Spec2Isabelle.thy ===== *)
theory Spec2Isabelle
  imports Programs Client_Server Tls_Conversation Server_System Repository_Tests Http_Tests
begin

text \<open>
  A verification development for \<^verbatim>\<open>wruster\<close>, an HTTP/1.x server and client library in
  Rust (\<^verbatim>\<open>wruster/src\<close>), its handlers (\<^verbatim>\<open>wruster_handlers\<close>) and its two
  programs (\<^verbatim>\<open>wrusdummy\<close>, \<^verbatim>\<open>wrustatic\<close>). It follows the code bottom up; every
  theory opens with what it holds.

  \<^bold>\<open>The program.\<close> \<^verbatim>\<open>Server::start\<close> binds a listener and starts a thread that
  accepts connections. Each one becomes a cancellable stream (plain or TLS), is tracked in the list
  of observed streams, and is handed to a thread pool, whose worker holds a conversation on it: it
  reads a request through a stream with time-outs and a buffered reader, normalises its path, finds
  the handler of the longest registered prefix in a byte trie, runs it, drains what the handler left
  of the body, writes the response, and goes on as long as the request is persistent. A full pool
  answers 503. Stopping the server shuts down all streams that are still observed. The client
  exchanges messages over pooled connections with the same message types.

  \<^bold>\<open>Conventions.\<close> A Rust \<^verbatim>\<open>Result\<close> is a \<open>res\<close> (\<open>Ok\<close>, \<open>Err\<close>,
  or the \<open>Panic\<close> that unwinds the thread); code with effects is a \<open>prog\<close>, a function
  from a state to an optional result and state, where \<open>None\<close> means that it never returns.
  Loops that need not end are \<open>partial_function\<close>s, so that their return is always something
  that is proved; no fuel is used. Strings are lists of bytes; \<^verbatim>\<open>usize\<close> and
  \<^verbatim>\<open>u64\<close> are kept at their width wherever the code can reach it (body lengths, keys of
  the list of streams), instants and durations are natural numbers of nanoseconds. A
  \<^verbatim>\<open>HashMap\<close> is an association list, and each iteration over one takes its order
  as a parameter (\<open>iteration_order\<close>). Threads that share state with an operation make their
  moves between its steps: the pools take the ticks of their workers as an argument, the accept
  loop's wait is any step of the whole state, and histories are inductive relations.

  \<^bold>\<open>The base.\<close> \<open>Wruster_Prelude\<close> (results, programs, I/O errors), \<open>Std_Strings\<close>
  (UTF-8, numbers, trimming, splitting), \<open>Kv_Store\<close> (hash maps, and the contract
  \<open>kv_store\<close> that they and the trie provide), \<open>Std_Io\<close> (buffered and limited readers,
  copying, and the contracts \<open>byte_source\<close>, \<open>eof_source\<close>, \<open>byte_sink\<close>,
  \<open>full_sink\<close>, \<open>copying\<close>: what a reader or writer promises however it splits or
  interrupts its calls).

  \<^bold>\<open>Messages\<close> (\<^verbatim>\<open>http/\<close>). \<open>Http_Types\<close> has the errors, versions, status
  codes, methods and character classes; \<open>Headers\<close> the parser and writer of headers;
  \<open>Http_Body\<close> the framing, reading, draining and writing of bodies; \<open>Http_Message\<close>
  requests and responses. Shown: round trips of headers, requests and responses over any source and
  sink, every branch of the header parser with its panic and its divergence, what type everything
  that was read has and what writing it again makes of it, and that draining a body leaves exactly
  what follows it.

  \<^bold>\<open>Routing\<close> (\<^verbatim>\<open>router/\<close>). \<open>Route_Trie\<close> refines a partial map and its
  prefix lookup is the longest registered prefix (\<open>prefix_store\<close>); \<open>Router\<close> is proved
  over these contracts; \<open>Url_Path\<close> shows that normalisation refines a stack machine, never
  leaves the root and is idempotent.

  \<^bold>\<open>Threads\<close> (\<^verbatim>\<open>thread_pool/\<close>). \<open>Action_Runner\<close> states what a pool promises
  (\<open>action_runner\<close>: an action is taken once or given back); \<open>Static_Pool\<close> and
  \<open>Dynamic_Pool\<close> provide it under every interleaving with their workers, and
  \<open>Thread_Pool\<close> combines any two runners. Shown: over every history the threads run exactly
  the accepted actions, each once; dropping the pool runs what is left; the bounds of the number of
  workers; what a panicking action costs.

  \<^bold>\<open>Streams\<close> (\<^verbatim>\<open>streams/\<close>). \<open>Timeout_Stream\<close> (the budget of an operation, and
  why a slow peer outlives it), \<open>Cancellable_Stream\<close> (reads and writes over a non-blocking
  socket and a poller, contract \<open>socket\<close>), \<open>Tcp_Stream\<close> (the TCP streams below both),
  \<open>Observable\<close> (reference counts and the list of live streams: an invariant over all histories),
  \<open>Tls_Stream\<close> (certificates, keys, the session over the socket).

  \<^bold>\<open>The server\<close> (\<^verbatim>\<open>lib.rs\<close>). \<open>Server_Connection\<close> has one turn of a conversation over
  any stream that behaves as a connection (\<open>connection\<close>): what a request gets as its answer, with
  handlers that may depend on the request and read its body, which bytes are lost, which paths
  handlers see. \<open>Dialogue\<close> has whole conversations with a peer that waits for its answers
  (\<open>turn_taking\<close>, \<open>dialogue\<close>, and \<open>waiting_peer\<close> for the system below the
  stream): it gets exactly those of its requests, in order. \<open>Returning\<close> and \<open>Conversation\<close>
  show that every conversation ends, whatever finite input the peer sends, for handlers that return and
  connections whose calls return (\<open>ending_connection\<close>, which the cancellable stream over a
  system with the contract \<open>ending_os\<close> is); \<open>Tls_Conversation\<close> carries this over to TLS
  (\<open>ending_session\<close>). \<open>Server\<close> has the accept loop, \<^verbatim>\<open>start\<close>,
  \<^verbatim>\<open>shutdown\<close> and \<^verbatim>\<open>wait\<close>, over connections that can be closed
  (\<open>closing\<close>): no connection falls through. \<open>Server_System\<close> puts the accept loop, the
  pool (what it holds is in \<open>Pool_Contents\<close>), the conversations in its threads and the list of
  streams together in every interleaving, as an inductive relation: where each connection is at any
  time, and that stopping the server returns and leaves no connection open.

  \<^bold>\<open>The client\<close> (\<^verbatim>\<open>http/client/\<close>). \<open>Connection_Pool\<close> (eviction, expiry)
  and \<open>Client\<close> (\<open>exchanging\<close>: the exact bytes out and in over a pooled connection, what
  dropping the response does with it; \<open>peer_closed\<close>: when the client never returns).
  \<open>Client_Server\<close> has the client at one end and the server at the other end of a connection: each
  side is proved against its own contract, and the messages that the contract of one side has coming
  are shown to be what the other side writes.

  \<^bold>\<open>Handlers and programs.\<close> \<open>Handlers\<close> (\<^verbatim>\<open>serve_static\<close>,
  \<^verbatim>\<open>log_middleware\<close>) and \<open>Programs\<close> (both \<^verbatim>\<open>main\<close> functions): the
  configured response reaches the wire, and a static site does not leave its directory. \<open>Examples\<close> has the
  example program and the server of the documentation, with what their clients get.

  \<^bold>\<open>Tests.\<close> \<open>Repository_Tests\<close> and \<open>Http_Tests\<close> replay the unit tests of the repository on
  these definitions, as Booleans: the model passes them, those of the pools under exactly the schedules that are given there.
  They check the model against what the authors expect of the code.

  \<^bold>\<open>Parameters.\<close> What is not part of the sources is an argument: the \<^verbatim>\<open>mime\<close> crate
  and \<^verbatim>\<open>Debug\<close> texts (\<open>externals\<close>), the socket, the poller and the clock
  (\<open>os\<close>, \<open>timed\<close>, \<open>tcp_stream\<close>, \<open>polled\<close>, \<open>tcp\<close>), \<^verbatim>\<open>rustls\<close> (\<open>rustls\<close>,
  \<open>pem_files\<close>), the listener and the threads of the system (\<open>acceptor\<close>,
  \<open>system\<close>), the file system and \<^verbatim>\<open>mime_guess\<close> (\<open>files\<close>),
  \<^verbatim>\<open>serde_yaml\<close> (\<open>config_files\<close>) and \<^verbatim>\<open>clap\<close> (\<open>cli\<close>). Handlers are
  functions of the request. The locales state what is relied on of them, and each has an
  interpretation; the definitions whose names begin with \<open>mem_\<close> are sockets, files and peers in memory
  on which the witnesses run the code.

  \<^bold>\<open>Not modelled.\<close> Log output (it has no effect on the results); the
  \<^verbatim>\<open>Deref\<close> instances, which are the identity here; \<^verbatim>\<open>ComposeError\<close>, which nothing
  uses; poisoned locks, which need a panic inside a critical section; the test utilities and the tests that
  use real sockets, with the start of a server on a free port.
\<close>

end
